(* ===== verification/WS_Prelude.thy ===== *)
theory WS_Prelude
  imports Main "HOL-Library.Word" "HOL-Library.Sublist" "HOL-Library.Multiset"
    "HOL-Library.List_Lexorder" "HOL-Library.Char_ord" "HOL-Library.Code_Target_Nat"
begin

text \<open>
  The prelude of the ws-server development: the names of the machine types, the fragments of the
  C and C++ standard libraries that the server calls (\<open>std::search\<close>, \<open>std::string::find\<close>,
  \<open>std::tolower\<close>, \<open>std::isspace\<close>, \<open>std::to_string\<close>, \<open>strtoll\<close>, \<open>std::copy\<close>, the ordered
  \<open>std::map\<close>), and the generic lemmas about them that the components share. Bytes are \<open>char\<close>
  values, so a \<open>std::string\<close> or a \<open>std::vector<char>\<close> is a \<open>char list\<close>; \<open>size_t\<close> values that
  index memory objects are \<open>nat\<close>, and \<open>npos\<close> is \<open>None\<close>. The locale \<open>inv_system\<close> is the
  interface of every state machine of the development: a start state, a step relation and an
  invariant that the steps keep.
\<close>

section \<open>Types and rule collections\<close>

type_synonym bytes = "char list"
type_synonym u16 = "16 word"
type_synonym u32 = "32 word"
type_synonym u64 = "64 word"

named_theorems buf_simps "the effect of the buffer operations on the readable bytes"
named_theorems parse_simps "one-step equations of the parser on byte lists"
named_theorems frame_simps "fields that an operation leaves alone"

abbreviation CR :: char where "CR \<equiv> CHR 0x0D"
abbreviation LF :: char where "LF \<equiv> CHR 0x0A"
abbreviation CRLF :: bytes where "CRLF \<equiv> [CR, LF]"
abbreviation NUL :: char where "NUL \<equiv> CHR 0x00"

section \<open>Searching\<close>

text \<open>
  \<open>std::search\<close> and \<open>std::string::find\<close>: the offset of the first occurrence of a pattern,
  \<open>None\<close> for \<open>last\<close> or \<open>npos\<close>.
\<close>

fun search :: "'a list \<Rightarrow> 'a list \<Rightarrow> nat option" where
  "search pat [] = (if pat = [] then Some 0 else None)"
| "search pat (x # xs) =
     (if prefix pat (x # xs) then Some 0 else map_option Suc (search pat xs))"

definition str_find :: "char \<Rightarrow> nat \<Rightarrow> string \<Rightarrow> nat option" where
  "str_find c pos s = map_option (\<lambda>i. pos + i) (search [c] (drop pos s))"

definition str_rfind :: "char \<Rightarrow> string \<Rightarrow> nat option" where
  "str_rfind c s = map_option (\<lambda>i. length s - 1 - i) (search [c] (rev s))"

lemma search_SomeD:
  "search pat xs = Some i \<Longrightarrow> i + length pat \<le> length xs \<and> take (length pat) (drop i xs) = pat"
proof (induction xs arbitrary: i)
  case (Cons x xs)
  then show ?case
    by (auto split: if_splits simp: prefix_def dest: arg_cong [where f = length])
qed (simp split: if_splits)

lemma search_append:
  "search pat xs = Some i \<Longrightarrow> search pat (xs @ ys) = Some i"
proof (induction xs arbitrary: i)
  case Nil
  then show ?case by (cases ys) (auto split: if_splits)
next
  case (Cons x xs)
  show ?case
  proof (cases "prefix pat (x # xs)")
    case True
    then have "prefix pat (x # xs @ ys)" by (metis append_Cons prefix_prefix)
    with Cons.prems True show ?thesis by simp
  next
    case False
    with Cons.prems obtain j where j: "search pat xs = Some j" "i = Suc j" by auto
    then have "length pat \<le> length xs" using search_SomeD by fastforce
    with False have "\<not> prefix pat ((x # xs) @ ys)"
      by (metis le_SucI length_Cons prefixI prefix_length_prefix)
    with j Cons.IH [OF j(1)] show ?thesis by simp
  qed
qed

lemma search_Some_iff:
  "search pat xs = Some i \<longleftrightarrow>
     i \<le> length xs \<and> prefix pat (drop i xs) \<and> (\<forall>j < i. \<not> prefix pat (drop j xs))"
proof (induction xs arbitrary: i)
  case Nil
  then show ?case by auto
next
  case (Cons x xs)
  show ?case
  proof (cases i)
    case 0
    then show ?thesis by auto
  next
    case (Suc k)
    have "(\<forall>j < Suc k. \<not> prefix pat (drop j (x # xs))) \<longleftrightarrow>
        \<not> prefix pat (x # xs) \<and> (\<forall>j < k. \<not> prefix pat (drop j xs))"
      by (auto simp: less_Suc_eq_0_disj)
    with Suc Cons.IH [of k] show ?thesis by auto
  qed
qed

lemma prefix_CRLF_drop:
  "prefix CRLF (drop i xs) \<longleftrightarrow> i + 1 < length xs \<and> xs ! i = CR \<and> xs ! (i + 1) = LF"
proof (cases "i + 1 < length xs")
  case True
  then have "drop i xs = xs ! i # xs ! (i + 1) # drop (i + 2) xs"
    by (metis Cons_nth_drop_Suc Suc_eq_plus1 Suc_lessD add_2_eq_Suc')
  with True show ?thesis by auto
next
  case False
  then have "length (drop i xs) < length CRLF" by simp
  with False show ?thesis using prefix_length_le by fastforce
qed

lemma search_single_None: "search [c] xs = None \<longleftrightarrow> c \<notin> set xs"
  by (induction xs) auto

lemma search_single_append: "c \<notin> set xs \<Longrightarrow> search [c] (xs @ c # ys) = Some (length xs)"
  by (induction xs) auto

lemma search_single_take: "search [c] xs = Some i \<Longrightarrow> c \<notin> set (take i xs)"
  by (induction xs arbitrary: i) (auto split: if_splits)

lemma search_CRLF_line:
  "search CRLF xs = None \<Longrightarrow> search CRLF (xs @ CR # LF # ys) = Some (length xs)"
proof (induction xs)
  case Nil
  then show ?case by simp
next
  case (Cons x xs)
  then show ?case by (cases xs) (auto split: if_splits)
qed

lemma search_CRLF_no_CR: "CR \<notin> set xs \<Longrightarrow> search CRLF xs = None"
  by (induction xs) auto

lemma search_CRLF_before:
  "search CRLF xs = Some i \<Longrightarrow> search CRLF (take i xs) = None"
proof (induction xs arbitrary: i)
  case Nil
  then show ?case by simp
next
  case (Cons x xs)
  show ?case
  proof (cases "prefix CRLF (x # xs)")
    case True
    with Cons.prems show ?thesis by auto
  next
    case False
    with Cons.prems obtain j where j: "search CRLF xs = Some j" "i = Suc j" by auto
    with Cons.IH have "search CRLF (take j xs) = None" by simp
    moreover have "\<not> prefix CRLF (x # take j xs)"
      using False by (metis append_prefixD prefixI append_take_drop_id append_Cons prefix_order.trans)
    ultimately show ?thesis using j by simp
  qed
qed

lemma search_CRLF_split:
  "search CRLF xs = Some i \<Longrightarrow> xs = take i xs @ CRLF @ drop (i + 2) xs"
  using search_SomeD [of CRLF xs i]
  by (metis append_take_drop_id drop_drop length_Cons list.size(3) numeral_2_eq_2 add.commute)

section \<open>Characters: the C locale of ctype.h\<close>

definition tolower :: "char \<Rightarrow> char" where
  "tolower c = (if (65::nat) \<le> of_char c \<and> of_char c \<le> (90::nat)
                then char_of (of_char c + (32::nat)) else c)"

definition isspace :: "char \<Rightarrow> bool" where
  "isspace c \<longleftrightarrow> of_char c = (32::nat) \<or> (9::nat) \<le> of_char c \<and> of_char c \<le> (13::nat)"

definition isdigit :: "char \<Rightarrow> bool" where
  "isdigit c \<longleftrightarrow> (48::nat) \<le> of_char c \<and> of_char c \<le> (57::nat)"

lemma tolower_idem [simp]: "tolower (tolower c) = tolower c"
proof (cases "(65::nat) \<le> of_char c \<and> of_char c \<le> (90::nat)")
  case True
  then have "of_char (tolower c) = of_char c + (32::nat)"
    by (auto simp: tolower_def)
  with True have "\<not> of_char (tolower c) \<le> (90::nat)" by simp
  then show ?thesis by (simp add: tolower_def [of "tolower c"])
qed (auto simp: tolower_def)

lemma isspace_tolower [simp]: "isspace (tolower c) = isspace c"
  by (auto simp: tolower_def isspace_def)

lemma isdigit_not_space: "isdigit c \<Longrightarrow> \<not> isspace c"
  by (auto simp: isdigit_def isspace_def)

lemma isspace_CR_LF [simp]: "isspace CR" "isspace LF" "isspace CHR '' ''" "\<not> isspace CHR '':''"
  by (simp_all add: isspace_def)

section \<open>Decimal numbers: std::to_string and strtoll\<close>

definition digit_char :: "nat \<Rightarrow> char" where
  "digit_char d = char_of (48 + d)"

fun to_string :: "nat \<Rightarrow> string" where
  "to_string n = (if n < 10 then [digit_char n] else to_string (n div 10) @ [digit_char (n mod 10)])"

declare to_string.simps [simp del]

definition int_to_string :: "int \<Rightarrow> string" where
  "int_to_string i = (if i < 0 then CHR ''-'' # to_string (nat (- i)) else to_string (nat i))"

definition digits_val :: "string \<Rightarrow> nat" where
  "digits_val ds = foldl (\<lambda>n c. 10 * n + (of_char c - 48)) 0 ds"

abbreviation LLONG_MAX :: int where "LLONG_MAX \<equiv> 9223372036854775807"
abbreviation LLONG_MIN :: int where "LLONG_MIN \<equiv> - 9223372036854775808"

text \<open>
  \<open>strtoll(s, &endp, 10)\<close>: leading white space, an optional sign, decimal digits; the value is
  clamped to the range of \<open>long long\<close> (errno ERANGE, which the server does not read). The second
  component says whether a conversion took place, that is \<open>endp \<noteq> s\<close>. A NUL byte ends the C string;
  it is no digit, so it ends the number as any other non-digit does.
\<close>

definition strtoll :: "string \<Rightarrow> int \<times> bool" where
  "strtoll s =
     (let s1 = dropWhile isspace s;
          neg = (s1 \<noteq> [] \<and> hd s1 = CHR ''-'');
          s2 = (if s1 \<noteq> [] \<and> (hd s1 = CHR ''-'' \<or> hd s1 = CHR ''+'') then tl s1 else s1);
          ds = takeWhile isdigit s2;
          v = (if neg then - int (digits_val ds) else int (digits_val ds))
      in if ds = [] then (0, False) else (max LLONG_MIN (min LLONG_MAX v), True))"

lemma of_char_digit_char [simp]: "d < 10 \<Longrightarrow> of_char (digit_char d) = 48 + d"
  by (simp add: digit_char_def)

lemma isdigit_digit_char [simp]: "d < 10 \<Longrightarrow> isdigit (digit_char d)"
  by (simp add: isdigit_def)

lemma digits_val_snoc: "digits_val (ds @ [c]) = 10 * digits_val ds + (of_char c - 48)"
  by (simp add: digits_val_def)

lemma to_string_isdigit: "\<forall>c \<in> set (to_string n). isdigit c"
proof (induction n rule: to_string.induct)
  case (1 n)
  then show ?case by (cases "n < 10") (auto simp: to_string.simps [of n])
qed

lemma search_sublist: "search pat s \<noteq> None \<longleftrightarrow> sublist pat s"
  by (induction s) (auto simp: sublist_Cons_right)

lemma length_to_string: "n < 10 ^ Suc k \<Longrightarrow> length (to_string n) \<le> Suc k"
proof (induction k arbitrary: n)
  case 0
  then show ?case by (simp add: to_string.simps [of n])
next
  case (Suc k)
  then have "length (to_string (n div 10)) \<le> Suc k" by (simp add: less_mult_imp_div_less mult.commute)
  then show ?case by (simp add: to_string.simps [of n])
qed

lemma to_string_neq_Nil [simp]: "to_string n \<noteq> []"
  by (subst to_string.simps) simp

lemma digits_val_to_string [simp]: "digits_val (to_string n) = n"
proof (induction n rule: to_string.induct)
  case (1 n)
  show ?case
  proof (cases "n < 10")
    case True
    then show ?thesis by (simp add: to_string.simps [of n] digits_val_def)
  next
    case False
    with "1.IH" show ?thesis by (simp add: to_string.simps [of n] digits_val_snoc)
  qed
qed

lemma isdigit_sign: "\<not> isdigit CHR ''-''" "\<not> isdigit CHR ''+''" "\<not> isdigit NUL"
  by (simp_all add: isdigit_def)

lemma strtoll_digits:
  assumes "ds \<noteq> []" "\<forall>c \<in> set ds. isdigit c"
  shows "strtoll ds = (min LLONG_MAX (int (digits_val ds)), True)"
proof -
  obtain c cs where ds: "ds = c # cs" using assms(1) by (cases ds) auto
  with assms(2) have "isdigit c" by simp
  then have "\<not> isspace c" "c \<noteq> CHR ''-''" "c \<noteq> CHR ''+''"
    using isdigit_not_space isdigit_sign by auto
  then have drop: "dropWhile isspace ds = ds" and hd: "hd ds \<noteq> CHR ''-''" "hd ds \<noteq> CHR ''+''"
    by (simp_all add: ds)
  have take: "takeWhile isdigit ds = ds" using assms(2) by (simp only: takeWhile_eq_all_conv)
  show ?thesis
    unfolding strtoll_def Let_def drop using hd assms(1) by (simp add: take)
qed

lemma strtoll_to_string:
  "int n \<le> LLONG_MAX \<Longrightarrow> strtoll (to_string n) = (int n, True)"
  by (simp add: strtoll_digits to_string_isdigit)

lemma strtoll_range: "strtoll s = (v, ok) \<Longrightarrow> LLONG_MIN \<le> v \<and> v \<le> LLONG_MAX"
  by (auto simp: strtoll_def Let_def split: if_splits)

section \<open>Vectors: resize, std::copy\<close>

definition vec_resize :: "nat \<Rightarrow> bytes \<Rightarrow> bytes" where
  "vec_resize n xs = take n xs @ replicate (n - length xs) NUL"

text \<open>
  \<open>std::copy\<close> moves element by element from the front. \<open>std_copy src dst n\<close> copies within one
  vector, where source and destination may overlap; \<open>write_at\<close> copies from another object.
\<close>

fun std_copy :: "nat \<Rightarrow> nat \<Rightarrow> nat \<Rightarrow> 'a list \<Rightarrow> 'a list" where
  "std_copy src dst 0 xs = xs"
| "std_copy src dst (Suc n) xs = std_copy (Suc src) (Suc dst) n (xs[dst := xs ! src])"

fun write_at :: "nat \<Rightarrow> 'a list \<Rightarrow> 'a list \<Rightarrow> 'a list" where
  "write_at i [] xs = xs"
| "write_at i (y # ys) xs = write_at (Suc i) ys (xs[i := y])"

lemma length_vec_resize [simp]: "length (vec_resize n xs) = n"
  by (simp add: vec_resize_def)

lemma length_std_copy [simp]: "length (std_copy src dst n xs) = length xs"
  by (induction n arbitrary: src dst xs) auto

lemma length_write_at [simp]: "length (write_at i ys xs) = length xs"
  by (induction ys arbitrary: i xs) auto

lemma std_copy_leftwards:
  "dst \<le> src \<Longrightarrow> src + n \<le> length xs \<Longrightarrow>
   std_copy src dst n xs = take dst xs @ take n (drop src xs) @ drop (dst + n) xs"
proof (induction n arbitrary: src dst xs)
  case 0
  then show ?case by simp
next
  case (Suc n)
  let ?ys = "xs[dst := xs ! src]"
  have d: "drop (Suc src) ?ys = drop (Suc src) xs" "drop (Suc (dst + n)) ?ys = drop (Suc (dst + n)) xs"
    using Suc.prems by (simp_all add: drop_update_cancel)
  have t: "take (Suc dst) ?ys = take dst xs @ [xs ! src]"
    using Suc.prems by (simp add: take_Suc_conv_app_nth)
  have s: "drop src xs = xs ! src # drop (Suc src) xs"
    using Suc.prems by (simp add: Cons_nth_drop_Suc)
  show ?case using Suc.prems by (simp add: Suc.IH d t s)
qed

lemma write_at_eq:
  "i + length ys \<le> length xs \<Longrightarrow> write_at i ys xs = take i xs @ ys @ drop (i + length ys) xs"
proof (induction ys arbitrary: i xs)
  case Nil
  then show ?case by simp
next
  case (Cons y ys)
  then show ?case by (simp add: take_Suc_conv_app_nth drop_update_cancel)
qed

section \<open>std::map: a list of pairs in strictly ascending key order\<close>

fun map_put :: "'k::linorder \<Rightarrow> 'v \<Rightarrow> ('k \<times> 'v) list \<Rightarrow> ('k \<times> 'v) list" where
  "map_put k v [] = [(k, v)]"
| "map_put k v ((k', v') # m) =
     (if k < k' then (k, v) # (k', v') # m
      else if k = k' then (k, v) # m
      else (k', v') # map_put k v m)"

definition map_ok :: "('k::linorder \<times> 'v) list \<Rightarrow> bool" where
  "map_ok m \<longleftrightarrow> sorted_wrt (<) (map fst m)"

lemma set_map_put: "fst ` set (map_put k v m) = insert k (fst ` set m)"
  by (induction k v m rule: map_put.induct) (simp_all add: insert_commute)

lemma map_ok_Nil [simp]: "map_ok []"
  by (simp add: map_ok_def)

lemma map_ok_put [simp]: "map_ok m \<Longrightarrow> map_ok (map_put k v m)"
proof (induction m)
  case (Cons x m)
  have "set (map fst (map_put k v m)) = insert k (fst ` set m)" by (simp add: set_map_put)
  with Cons show ?case by (cases x) (auto simp: map_ok_def)
qed (simp add: map_ok_def)

lemma map_of_put [simp]: "map_ok m \<Longrightarrow> map_of (map_put k v m) = (map_of m)(k \<mapsto> v)"
proof (induction m)
  case (Cons x m)
  obtain k' v' where x: "x = (k', v')" by (cases x)
  from Cons.prems have "map_ok m" by (simp add: map_ok_def)
  with Cons.IH show ?case by (auto simp: x fun_eq_iff)
qed simp

lemma length_map_put:
  "map_ok m \<Longrightarrow> length (map_put k v m) = (if k \<in> fst ` set m then length m else Suc (length m))"
  by (induction k v m rule: map_put.induct) (force simp: map_ok_def)+

lemma map_ok_distinct: "map_ok m \<Longrightarrow> distinct (map fst m)"
  by (auto simp: map_ok_def strict_sorted_iff)

lemma map_put_snoc: "\<forall>k' \<in> fst ` set m. k' < k \<Longrightarrow> map_put k v m = m @ [(k, v)]"
  by (induction m) auto

section \<open>State machines\<close>

locale inv_system =
  fixes init :: "'s \<Rightarrow> bool"
    and step :: "'s \<Rightarrow> 's \<Rightarrow> bool"
    and inv :: "'s \<Rightarrow> bool"
  assumes inv_init: "init s \<Longrightarrow> inv s"
    and inv_step: "step s t \<Longrightarrow> inv s \<Longrightarrow> inv t"
begin

lemma inv_steps: "rtranclp step s t \<Longrightarrow> inv s \<Longrightarrow> inv t"
  by (induction rule: rtranclp_induct) (auto intro: inv_step)

lemma inv_reachable: "init s \<Longrightarrow> rtranclp step s t \<Longrightarrow> inv t"
  by (blast intro: inv_steps inv_init)

end

end
