(* ===== verification/Memory_Pool.thy ===== *)
theory Memory_Pool
  imports WS_Prelude
begin

text \<open>
  The fixed-size block pool, \<open>include/ws/memory_pool.h\<close> and \<open>src/memory_pool.cpp\<close>. The free blocks
  of a pool are a linked list threaded through the blocks themselves, so memory is an explicit store:
  \<open>cells\<close> gives the pointer stored at an address, 0 is \<open>nullptr\<close>, and a pool holds only the address of
  the first free block. \<open>size_t\<close> values are 64-bit words, so the sizes wrap as in the code; addresses
  are natural numbers. \<open>aligned_alloc\<close> belongs to the C library: it is the argument \<open>aa\<close>, which sees
  the regions handed out so far, and \<open>alloc_ok\<close> is what its documentation promises. The locale
  \<open>block_allocator\<close> is the contract that clients rely on; \<open>pool\<close> is its interpretation on the model.
\<close>

unbundle bit_operations_syntax

section \<open>Definitions\<close>

abbreviation kAlign :: u64 where "kAlign \<equiv> 16"
abbreviation sizeof_ptr :: u64 where "sizeof_ptr \<equiv> 8"

definition align_up :: "u64 \<Rightarrow> u64" where
  "align_up s = (s + kAlign - 1) AND NOT (kAlign - 1)"

definition normalizeBlockSize :: "u64 \<Rightarrow> u64" where
  "normalizeBlockSize s =
     (let s1 = if s < sizeof_ptr then sizeof_ptr else s;
          s2 = if s1 < kAlign then kAlign else s1
      in align_up s2)"

definition kClasses :: "u64 list" where
  "kClasses = [16, 32, 64, 128, 256, 512, 1024, 2048, 4096]"

definition kNumClasses :: nat where
  "kNumClasses = length kClasses"

record Chunk =
  base :: nat
  chunk_bytes :: u64

text \<open>The store: pointer-sized cells, and the regions \<open>aligned_alloc\<close> has handed out and not got back.\<close>

record memory =
  cells :: "nat \<Rightarrow> nat"
  regions :: "Chunk list"

record MemoryPool =
  block_size :: u64
  blocks_per_chunk :: u64
  chunks :: "Chunk list"
  free_list :: nat
  in_use :: u64
  capacity :: u64

datatype pool_error = bad_alloc

type_synonym alloc_fn = "Chunk list \<Rightarrow> u64 \<Rightarrow> nat option"

text \<open>The loop of \<open>grow\<close>, from block \<open>i\<close> with \<open>k\<close> blocks to go.\<close>

fun carve :: "nat \<Rightarrow> u64 \<Rightarrow> nat \<Rightarrow> nat \<Rightarrow> (nat \<Rightarrow> nat) \<times> nat \<Rightarrow> (nat \<Rightarrow> nat) \<times> nat" where
  "carve p bs i 0 (c, fl) = (c, fl)"
| "carve p bs i (Suc k) (c, fl) =
     (let block = p + unat (of_nat i * bs) in carve p bs (Suc i) k (c(block := fl), block))"

definition grow :: "alloc_fn \<Rightarrow> MemoryPool \<Rightarrow> memory \<Rightarrow> pool_error + (MemoryPool \<times> memory)" where
  "grow aa p m =
     (let bytes = block_size p * blocks_per_chunk p;
          aligned = align_up bytes
      in case aa (regions m) aligned of
           None \<Rightarrow> Inl bad_alloc
         | Some mem \<Rightarrow>
             let c = \<lparr>base = mem, chunk_bytes = aligned\<rparr>;
                 (cs, fl) = carve mem (block_size p) 0 (unat (blocks_per_chunk p)) (cells m, free_list p)
             in Inr (p\<lparr>chunks := chunks p @ [c], capacity := capacity p + blocks_per_chunk p, free_list := fl\<rparr>,
                     m\<lparr>cells := cs, regions := regions m @ [c]\<rparr>))"

definition MemoryPool_new :: "alloc_fn \<Rightarrow> u64 \<Rightarrow> u64 \<Rightarrow> memory \<Rightarrow> pool_error + (MemoryPool \<times> memory)" where
  "MemoryPool_new aa bs n m =
     grow aa \<lparr>block_size = normalizeBlockSize bs, blocks_per_chunk = (if n = 0 then 1 else n),
       chunks = [], free_list = 0, in_use = 0, capacity = 0\<rparr> m"

definition MemoryPool_destroy :: "MemoryPool \<Rightarrow> memory \<Rightarrow> memory" where
  "MemoryPool_destroy p m = fold (\<lambda>c m. m\<lparr>regions := remove1 c (regions m)\<rparr>) (chunks p) m"

definition pool_allocate :: "alloc_fn \<Rightarrow> MemoryPool \<Rightarrow> memory \<Rightarrow> pool_error + (nat \<times> MemoryPool \<times> memory)" where
  "pool_allocate aa p m =
     (case (if free_list p = 0 then grow aa p m else Inr (p, m)) of
        Inl e \<Rightarrow> Inl e
      | Inr (p, m) \<Rightarrow>
          let a = free_list p
          in Inr (a, p\<lparr>free_list := cells m a, in_use := in_use p + 1\<rparr>, m))"

definition pool_deallocate :: "nat \<Rightarrow> MemoryPool \<Rightarrow> memory \<Rightarrow> MemoryPool \<times> memory" where
  "pool_deallocate a p m =
     (if a = 0 then (p, m)
      else (p\<lparr>free_list := a, in_use := in_use p - 1\<rparr>, m\<lparr>cells := (cells m)(a := free_list p)\<rparr>))"

text \<open>\<open>tlsPoolFor\<close>: the pools of one thread. A \<open>pool_ref\<close> is the reference it returns.\<close>

record tls_pools =
  t_pools :: "MemoryPool option list"
  t_big_pools :: "MemoryPool list"

datatype pool_ref = PClass nat | PBig nat

definition tls_new :: tls_pools where
  "tls_new = \<lparr>t_pools = replicate kNumClasses None, t_big_pools = []\<rparr>"

fun first_index :: "('a \<Rightarrow> bool) \<Rightarrow> 'a list \<Rightarrow> nat option" where
  "first_index P [] = None"
| "first_index P (x # xs) = (if P x then Some 0 else map_option Suc (first_index P xs))"

definition tlsPoolFor :: "alloc_fn \<Rightarrow> u64 \<Rightarrow> tls_pools \<Rightarrow> memory \<Rightarrow> pool_error + (pool_ref \<times> tls_pools \<times> memory)" where
  "tlsPoolFor aa bs t m =
     (case first_index (\<lambda>c. bs \<le> c) kClasses of
        Some i \<Rightarrow>
          (case t_pools t ! i of
             Some p \<Rightarrow> Inr (PClass i, t, m)
           | None \<Rightarrow>
               (case MemoryPool_new aa (kClasses ! i) 512 m of
                  Inl e \<Rightarrow> Inl e
                | Inr (p, m') \<Rightarrow> Inr (PClass i, t\<lparr>t_pools := (t_pools t)[i := Some p]\<rparr>, m')))
      | None \<Rightarrow>
          let rounded = normalizeBlockSize bs
          in case first_index (\<lambda>p. block_size p = rounded) (t_big_pools t) of
               Some j \<Rightarrow> Inr (PBig j, t, m)
             | None \<Rightarrow>
                 (case MemoryPool_new aa rounded 16 m of
                    Inl e \<Rightarrow> Inl e
                  | Inr (p, m') \<Rightarrow>
                      Inr (PBig (length (t_big_pools t)), t\<lparr>t_big_pools := t_big_pools t @ [p]\<rparr>, m')))"

fun pool_at :: "tls_pools \<Rightarrow> pool_ref \<Rightarrow> MemoryPool" where
  "pool_at t (PClass i) = the (t_pools t ! i)"
| "pool_at t (PBig j) = t_big_pools t ! j"

fun set_pool :: "pool_ref \<Rightarrow> MemoryPool \<Rightarrow> tls_pools \<Rightarrow> tls_pools" where
  "set_pool (PClass i) p t = t\<lparr>t_pools := (t_pools t)[i := Some p]\<rparr>"
| "set_pool (PBig j) p t = t\<lparr>t_big_pools := (t_big_pools t)[j := p]\<rparr>"

text \<open>
  \<open>PoolAllocator<T>\<close> for a type of size \<open>sz\<close>; \<open>opnew\<close> and \<open>opdel\<close> are \<open>::operator new\<close> and
  \<open>::operator delete\<close>.
\<close>

definition PoolAllocator_allocate ::
  "alloc_fn \<Rightarrow> (memory \<Rightarrow> u64 \<Rightarrow> pool_error + (nat \<times> memory)) \<Rightarrow> u64 \<Rightarrow> u64 \<Rightarrow> tls_pools \<Rightarrow> memory
   \<Rightarrow> pool_error + (nat \<times> tls_pools \<times> memory)" where
  "PoolAllocator_allocate aa opnew sz n t m =
     (if n = 1 then
        (case tlsPoolFor aa sz t m of
           Inl e \<Rightarrow> Inl e
         | Inr (r, t, m) \<Rightarrow>
             (case pool_allocate aa (pool_at t r) m of
                Inl e \<Rightarrow> Inl e
              | Inr (a, p, m) \<Rightarrow> Inr (a, set_pool r p t, m)))
      else (case opnew m (n * sz) of Inl e \<Rightarrow> Inl e | Inr (a, m) \<Rightarrow> Inr (a, t, m)))"

definition PoolAllocator_deallocate ::
  "alloc_fn \<Rightarrow> (nat \<Rightarrow> memory \<Rightarrow> memory) \<Rightarrow> u64 \<Rightarrow> nat \<Rightarrow> u64 \<Rightarrow> tls_pools \<Rightarrow> memory
   \<Rightarrow> pool_error + (tls_pools \<times> memory)" where
  "PoolAllocator_deallocate aa opdel sz a n t m =
     (if n = 1 then
        (case tlsPoolFor aa sz t m of
           Inl e \<Rightarrow> Inl e
         | Inr (r, t, m) \<Rightarrow>
             (case pool_deallocate a (pool_at t r) m of (p, m) \<Rightarrow> Inr (set_pool r p t, m)))
      else Inr (t, opdel a m))"

section \<open>Sizes\<close>

lemma and_not_15: "(x::u64) AND - 16 = x - x mod 16"
proof -
  have "(x AND NOT (mask 4)) + (x AND mask 4) = x"
    by (subst disjunctive_add_eq_or) (auto simp: bit_eq_iff bit_simps)
  then have "x AND NOT (mask 4) = x - (x AND mask 4)" by (metis add_diff_cancel_right')
  moreover have "x AND mask 4 = x mod 16" by (simp add: take_bit_eq_mask [symmetric] take_bit_eq_mod)
  moreover have "NOT (mask 4) = (- 16 :: u64)" by (simp add: mask_eq_exp_minus_1)
  ultimately show ?thesis by simp
qed

lemma unat_align_up:
  "unat s \<le> 2 ^ 64 - 16 \<Longrightarrow> unat (align_up s) = (unat s + 15) div 16 * 16"
proof -
  assume s: "unat s \<le> 2 ^ 64 - 16"
  let ?x = "s + 15"
  have x: "unat ?x = unat s + 15" using s by (simp add: unat_word_ariths)
  have "?x mod 16 \<le> ?x" by (simp add: word_le_nat_alt unat_mod)
  then have "unat (?x - ?x mod 16) = unat ?x - unat ?x mod 16"
    by (simp add: unat_sub unat_mod)
  then show ?thesis by (simp add: align_up_def add.commute [of 15] and_not_15 x minus_mod_eq_div_mult)
qed

lemma align_up_wraps: "2 ^ 64 - 16 < unat s \<Longrightarrow> align_up s = 0"
proof -
  assume s: "2 ^ 64 - 16 < unat s"
  have "unat s < 2 ^ 64" using unsigned_less [of s] by simp
  with s have "unat (s + 15) = unat s + 15 - 2 ^ 64" by (simp add: unat_word_ariths mod_if)
  with s \<open>unat s < 2 ^ 64\<close> have "unat (s + 15) < 16" by simp
  then have "unat ((s + 15) mod 16) = unat (s + 15)" by (simp add: unat_mod)
  then have "(s + 15) mod 16 = s + 15" by (simp only: word_unat_eq_iff)
  then show ?thesis by (simp add: align_up_def add.commute [of 15] and_not_15)
qed

section \<open>The state of a pool, and its invariant\<close>

text \<open>What the C library promises of \<open>aligned_alloc(16, bytes)\<close>.\<close>

definition region_apart :: "Chunk \<Rightarrow> Chunk \<Rightarrow> bool" where
  "region_apart c d \<longleftrightarrow>
     base c + unat (chunk_bytes c) \<le> base d \<or> base d + unat (chunk_bytes d) \<le> base c"

definition alloc_ok :: "alloc_fn \<Rightarrow> bool" where
  "alloc_ok aa \<longleftrightarrow> (\<forall>rs bytes a. aa rs bytes = Some a \<longrightarrow>
     0 < a \<and> a mod 16 = 0 \<and> a + unat bytes \<le> 2 ^ 64 \<and>
     (\<forall>r \<in> set rs. region_apart r \<lparr>base = a, chunk_bytes = bytes\<rparr>))"

definition block_addrs :: "u64 \<Rightarrow> u64 \<Rightarrow> Chunk \<Rightarrow> nat list" where
  "block_addrs bs n c = map (\<lambda>i. base c + i * unat bs) [0..<unat n]"

definition pool_blocks :: "MemoryPool \<Rightarrow> nat list" where
  "pool_blocks p = concat (map (block_addrs (block_size p) (blocks_per_chunk p)) (chunks p))"

fun walk :: "nat \<Rightarrow> (nat \<Rightarrow> nat) \<Rightarrow> nat \<Rightarrow> nat list" where
  "walk 0 c a = []"
| "walk (Suc k) c a = (if a = 0 then [] else a # walk k c (c a))"

fun chain :: "(nat \<Rightarrow> nat) \<Rightarrow> nat \<Rightarrow> nat list \<Rightarrow> bool" where
  "chain c a [] \<longleftrightarrow> a = 0"
| "chain c a (x # xs) \<longleftrightarrow> a = x \<and> x \<noteq> 0 \<and> chain c (c x) xs"

definition free_blocks :: "MemoryPool \<Rightarrow> memory \<Rightarrow> nat list" where
  "free_blocks p m = walk (length (pool_blocks p)) (cells m) (free_list p)"

definition used_blocks :: "MemoryPool \<Rightarrow> memory \<Rightarrow> nat set" where
  "used_blocks p m = set (pool_blocks p) - set (free_blocks p m)"

definition pool_shape :: "MemoryPool \<Rightarrow> memory \<Rightarrow> bool" where
  "pool_shape p m \<longleftrightarrow>
     16 \<le> unat (block_size p) \<and> unat (block_size p) mod 16 = 0 \<and> 0 < unat (blocks_per_chunk p) \<and>
     unat (block_size p) * unat (blocks_per_chunk p) \<le> 2 ^ 64 - 16 \<and>
     (\<forall>c \<in> set (chunks p). c \<in> set (regions m) \<and> 0 < base c \<and> base c mod 16 = 0 \<and>
        unat (chunk_bytes c) = unat (block_size p) * unat (blocks_per_chunk p)) \<and>
     sorted_wrt region_apart (chunks p)"

definition pool_inv :: "MemoryPool \<Rightarrow> memory \<Rightarrow> bool" where
  "pool_inv p m \<longleftrightarrow> pool_shape p m \<and> chain (cells m) (free_list p) (free_blocks p m) \<and>
     distinct (free_blocks p m) \<and> set (free_blocks p m) \<subseteq> set (pool_blocks p) \<and>
     in_use p = of_nat (length (pool_blocks p) - length (free_blocks p m)) \<and>
     capacity p = of_nat (length (pool_blocks p))"

section \<open>Lemmas\<close>

lemma chain_cong: "(\<And>x. x \<in> set xs \<Longrightarrow> c x = c' x) \<Longrightarrow> chain c a xs = chain c' a xs"
  by (induction xs arbitrary: a) auto

lemma walk_chain: "chain c a xs \<Longrightarrow> length xs \<le> k \<Longrightarrow> walk k c a = xs"
proof (induction k arbitrary: a xs)
  case (Suc k)
  then show ?case by (cases xs) auto
qed simp

lemma chain_nonzero: "chain c a xs \<Longrightarrow> 0 \<notin> set xs"
  by (induction xs arbitrary: a) auto

lemma chain_hd: "chain c a xs \<Longrightarrow> a \<noteq> 0 \<Longrightarrow> \<exists>ys. xs = a # ys \<and> chain c (c a) ys"
  by (cases xs) auto

lemma set_block_addrs: "x \<in> set (block_addrs bs n c) \<longleftrightarrow> (\<exists>i < unat n. x = base c + i * unat bs)"
  by (auto simp: block_addrs_def)

lemma block_addrs_inside:
  assumes "x \<in> set (block_addrs bs n c)"
  shows "base c \<le> x \<and> x + unat bs \<le> base c + unat bs * unat n"
proof -
  obtain i where i: "i < unat n" "x = base c + i * unat bs" using assms by (auto simp: set_block_addrs)
  then have "Suc i * unat bs \<le> unat n * unat bs" by (intro mult_le_mono1) simp
  with i show ?thesis by (simp add: mult.commute)
qed

lemma block_addrs_apart:
  assumes "x \<in> set (block_addrs bs n c)" "y \<in> set (block_addrs bs n c)" "x \<noteq> y"
  shows "x + unat bs \<le> y \<or> y + unat bs \<le> x"
proof -
  obtain i j where ij: "x = base c + i * unat bs" "y = base c + j * unat bs" "i \<noteq> j"
    using assms by (auto simp: set_block_addrs)
  then have "Suc i * unat bs \<le> j * unat bs \<or> Suc j * unat bs \<le> i * unat bs"
    by (metis Suc_leI linorder_neqE_nat mult_le_mono1)
  with ij show ?thesis by auto
qed

lemma distinct_block_addrs: "0 < unat bs \<Longrightarrow> distinct (block_addrs bs n c)"
  by (auto simp: block_addrs_def distinct_map inj_on_def)

lemma length_block_addrs [simp]: "length (block_addrs bs n c) = unat n"
  by (simp add: block_addrs_def)

lemma region_apart_sym: "region_apart c d \<Longrightarrow> region_apart d c"
  by (auto simp: region_apart_def)

text \<open>Blocks of one pool do not overlap.\<close>

lemma chunk_blocks_apart:
  assumes "region_apart c d" "x \<in> set (block_addrs bs n c)" "y \<in> set (block_addrs bs n d)"
    "unat (chunk_bytes c) = unat bs * unat n" "unat (chunk_bytes d) = unat bs * unat n"
  shows "x + unat bs \<le> y \<or> y + unat bs \<le> x"
  using assms block_addrs_inside [OF assms(2)] block_addrs_inside [OF assms(3)]
  by (auto simp: region_apart_def)

lemma sorted_wrt_pair:
  "sorted_wrt P xs \<Longrightarrow> x \<in> set xs \<Longrightarrow> y \<in> set xs \<Longrightarrow> x = y \<or> P x y \<or> P y x"
  by (induction xs) auto

lemma pool_blocks_apart:
  assumes "pool_shape p m" "x \<in> set (pool_blocks p)" "y \<in> set (pool_blocks p)" "x \<noteq> y"
  shows "x + unat (block_size p) \<le> y \<or> y + unat (block_size p) \<le> x"
proof -
  let ?B = "block_addrs (block_size p) (blocks_per_chunk p)"
  obtain c d where cd: "c \<in> set (chunks p)" "d \<in> set (chunks p)" "x \<in> set (?B c)" "y \<in> set (?B d)"
    using assms(2,3) by (auto simp: pool_blocks_def)
  then consider "c = d" | "region_apart c d" | "region_apart d c"
    using sorted_wrt_pair [of region_apart "chunks p" c d] assms(1) by (auto simp: pool_shape_def)
  then show ?thesis
  proof cases
    case 1
    with cd assms(4) block_addrs_apart show ?thesis by blast
  next
    case 2
    with cd assms(1) show ?thesis by (intro chunk_blocks_apart) (auto simp: pool_shape_def)
  next
    case 3
    then have "region_apart c d" by (rule region_apart_sym)
    with cd assms(1) show ?thesis by (intro chunk_blocks_apart) (auto simp: pool_shape_def)
  qed
qed

lemma pool_blocks_aligned:
  assumes "pool_shape p m" "x \<in> set (pool_blocks p)"
  shows "0 < x \<and> x mod 16 = 0 \<and>
    (\<exists>c \<in> set (chunks p). base c \<le> x \<and> x + unat (block_size p) \<le> base c + unat (chunk_bytes c))"
proof -
  obtain c where c: "c \<in> set (chunks p)" "x \<in> set (block_addrs (block_size p) (blocks_per_chunk p) c)"
    using assms(2) by (auto simp: pool_blocks_def)
  obtain i where i: "x = base c + i * unat (block_size p)" using c(2) by (auto simp: set_block_addrs)
  have "16 dvd base c" "16 dvd unat (block_size p)"
    using assms(1) c(1) by (auto simp: pool_shape_def mod_eq_0_iff_dvd)
  then have "16 dvd x" unfolding i by simp
  moreover have "0 < base c" "unat (chunk_bytes c) = unat (block_size p) * unat (blocks_per_chunk p)"
    using assms(1) c(1) by (auto simp: pool_shape_def)
  ultimately show ?thesis
    using c(1) block_addrs_inside [OF c(2)] by (intro conjI bexI [of _ c]) (auto simp: mod_eq_0_iff_dvd)
qed

lemma distinct_pool_blocks:
  assumes "pool_shape p m"
  shows "distinct (pool_blocks p)"
proof -
  let ?B = "block_addrs (block_size p) (blocks_per_chunk p)"
  have "distinct (concat (map ?B cs))"
    if "sorted_wrt region_apart cs" "\<forall>c \<in> set cs. unat (chunk_bytes c) = unat (block_size p) * unat (blocks_per_chunk p)" for cs
    using that
  proof (induction cs)
    case (Cons c cs)
    have "x \<notin> set (?B d)" if "x \<in> set (?B c)" "d \<in> set cs" for x d
    proof
      assume "x \<in> set (?B d)"
      with that Cons.prems have "x + unat (block_size p) \<le> x \<or> x + unat (block_size p) \<le> x"
        by (intro chunk_blocks_apart [of c d]) auto
      with assms show False by (simp add: pool_shape_def)
    qed
    with Cons assms show ?case by (auto simp: distinct_block_addrs pool_shape_def)
  qed simp
  with assms show ?thesis by (simp add: pool_blocks_def pool_shape_def)
qed

lemma length_pool_blocks: "length (pool_blocks p) = length (chunks p) * unat (blocks_per_chunk p)"
proof -
  have "length (concat (map (block_addrs bs n) cs)) = length cs * unat n" for bs n cs
    by (induction cs) auto
  then show ?thesis by (simp add: pool_blocks_def)
qed

text \<open>Carving a chunk puts its blocks in front of the free list and touches no other cell.\<close>

definition carve_addr :: "nat \<Rightarrow> u64 \<Rightarrow> nat \<Rightarrow> nat" where
  "carve_addr p bs j = p + unat (of_nat j * bs)"

lemma carve_chain:
  assumes "chain c fl xs" "distinct (map (carve_addr p bs) [i..<i + k])"
    and "\<And>j. i \<le> j \<Longrightarrow> j < i + k \<Longrightarrow> carve_addr p bs j \<noteq> 0 \<and> carve_addr p bs j \<notin> set xs"
    and "carve p bs i k (c, fl) = (c', fl')"
  shows "chain c' fl' (rev (map (carve_addr p bs) [i..<i + k]) @ xs) \<and>
    (\<forall>x. x \<notin> carve_addr p bs ` {i..<i + k} \<longrightarrow> c' x = c x)"
  using assms
proof (induction k arbitrary: i c fl xs)
  case 0
  then show ?case by simp
next
  case (Suc k)
  let ?a = "carve_addr p bs"
  have r: "[i..<i + Suc k] = i # [Suc i..<Suc i + k]" by (simp add: upt_rec)
  have eq: "carve p bs (Suc i) k (c(?a i := fl), ?a i) = (c', fl')"
    using Suc.prems(4) by (simp add: Let_def carve_addr_def)
  have ai: "?a i \<noteq> 0" "?a i \<notin> set xs" using Suc.prems(3) [of i] by auto
  have "chain (c(?a i := fl)) fl xs = chain c fl xs" using ai by (intro chain_cong) auto
  then have ch: "chain (c(?a i := fl)) (?a i) (?a i # xs)" using Suc.prems(1) ai by simp
  have dist: "?a i \<notin> ?a ` {Suc i..<Suc i + k}" "distinct (map ?a [Suc i..<Suc i + k])"
    using Suc.prems(2) unfolding r list.map distinct.simps set_map set_upt by blast+
  then have new: "?a j \<noteq> ?a i" if "Suc i \<le> j" "j < Suc i + k" for j
    using that by (metis atLeastLessThan_iff image_eqI)
  have "chain c' fl' (rev (map ?a [Suc i..<Suc i + k]) @ ?a i # xs) \<and>
      (\<forall>x. x \<notin> ?a ` {Suc i..<Suc i + k} \<longrightarrow> c' x = (c(?a i := fl)) x)"
    by (rule Suc.IH [OF ch _ _ eq]) (use Suc.prems(3) dist new in auto)
  moreover have "?a ` {i..<i + Suc k} = insert (?a i) (?a ` {Suc i..<Suc i + k})"
    by (metis r list.simps(15) set_upt image_insert)
  ultimately show ?case unfolding r by auto
qed

lemma carve_addr_nowrap:
  assumes "j \<le> unat (n :: u64)" "unat bs * unat n < 2 ^ 64"
  shows "carve_addr p bs j = p + j * unat bs"
proof -
  have jn: "j * unat bs \<le> unat bs * unat n" using assms(1) by (simp add: mult.commute)
  have "unat n < 2 ^ 64" using unsigned_less [of n] by simp
  then have "unat (of_nat j :: u64) = j" using assms(1) by (simp add: unat_of_nat)
  moreover have "j * unat bs < 2 ^ 64" using jn assms(2) by linarith
  ultimately show ?thesis by (simp add: carve_addr_def unat_word_ariths)
qed

lemma normalizeBlockSize_props:
  assumes "unat s \<le> 2 ^ 64 - 16"
  shows "unat (normalizeBlockSize s) mod 16 = 0 \<and> 16 \<le> unat (normalizeBlockSize s) \<and>
    unat s \<le> unat (normalizeBlockSize s) \<and> unat (normalizeBlockSize s) < max 16 (unat s) + 16"
proof -
  let ?s2 = "if s < kAlign then kAlign else s"
  have n: "normalizeBlockSize s = align_up ?s2"
    by (auto simp: normalizeBlockSize_def Let_def word_less_nat_alt)
  have u: "unat ?s2 = max 16 (unat s)" by (auto simp: word_less_nat_alt max_def)
  then have "unat (align_up ?s2) = (max 16 (unat s) + 15) div 16 * 16"
    using assms by (subst unat_align_up) auto
  then show ?thesis unfolding n by (auto simp: max_def)
qed

text \<open>\<open>grow\<close> on a pool whose invariant holds.\<close>

lemma free_blocks_eq:
  "chain (cells m) (free_list p) fs \<Longrightarrow> length fs \<le> length (pool_blocks p) \<Longrightarrow> free_blocks p m = fs"
  by (simp add: free_blocks_def walk_chain)

lemma distinct_subset_length: "distinct xs \<Longrightarrow> set xs \<subseteq> set ys \<Longrightarrow> length xs \<le> length ys"
  by (metis card_length card_mono distinct_card le_trans List.finite_set)

lemma aligned_bytes:
  assumes "unat bs mod 16 = 0" "unat bs * unat n \<le> 2 ^ 64 - 16"
  shows "unat (align_up (bs * n)) = unat bs * unat n"
proof -
  have u: "unat (bs * n) = unat bs * unat n" using assms(2) by (simp add: unat_word_ariths)
  have "16 dvd unat bs * unat n" using assms(1) by (simp add: mod_eq_0_iff_dvd)
  then have "(unat bs * unat n + 15) div 16 * 16 = unat bs * unat n" by (elim dvdE) simp
  then show ?thesis using assms(2) u by (subst unat_align_up) auto
qed

lemma grow_cases:
  assumes "grow aa p m = Inr (p', m')"
  shows "\<exists>a c. aa (regions m) (align_up (block_size p * blocks_per_chunk p)) = Some a \<and>
    c = \<lparr>base = a, chunk_bytes = align_up (block_size p * blocks_per_chunk p)\<rparr> \<and>
    carve a (block_size p) 0 (unat (blocks_per_chunk p)) (cells m, free_list p) = (cells m', free_list p') \<and>
    p' = p\<lparr>chunks := chunks p @ [c], capacity := capacity p + blocks_per_chunk p, free_list := free_list p'\<rparr> \<and>
    m' = m\<lparr>cells := cells m', regions := regions m @ [c]\<rparr>"
  using assms by (auto simp: grow_def Let_def split: option.splits prod.splits)

lemma carve_blocks:
  assumes fs: "chain cs fl fs" and cv: "carve a bs 0 (unat n) (cs, fl) = (cs', fl')"
    and B: "B = map (carve_addr a bs) [0..<unat n]" "distinct B" "\<And>x. x \<in> set B \<Longrightarrow> x \<noteq> 0 \<and> x \<notin> set fs"
  shows "chain cs' fl' (rev B @ fs) \<and> (\<forall>x. x \<notin> set B \<longrightarrow> cs' x = cs x)"
proof -
  have B': "B = map (carve_addr a bs) [0..<0 + unat n]" using B(1) by simp
  have "carve_addr a bs j \<noteq> 0 \<and> carve_addr a bs j \<notin> set fs" if "j < 0 + unat n" for j
    by (rule B(3)) (use that B(1) in simp)
  moreover have "set B = carve_addr a bs ` {0..<0 + unat n}" unfolding B' by (simp only: set_map set_upt)
  ultimately show ?thesis
    using carve_chain [OF fs, of a bs 0 "unat n", OF _ _ cv] B(2) unfolding B' by blast
qed

lemma grow_inv:
  assumes aa: "alloc_ok aa" and sh: "pool_shape p m" and fs: "chain (cells m) (free_list p) fs"
    and d: "distinct fs" "set fs \<subseteq> set (pool_blocks p)"
    and g: "grow aa p m = Inr (p', m')"
  obtains bs where "pool_shape p' m'" "pool_blocks p' = pool_blocks p @ bs" "length bs = unat (blocks_per_chunk p)"
    "chain (cells m') (free_list p') (rev bs @ fs)" "distinct (rev bs @ fs)" "set (rev bs @ fs) \<subseteq> set (pool_blocks p')"
    "in_use p' = in_use p" "capacity p' = capacity p + blocks_per_chunk p" "length (chunks p') = Suc (length (chunks p))"
    "block_size p' = block_size p" "blocks_per_chunk p' = blocks_per_chunk p"
    "\<And>x. x \<notin> set bs \<Longrightarrow> cells m' x = cells m x"
proof -
  let ?bs = "block_size p" and ?n = "blocks_per_chunk p"
  obtain a c where ac: "aa (regions m) (align_up (?bs * ?n)) = Some a"
      "c = \<lparr>base = a, chunk_bytes = align_up (?bs * ?n)\<rparr>"
    and cv: "carve a ?bs 0 (unat ?n) (cells m, free_list p) = (cells m', free_list p')"
    and p': "p' = p\<lparr>chunks := chunks p @ [c], capacity := capacity p + ?n, free_list := free_list p'\<rparr>"
    and m': "m' = m\<lparr>cells := cells m', regions := regions m @ [c]\<rparr>"
    using grow_cases [OF g] by blast
  have bytes: "unat (chunk_bytes c) = unat ?bs * unat ?n"
    using sh aligned_bytes [of ?bs ?n] by (simp add: ac(2) pool_shape_def)
  have new: "0 < base c" "base c mod 16 = 0" "\<forall>r \<in> set (regions m). region_apart r c"
    using aa ac by (auto simp: alloc_ok_def)
  have f: "block_size p' = ?bs" "blocks_per_chunk p' = ?n" "chunks p' = chunks p @ [c]" "regions m' = regions m @ [c]"
      "in_use p' = in_use p" "capacity p' = capacity p + ?n"
    by (subst p', simp)+ (subst m', simp, subst p', simp, subst p', simp)
  have sh': "pool_shape p' m'"
    using sh new bytes by (auto simp: pool_shape_def f sorted_wrt_append)
  let ?B = "block_addrs ?bs ?n c"
  have blocks: "pool_blocks p' = pool_blocks p @ ?B" by (simp add: pool_blocks_def f)
  have B: "?B = map (carve_addr a ?bs) [0..<unat ?n]"
    using sh by (auto simp: block_addrs_def ac(2) pool_shape_def intro!: carve_addr_nowrap [of _ ?n, symmetric])
  have dist: "distinct (pool_blocks p @ ?B)" using distinct_pool_blocks [OF sh'] by (simp add: blocks)
  have nz: "x \<noteq> 0 \<and> x \<notin> set fs" if "x \<in> set ?B" for x
    using that dist d(2) pool_blocks_aligned [OF sh', of x] by (auto simp: blocks)
  have ch: "chain (cells m') (free_list p') (rev ?B @ fs) \<and> (\<forall>x. x \<notin> set ?B \<longrightarrow> cells m' x = cells m x)"
    by (rule carve_blocks [OF fs cv B _ nz]) (use dist in simp_all)
  have ds: "distinct (rev ?B @ fs)" "set (rev ?B @ fs) \<subseteq> set (pool_blocks p')"
    using dist d nz unfolding blocks by auto
  show ?thesis
  proof (rule that [of ?B])
    show "chain (cells m') (free_list p') (rev ?B @ fs)" using ch by blast
    show "cells m' x = cells m x" if "x \<notin> set ?B" for x using ch that by blast
  qed (use sh' blocks ds f in simp_all)
qed

lemma pool_inv_free:
  assumes "pool_inv p m" "free_list p \<noteq> 0"
  shows "\<exists>fs. free_blocks p m = free_list p # fs \<and> chain (cells m) (cells m (free_list p)) fs"
  using assms chain_hd by (auto simp: pool_inv_def)

lemma pool_inv_grow:
  assumes "alloc_ok aa" "pool_inv p m" "grow aa p m = Inr (p', m')"
  shows "pool_inv p' m' \<and> used_blocks p' m' = used_blocks p m \<and>
    length (free_blocks p' m') = length (free_blocks p m) + unat (blocks_per_chunk p)"
proof -
  let ?fs = "free_blocks p m"
  have inv: "pool_shape p m" "chain (cells m) (free_list p) ?fs" "distinct ?fs" "set ?fs \<subseteq> set (pool_blocks p)"
    using assms(2) by (auto simp: pool_inv_def)
  obtain bs where bs: "pool_shape p' m'" "pool_blocks p' = pool_blocks p @ bs" "length bs = unat (blocks_per_chunk p)"
    "chain (cells m') (free_list p') (rev bs @ ?fs)" "distinct (rev bs @ ?fs)" "set (rev bs @ ?fs) \<subseteq> set (pool_blocks p')"
    "in_use p' = in_use p" "capacity p' = capacity p + blocks_per_chunk p"
    using grow_inv [OF assms(1) inv assms(3)] by metis
  have free: "free_blocks p' m' = rev bs @ ?fs"
    using bs(4) distinct_subset_length [OF bs(5,6)] by (rule free_blocks_eq)
  have "set bs \<inter> set (pool_blocks p) = {}"
    using distinct_pool_blocks [OF bs(1)] by (auto simp: bs(2))
  then have "used_blocks p' m' = used_blocks p m" by (auto simp: used_blocks_def free bs(2))
  with assms(2) bs free show ?thesis by (simp add: pool_inv_def)
qed

lemma pool_inv_take:
  assumes "pool_inv p m" "free_list p \<noteq> 0"
    and p': "p' = p\<lparr>free_list := cells m (free_list p), in_use := in_use p + 1\<rparr>"
  shows "pool_inv p' m \<and> free_blocks p m = free_list p # free_blocks p' m \<and>
    free_list p \<notin> used_blocks p m \<and> used_blocks p' m = insert (free_list p) (used_blocks p m)"
proof -
  obtain fs where fs: "free_blocks p m = free_list p # fs" "chain (cells m) (cells m (free_list p)) fs"
    using pool_inv_free [OF assms(1,2)] by blast
  have inv: "distinct (free_list p # fs)" "set (free_list p # fs) \<subseteq> set (pool_blocks p)"
      "in_use p = of_nat (length (pool_blocks p) - Suc (length fs))"
    using assms(1) by (auto simp: pool_inv_def fs(1))
  have blocks: "pool_blocks p' = pool_blocks p" by (simp add: pool_blocks_def p')
  have le: "Suc (length fs) \<le> length (pool_blocks p)" using distinct_subset_length [OF inv(1,2)] by simp
  have free: "free_blocks p' m = fs" using fs(2) le by (intro free_blocks_eq) (auto simp: blocks, simp add: p')
  have "length (pool_blocks p) - length fs = Suc (length (pool_blocks p) - Suc (length fs))" using le by simp
  then have "in_use p' = of_nat (length (pool_blocks p) - length fs)" by (simp add: inv(3) p')
  moreover have "pool_shape p' m" using assms(1) by (simp add: pool_inv_def pool_shape_def p')
  ultimately have "pool_inv p' m"
    using assms(1) fs inv by (simp add: pool_inv_def free blocks) (simp add: p')
  with fs(1) inv show ?thesis by (auto simp: free used_blocks_def blocks)
qed

lemma pool_inv_give:
  assumes "pool_inv p m" "a \<in> used_blocks p m" "pool_deallocate a p m = (p', m')"
  shows "pool_inv p' m' \<and> free_blocks p' m' = a # free_blocks p m \<and> used_blocks p' m' = used_blocks p m - {a}"
proof -
  let ?fs = "free_blocks p m"
  have inv: "pool_shape p m" "chain (cells m) (free_list p) ?fs" "distinct ?fs" "set ?fs \<subseteq> set (pool_blocks p)"
      "in_use p = of_nat (length (pool_blocks p) - length ?fs)"
    using assms(1) by (auto simp: pool_inv_def)
  have a: "a \<in> set (pool_blocks p)" "a \<notin> set ?fs" using assms(2) by (auto simp: used_blocks_def)
  then have "a \<noteq> 0" using pool_blocks_aligned [OF inv(1)] by force
  then have pm: "p' = p\<lparr>free_list := a, in_use := in_use p - 1\<rparr>" "m' = m\<lparr>cells := (cells m)(a := free_list p)\<rparr>"
    using assms(3) by (auto simp: pool_deallocate_def)
  have blocks: "pool_blocks p' = pool_blocks p" by (simp add: pool_blocks_def pm)
  have "chain ((cells m)(a := free_list p)) (free_list p) ?fs = chain (cells m) (free_list p) ?fs"
    using a(2) by (intro chain_cong) auto
  then have ch: "chain (cells m') (free_list p') (a # ?fs)" using inv(2) \<open>a \<noteq> 0\<close> by (simp add: pm)
  have dist: "distinct (a # ?fs)" "set (a # ?fs) \<subseteq> set (pool_blocks p)" using inv(3,4) a by auto
  then have le: "Suc (length ?fs) \<le> length (pool_blocks p)" using distinct_subset_length by fastforce
  have free: "free_blocks p' m' = a # ?fs" using ch le by (intro free_blocks_eq) (auto simp: blocks)
  have "length (pool_blocks p) - length ?fs = Suc (length (pool_blocks p) - Suc (length ?fs))" using le by simp
  then have "in_use p' = of_nat (length (pool_blocks p) - Suc (length ?fs))" by (simp add: pm inv(5))
  moreover have "pool_shape p' m'" using inv(1) by (simp add: pool_shape_def pm)
  ultimately have "pool_inv p' m'"
    using assms(1) ch dist by (simp add: pool_inv_def free blocks) (simp add: pm)
  with free show ?thesis by (auto simp: used_blocks_def blocks)
qed

section \<open>The contract of a block allocator\<close>

locale block_allocator =
  fixes inv :: "'s \<Rightarrow> bool"
    and used :: "'s \<Rightarrow> nat set"
    and bsize :: "'s \<Rightarrow> nat"
    and alloc :: "'s \<Rightarrow> (nat \<times> 's) option"
    and free :: "nat \<Rightarrow> 's \<Rightarrow> 's"
  assumes alloc_fresh: "inv s \<Longrightarrow> alloc s = Some (a, s') \<Longrightarrow>
      inv s' \<and> a \<notin> used s \<and> used s' = insert a (used s) \<and> bsize s' = bsize s"
    and free_used: "inv s \<Longrightarrow> a \<in> used s \<Longrightarrow>
      inv (free a s) \<and> used (free a s) = used s - {a} \<and> bsize (free a s) = bsize s"
    and used_apart: "inv s \<Longrightarrow> a \<in> used s \<Longrightarrow> b \<in> used s \<Longrightarrow> a \<noteq> b \<Longrightarrow>
      a + bsize s \<le> b \<or> b + bsize s \<le> a"
    and alloc_after_free: "inv s \<Longrightarrow> a \<in> used s \<Longrightarrow> \<exists>s'. alloc (free a s) = Some (a, s')"
begin

lemma alloc_apart:
  assumes "inv s" "alloc s = Some (a, s')" "b \<in> used s"
  shows "a + bsize s \<le> b \<or> b + bsize s \<le> a"
  using alloc_fresh [OF assms(1,2)] used_apart [of s' a b] assms(3) by auto

lemma free_alloc_restores:
  assumes "inv s" "a \<in> used s" "alloc (free a s) = Some (b, s')"
  shows "b = a \<and> inv s' \<and> used s' = used s"
proof -
  from alloc_after_free [OF assms(1,2)] assms(3) have "b = a" by auto
  with free_used [OF assms(1,2)] alloc_fresh [of "free a s" b s'] assms(2,3) show ?thesis by auto
qed

end

lemma grow_fields:
  "grow aa p m = Inr (p', m') \<Longrightarrow> block_size p' = block_size p \<and> blocks_per_chunk p' = blocks_per_chunk p \<and>
   length (chunks p') = Suc (length (chunks p))"
  by (auto simp: grow_def Let_def split: option.splits prod.splits)

lemma deallocate_fields [simp]: "block_size (fst (pool_deallocate a p m)) = block_size p"
  by (simp add: pool_deallocate_def)

lemma pool_allocate_inv:
  assumes "alloc_ok aa" "pool_inv p m" "pool_allocate aa p m = Inr (a, p', m')"
  shows "pool_inv p' m' \<and> a \<notin> used_blocks p m \<and> used_blocks p' m' = insert a (used_blocks p m) \<and>
    block_size p' = block_size p \<and> blocks_per_chunk p' = blocks_per_chunk p \<and>
    length (free_blocks p' m') + 1 = length (free_blocks p m) + (if free_list p = 0 then unat (blocks_per_chunk p) else 0) \<and>
    length (chunks p') = length (chunks p) + (if free_list p = 0 then 1 else 0) \<and>
    (free_list p \<noteq> 0 \<longrightarrow> m' = m)"
proof -
  obtain p1 m1 where g: "(if free_list p = 0 then grow aa p m else Inr (p, m)) = Inr (p1, m1)"
    and a: "a = free_list p1" and p': "p' = p1\<lparr>free_list := cells m1 (free_list p1), in_use := in_use p1 + 1\<rparr>"
    and m': "m' = m1"
    using assms(3) by (auto simp: pool_allocate_def Let_def split: sum.splits)
  have one: "pool_inv p1 m1 \<and> used_blocks p1 m1 = used_blocks p m \<and> block_size p1 = block_size p \<and>
    blocks_per_chunk p1 = blocks_per_chunk p \<and> length (free_blocks p1 m1) =
      length (free_blocks p m) + (if free_list p = 0 then unat (blocks_per_chunk p) else 0) \<and>
    length (chunks p1) = length (chunks p) + (if free_list p = 0 then 1 else 0) \<and>
    (free_list p \<noteq> 0 \<longrightarrow> m1 = m)"
  proof (cases "free_list p = 0")
    case True
    with g have "grow aa p m = Inr (p1, m1)" by simp
    with pool_inv_grow [OF assms(1,2)] grow_fields True show ?thesis by simp
  next
    case False
    with g assms(2) show ?thesis by simp
  qed
  have "free_list p1 \<noteq> 0"
  proof
    assume z: "free_list p1 = 0"
    have "free_blocks p1 m1 = []" using z one by (cases "free_blocks p1 m1") (auto simp: pool_inv_def)
    with one have "free_list p \<noteq> 0 \<or> unat (blocks_per_chunk p) = 0" by (auto split: if_splits)
    moreover have "0 < unat (blocks_per_chunk p)" using assms(2) by (simp add: pool_inv_def pool_shape_def)
    ultimately show False using g z by auto
  qed
  with one pool_inv_take [of p1 m1 p', OF _ _ p'] show ?thesis by (auto simp: a m' p')
qed

lemma pool_allocate_free:
  assumes "pool_inv p m" "free_list p \<noteq> 0"
  shows "pool_allocate aa p m = Inr (free_list p, p\<lparr>free_list := cells m (free_list p), in_use := in_use p + 1\<rparr>, m)"
  using assms by (simp add: pool_allocate_def Let_def)

definition pool_alloc_opt :: "alloc_fn \<Rightarrow> MemoryPool \<times> memory \<Rightarrow> (nat \<times> MemoryPool \<times> memory) option" where
  "pool_alloc_opt aa s = (case pool_allocate aa (fst s) (snd s) of Inl e \<Rightarrow> None | Inr r \<Rightarrow> Some r)"

interpretation pool: block_allocator
  "\<lambda>s. alloc_ok aa \<and> pool_inv (fst s) (snd s)" "\<lambda>s. used_blocks (fst s) (snd s)"
  "\<lambda>s. unat (block_size (fst s))" "pool_alloc_opt aa" "\<lambda>a s. pool_deallocate a (fst s) (snd s)"
  for aa
proof (unfold_locales, goal_cases)
  case (1 s a s')
  then show ?case
    using pool_allocate_inv [of aa "fst s" "snd s" a "fst s'" "snd s'"]
    by (auto simp: pool_alloc_opt_def split: sum.splits)
next
  case (2 s a)
  then show ?case
    using pool_inv_give [OF _ _ prod.collapse [symmetric], of "fst s" "snd s" a] by simp
next
  case (3 s a b)
  then show ?case using pool_blocks_apart [of "fst s" "snd s" a b] by (auto simp: pool_inv_def used_blocks_def)
next
  case (4 s a)
  obtain p' m' where d: "pool_deallocate a (fst s) (snd s) = (p', m')" by fastforce
  with 4 pool_inv_give [of "fst s" "snd s" a p' m']
  have "pool_inv p' m'" "free_blocks p' m' = a # free_blocks (fst s) (snd s)" by auto
  then have "free_list p' = a" "a \<noteq> 0" by (auto simp: pool_inv_def)
  with \<open>pool_inv p' m'\<close> show ?case by (simp add: d pool_alloc_opt_def pool_allocate_free)
qed

section \<open>A client of the pool\<close>

text \<open>
  What a client may do: allocate, give back a block it holds (or \<open>nullptr\<close>), and write a pointer
  anywhere inside a block it holds. The third component is the set of blocks the client holds.
\<close>

inductive pool_step :: "alloc_fn \<Rightarrow> MemoryPool \<times> memory \<times> nat set \<Rightarrow> MemoryPool \<times> memory \<times> nat set \<Rightarrow> bool"
  for aa where
  Alloc: "pool_allocate aa p m = Inr (a, p', m') \<Longrightarrow> pool_step aa (p, m, H) (p', m', insert a H)"
| Fail: "pool_allocate aa p m = Inl e \<Longrightarrow> pool_step aa (p, m, H) (p, m, H)"
| Free: "a \<in> H \<or> a = 0 \<Longrightarrow> pool_deallocate a p m = (p', m') \<Longrightarrow> pool_step aa (p, m, H) (p', m', H - {a})"
| Write: "a \<in> H \<Longrightarrow> k + 8 \<le> unat (block_size p) \<Longrightarrow>
    pool_step aa (p, m, H) (p, m\<lparr>cells := (cells m)(a + k := v)\<rparr>, H)"

inductive_cases pool_stepE: "pool_step aa s t"

definition pool_start :: "alloc_fn \<Rightarrow> u64 \<Rightarrow> u64 \<Rightarrow> MemoryPool \<times> memory \<times> nat set \<Rightarrow> bool" where
  "pool_start aa bs n s \<longleftrightarrow> (\<exists>m p m'. MemoryPool_new aa bs n m = Inr (p, m') \<and> s = (p, m', {}))"

text \<open>
  What the code does not test: that neither the rounding of the block size nor the product with the number of
  blocks exceeds \<open>size_t\<close>. The size classes of \<open>tlsPoolFor\<close> are far below.
\<close>

definition sizes_fit :: "u64 \<Rightarrow> u64 \<Rightarrow> bool" where
  "sizes_fit bs n \<longleftrightarrow> unat bs \<le> 2 ^ 64 - 16 \<and> unat (normalizeBlockSize bs) * unat (if n = 0 then 1 else n) \<le> 2 ^ 64 - 16"

definition pool_client_inv :: "alloc_fn \<Rightarrow> MemoryPool \<times> memory \<times> nat set \<Rightarrow> bool" where
  "pool_client_inv aa s \<longleftrightarrow> (case s of (p, m, H) \<Rightarrow> alloc_ok aa \<longrightarrow> pool_inv p m \<and> used_blocks p m = H)"

lemma MemoryPool_new_inv:
  assumes "alloc_ok aa" "MemoryPool_new aa bs n m = Inr (p, m')" "unat bs \<le> 2 ^ 64 - 16"
    "unat (normalizeBlockSize bs) * unat (if n = 0 then 1 else n) \<le> 2 ^ 64 - 16"
  shows "pool_inv p m' \<and> used_blocks p m' = {} \<and> in_use p = 0 \<and> block_size p = normalizeBlockSize bs \<and>
    blocks_per_chunk p = (if n = 0 then 1 else n) \<and> length (chunks p) = 1"
proof -
  let ?p = "\<lparr>block_size = normalizeBlockSize bs, blocks_per_chunk = (if n = 0 then 1 else n),
       chunks = [], free_list = 0, in_use = 0, capacity = 0\<rparr>"
  have g: "grow aa ?p m = Inr (p, m')" using assms(2) by (simp add: MemoryPool_new_def)
  have n: "0 < unat (if n = 0 then 1 else n)" by (auto simp: unat_gt_0)
  have inv: "pool_inv ?p m" and u: "used_blocks ?p m = {}"
    using normalizeBlockSize_props [OF assms(3)] assms(4) n
    by (simp_all add: pool_inv_def pool_shape_def free_blocks_def pool_blocks_def used_blocks_def)
  have "in_use p = 0" using g by (auto simp: grow_def Let_def split: option.splits prod.splits)
  with pool_inv_grow [OF assms(1) inv g] u grow_fields [OF g] show ?thesis by simp
qed

lemma pool_write_inv:
  assumes "pool_inv p m" "a \<in> used_blocks p m" "k + 8 \<le> unat (block_size p)"
    and m': "m' = m\<lparr>cells := (cells m)(a + k := v)\<rparr>"
  shows "pool_inv p m' \<and> used_blocks p m' = used_blocks p m"
proof -
  have inv: "pool_shape p m" "chain (cells m) (free_list p) (free_blocks p m)" "set (free_blocks p m) \<subseteq> set (pool_blocks p)"
      "distinct (free_blocks p m)"
    using assms(1) by (auto simp: pool_inv_def)
  have "x \<noteq> a + k" if "x \<in> set (free_blocks p m)" for x
  proof -
    have "x \<noteq> a" "a \<in> set (pool_blocks p)" using that assms(2) by (auto simp: used_blocks_def)
    with pool_blocks_apart [OF inv(1), of x a] assms(3) inv(3) that show ?thesis by auto
  qed
  then have "chain (cells m') (free_list p) (free_blocks p m)"
    using inv(2) chain_cong [of "free_blocks p m" "cells m'" "cells m" "free_list p"] by (simp add: m')
  moreover from this have "free_blocks p m' = free_blocks p m"
    using distinct_subset_length [OF inv(4,3)] by (rule free_blocks_eq)
  moreover have "pool_shape p m'" using inv(1) by (simp add: pool_shape_def m')
  ultimately show ?thesis using assms(1) by (simp add: pool_inv_def used_blocks_def)
qed

interpretation pool_client: inv_system "\<lambda>s. sizes_fit bs n \<and> pool_start aa bs n s" "pool_step aa" "pool_client_inv aa" for aa bs n
proof unfold_locales
  show "pool_client_inv aa s" if "sizes_fit bs n \<and> pool_start aa bs n s" for s
    using that MemoryPool_new_inv by (fastforce simp: pool_start_def sizes_fit_def pool_client_inv_def)
  show "pool_client_inv aa t" if st: "pool_step aa s t" and inv: "pool_client_inv aa s" for s t
    using st
  proof cases
    case (Alloc p m a p' m' H)
    with inv pool_allocate_inv [OF _ _ Alloc(3)] show ?thesis by (auto simp: pool_client_inv_def)
  next
    case (Fail p m e H)
    with inv show ?thesis by simp
  next
    case (Free a H p m p' m')
    show ?thesis
    proof (cases "a = 0")
      case True
      have "0 \<notin> used_blocks p m" if "pool_inv p m"
        using that pool_blocks_aligned [of p m 0] by (auto simp: pool_inv_def used_blocks_def)
      with True Free inv show ?thesis by (auto simp: pool_client_inv_def pool_deallocate_def)
    next
      case False
      with Free inv pool_inv_give [OF _ _ Free(4)] show ?thesis by (auto simp: pool_client_inv_def)
    qed
  next
    case (Write a H k p m v)
    with inv pool_write_inv [OF _ _ Write(4) refl] show ?thesis by (auto simp: pool_client_inv_def)
  qed
qed

section \<open>Properties\<close>

text \<open>
  C20: Whatever a client does with a pool from its construction on (allocate, give back blocks it holds
  or \<open>nullptr\<close>, write anywhere inside the blocks it holds), given an \<open>aligned_alloc\<close> that keeps its
  promise, and provided that the size of a chunk, rounded up, does not exceed \<open>size_t\<close> (\<open>sizes_fit\<close>; the code does not check it, and
  \<open>oversized_pool_overruns\<close> shows what happens then): the blocks it holds are 16-byte aligned, lie inside the pool's chunks and do not overlap
  each other, a further allocation yields a block that overlaps none of them, and \<open>in_use_\<close> is
  their number.
\<close>

theorem pool_blocks_never_overlap:
  assumes "alloc_ok aa" "sizes_fit bs n" "pool_start aa bs n s" "(pool_step aa)\<^sup>*\<^sup>* s (p, m, H)"
  shows "in_use p = of_nat (card H) \<and>
    (\<forall>a \<in> H. a mod 16 = 0 \<and> 0 < a \<and>
       (\<exists>c \<in> set (chunks p). base c \<le> a \<and> a + unat (block_size p) \<le> base c + unat (chunk_bytes c))) \<and>
    (\<forall>a \<in> H. \<forall>b \<in> H. a \<noteq> b \<longrightarrow> a + unat (block_size p) \<le> b \<or> b + unat (block_size p) \<le> a) \<and>
    (\<forall>a p' m'. pool_allocate aa p m = Inr (a, p', m') \<longrightarrow>
       a \<notin> H \<and> (\<forall>b \<in> H. a + unat (block_size p) \<le> b \<or> b + unat (block_size p) \<le> a))"
proof -
  have inv: "pool_inv p m" and H: "H = used_blocks p m"
    using pool_client.inv_reachable [of bs n aa, OF conjI [OF assms(2,3)] assms(4)] assms(1) by (auto simp: pool_client_inv_def)
  have sh: "pool_shape p m" using inv by (simp add: pool_inv_def)
  have "card H = length (pool_blocks p) - length (free_blocks p m)"
    unfolding H used_blocks_def using inv distinct_pool_blocks [OF sh]
    by (subst card_Diff_subset) (auto simp: pool_inv_def distinct_card)
  then have n: "in_use p = of_nat (card H)" using inv by (simp add: pool_inv_def)
  have sub: "a \<in> set (pool_blocks p)" if "a \<in> H" for a using that by (simp add: H used_blocks_def)
  have new: "a \<notin> H \<and> (\<forall>b \<in> H. a + unat (block_size p) \<le> b \<or> b + unat (block_size p) \<le> a)"
    if "pool_allocate aa p m = Inr (a, p', m')" for a p' m'
    using pool.alloc_apart [of aa "(p, m)" a "(p', m')"] pool_allocate_inv [OF assms(1) inv that] that assms(1) inv
    by (auto simp: H pool_alloc_opt_def)
  show ?thesis
  proof (intro conjI)
    show "\<forall>a \<in> H. a mod 16 = 0 \<and> 0 < a \<and>
       (\<exists>c \<in> set (chunks p). base c \<le> a \<and> a + unat (block_size p) \<le> base c + unat (chunk_bytes c))"
      using pool_blocks_aligned [OF sh sub] by blast
    show "\<forall>a \<in> H. \<forall>b \<in> H. a \<noteq> b \<longrightarrow> a + unat (block_size p) \<le> b \<or> b + unat (block_size p) \<le> a"
      using pool_blocks_apart [OF sh sub sub] by blast
  qed (use n new in blast)+
qed

text \<open>A bump allocator, an \<open>aligned_alloc\<close> that meets the promise.\<close>

fun region_end :: "Chunk list \<Rightarrow> nat" where
  "region_end [] = 16"
| "region_end (r # rs) = max (base r + unat (chunk_bytes r)) (region_end rs)"

definition bump_alloc :: alloc_fn where
  "bump_alloc rs bytes =
     (let a = (region_end rs + 15) div 16 * 16 in if a + unat bytes \<le> 2 ^ 64 then Some a else None)"

lemma region_end_ge: "16 \<le> region_end rs" "r \<in> set rs \<Longrightarrow> base r + unat (chunk_bytes r) \<le> region_end rs"
  by (induction rs) auto

lemma bump_alloc_ok: "alloc_ok bump_alloc"
  unfolding alloc_ok_def
proof (intro allI impI)
  fix rs bytes a
  assume "bump_alloc rs bytes = Some a"
  then have a: "a = (region_end rs + 15) div 16 * 16" "a + unat bytes \<le> 2 ^ 64"
    by (auto simp: bump_alloc_def Let_def split: if_splits)
  have "region_end rs \<le> a" unfolding a(1) by linarith
  with region_end_ge(1) [of rs] region_end_ge(2) [of _ rs] have "0 < a" "\<forall>r \<in> set rs. region_apart r \<lparr>base = a, chunk_bytes = bytes\<rparr>"
    by (auto simp: region_apart_def intro: order_trans)
  with a show "0 < a \<and> a mod 16 = 0 \<and> a + unat bytes \<le> 2 ^ 64 \<and>
      (\<forall>r \<in> set rs. region_apart r \<lparr>base = a, chunk_bytes = bytes\<rparr>)" by simp
qed

definition pool2 :: "pool_error + (MemoryPool \<times> memory)" where
  "pool2 = MemoryPool_new bump_alloc 24 2 \<lparr>cells = (\<lambda>_. 0), regions = []\<rparr>"

lemma normalize_24: "normalizeBlockSize 24 = 32"
  by (simp add: normalizeBlockSize_def align_up_def)

lemma carve_2: "carve p bs i 2 s = carve p bs i (Suc (Suc 0)) s"
  by (simp only: numeral_2_eq_2)

lemma pool2_eq:
  "pool2 = Inr (\<lparr>block_size = 32, blocks_per_chunk = 2, chunks = [\<lparr>base = 16, chunk_bytes = 64\<rparr>],
       free_list = 48, in_use = 0, capacity = 2\<rparr>,
     \<lparr>cells = (\<lambda>_. 0)(16 := 0, 48 := 16), regions = [\<lparr>base = 16, chunk_bytes = 64\<rparr>]\<rparr>)"
  by (simp add: pool2_def MemoryPool_new_def normalize_24 grow_def bump_alloc_def Let_def align_up_def
      carve_2 del: fun_upd_apply)

lemma pool2_start: "pool2 = Inr (p, m) \<Longrightarrow> pool_start bump_alloc 24 2 (p, m, {})"
  unfolding pool_start_def pool2_def
  by (intro exI [of _ "\<lparr>cells = (\<lambda>_. 0), regions = []\<rparr>"]) simp

theorem pool_blocks_never_overlap_witness:
  "\<exists>p m p' m' a. pool2 = Inr (p, m) \<and> pool_allocate bump_alloc p m = Inr (a, p', m') \<and> in_use p' = 1 \<and> a mod 16 = 0"
proof -
  obtain p m where pm: "pool2 = Inr (p, m)" using pool2_eq by blast
  obtain a p' m' where al: "pool_allocate bump_alloc p m = Inr (a, p', m')"
    using pm unfolding pool2_eq by (auto simp: pool_allocate_def Let_def)
  have "(pool_step bump_alloc)\<^sup>*\<^sup>* (p, m, {}) (p', m', insert a {})"
    using pool_step.Alloc [OF al] by blast
  moreover have "sizes_fit 24 2" by (simp add: sizes_fit_def normalize_24)
  moreover note pool2_start [OF pm]
  ultimately have "in_use p' = of_nat (card (insert a {})) \<and> a mod 16 = 0"
    using pool_blocks_never_overlap [OF bump_alloc_ok, of 24 2 "(p, m, {})" p' m' "insert a {}"] by blast
  then have "in_use p' = 1 \<and> a mod 16 = 0" by simp
  then show ?thesis by (intro exI conjI) (rule pm, rule al, simp_all)
qed

text \<open>
  A pool whose chunk size wraps: for two blocks of \<open>2 ^ 63 + 16\<close> bytes \<open>grow\<close> asks for 32 bytes, and the first
  block that is handed out lies far behind the chunk.
\<close>

lemma oversized_pool_overruns:
  "case MemoryPool_new bump_alloc (2 ^ 63 + 16) 2 \<lparr>cells = (\<lambda>_. 0), regions = []\<rparr> of Inl e \<Rightarrow> False
   | Inr (p, m) \<Rightarrow> chunks p = [\<lparr>base = 16, chunk_bytes = 32\<rparr>] \<and>
      (case pool_allocate bump_alloc p m of Inl e \<Rightarrow> False | Inr (a, p', m') \<Rightarrow> a = 16 + 2 ^ 63 + 16)"
  by (simp add: MemoryPool_new_def normalizeBlockSize_def grow_def bump_alloc_def Let_def align_up_def carve_2 pool_allocate_def
      del: fun_upd_apply)

text \<open>
  Allocation takes the most recently freed block: after giving back a block the next allocation
  returns that block, asks the system for nothing, and leaves the pool as it was before.
\<close>

lemma pool_reuses_last_freed:
  assumes "pool_inv p m" "a \<in> used_blocks p m" "pool_deallocate a p m = (p', m')"
  shows "\<exists>p''. pool_allocate aa p' m' = Inr (a, p'', m') \<and> p'' = p \<and> regions m' = regions m \<and>
    in_use p' + 1 = in_use p \<and> used_blocks p'' m' = used_blocks p m"
proof -
  have inv: "pool_inv p' m'" "free_blocks p' m' = a # free_blocks p m" "used_blocks p' m' = used_blocks p m - {a}"
    using pool_inv_give [OF assms] by auto
  then have a: "free_list p' = a" "a \<noteq> 0" by (auto simp: pool_inv_def)
  with assms(3) have pm: "p' = p\<lparr>free_list := a, in_use := in_use p - 1\<rparr>" "m' = m\<lparr>cells := (cells m)(a := free_list p)\<rparr>"
    by (auto simp: pool_deallocate_def)
  have pp: "p = p'\<lparr>free_list := cells m' (free_list p'), in_use := in_use p' + 1\<rparr>" by (simp add: pm)
  have al: "pool_allocate aa p' m' = Inr (a, p, m')"
    using pool_allocate_free [OF inv(1), of aa] a unfolding pp [symmetric] by simp
  have "used_blocks p m' = insert a (used_blocks p' m')"
    using pool_inv_take [OF inv(1) _ pp] a by blast
  then have "used_blocks p m' = used_blocks p m" using inv(3) assms(2) by auto
  moreover have "regions m' = regions m" "in_use p' + 1 = in_use p" by (simp_all add: pm)
  ultimately show ?thesis using al by blast
qed

text \<open>\<open>k\<close> allocations in a row.\<close>

fun alloc_many :: "alloc_fn \<Rightarrow> nat \<Rightarrow> MemoryPool \<Rightarrow> memory \<Rightarrow> pool_error + (nat list \<times> MemoryPool \<times> memory)" where
  "alloc_many aa 0 p m = Inr ([], p, m)"
| "alloc_many aa (Suc k) p m =
     (case alloc_many aa k p m of
        Inl e \<Rightarrow> Inl e
      | Inr (as, p, m) \<Rightarrow>
          (case pool_allocate aa p m of Inl e \<Rightarrow> Inl e | Inr (a, p, m) \<Rightarrow> Inr (as @ [a], p, m)))"

lemma ceil_div_step:
  assumes "0 < (n::nat)" "c = max 1 ((k + n - 1) div n)"
  shows "c + (if k = c * n then 1 else 0) = max 1 ((Suc k + n - 1) div n)"
proof (cases k)
  case 0
  with assms show ?thesis by auto
next
  case (Suc j)
  then have c: "c = Suc (j div n)" using assms by (simp add: div_add_self2)
  have d: "Suc (j + n) div n = Suc (Suc j div n)"
    using div_add_self2 [of n "Suc j"] assms(1) by simp
  show ?thesis
  proof (cases "Suc j mod n = 0")
    case True
    then have "Suc j div n = c" by (simp add: div_Suc c)
    with True have "Suc j = c * n" by auto
    moreover have "Suc (j + n) div n = Suc c" using d \<open>Suc j div n = c\<close> by simp
    ultimately show ?thesis unfolding Suc using assms(1) by simp
  next
    case False
    then have "Suc j \<noteq> c * n" "Suc j div n = j div n" by (auto simp: div_Suc)
    then show ?thesis by (simp add: Suc c d)
  qed
qed

lemma alloc_many_inv:
  assumes "alloc_ok aa" "pool_inv p m" "used_blocks p m = {}" "length (chunks p) = 1"
    "alloc_many aa k p m = Inr (as, p', m')"
  shows "pool_inv p' m' \<and> used_blocks p' m' = set as \<and> distinct as \<and> length as = k \<and>
    blocks_per_chunk p' = blocks_per_chunk p \<and>
    length (chunks p') = max 1 ((k + unat (blocks_per_chunk p) - 1) div unat (blocks_per_chunk p))"
  using assms(5)
proof (induction k arbitrary: as p' m')
  case 0
  have "0 < unat (blocks_per_chunk p)" using assms(2) by (simp add: pool_inv_def pool_shape_def)
  with 0 assms show ?case by auto
next
  case (Suc k)
  let ?n = "unat (blocks_per_chunk p)"
  have n: "0 < ?n" using assms(2) by (simp add: pool_inv_def pool_shape_def)
  obtain as1 p1 m1 a where r: "alloc_many aa k p m = Inr (as1, p1, m1)" "pool_allocate aa p1 m1 = Inr (a, p', m')" "as = as1 @ [a]"
    using Suc.prems by (auto split: sum.splits)
  note IH = Suc.IH [OF r(1)]
  have al: "pool_inv p' m' \<and> a \<notin> used_blocks p1 m1 \<and> used_blocks p' m' = insert a (used_blocks p1 m1) \<and>
      blocks_per_chunk p' = blocks_per_chunk p \<and>
      length (chunks p') = length (chunks p1) + (if free_list p1 = 0 then 1 else 0)"
    using pool_allocate_inv [OF assms(1) _ r(2)] IH by simp
  have len: "length (free_blocks p1 m1) + k = length (chunks p1) * ?n"
  proof -
    have inv: "pool_inv p1 m1" using IH by simp
    then have "set (free_blocks p1 m1) \<subseteq> set (pool_blocks p1)" "distinct (free_blocks p1 m1)" "distinct (pool_blocks p1)"
      using distinct_pool_blocks by (auto simp: pool_inv_def)
    then have "card (used_blocks p1 m1) + length (free_blocks p1 m1) = length (pool_blocks p1)"
      using distinct_subset_length [of "free_blocks p1 m1" "pool_blocks p1"]
      by (simp add: used_blocks_def card_Diff_subset distinct_card)
    with IH show ?thesis by (simp add: distinct_card length_pool_blocks)
  qed
  have "free_list p1 = 0 \<longleftrightarrow> free_blocks p1 m1 = []"
    using IH by (cases "free_blocks p1 m1") (auto simp: pool_inv_def)
  then have full: "free_list p1 = 0 \<longleftrightarrow> k = length (chunks p1) * ?n" using len by auto
  have "length (chunks p1) + (if free_list p1 = 0 then 1 else 0) = max 1 ((Suc k + ?n - 1) div ?n)"
    using ceil_div_step [OF n, of "length (chunks p1)" k] IH full by simp
  with IH al r(3) show ?case by auto
qed

text \<open>
  A pool asks the system for memory only when it has to: after \<open>k\<close> allocations in a row from a new
  pool of \<open>n\<close> blocks per chunk the blocks are all different and exactly \<open>k / n\<close> chunks, rounded up and
  at least the one of the constructor, have been requested.
\<close>

lemma pool_chunks_on_demand:
  assumes "alloc_ok aa" "MemoryPool_new aa bs n m = Inr (p, m1)" "0 < n" "unat bs \<le> 2 ^ 64 - 16"
    "unat (normalizeBlockSize bs) * unat n \<le> 2 ^ 64 - 16" "alloc_many aa k p m1 = Inr (as, p', m')"
  shows "distinct as \<and> length as = k \<and> length (chunks p') = max 1 ((k + unat n - 1) div unat n)"
proof -
  have "n \<noteq> 0" using assms(3) by auto
  with MemoryPool_new_inv [OF assms(1,2,4)] assms(5)
  have "pool_inv p m1" "used_blocks p m1 = {}" "length (chunks p) = 1" "blocks_per_chunk p = n" by auto
  with alloc_many_inv [OF assms(1) _ _ _ assms(6)] show ?thesis by auto
qed

lemma pool_chunks_on_demand_witness:
  "\<exists>p m as p' m'. pool2 = Inr (p, m) \<and> alloc_many bump_alloc 1 p m = Inr (as, p', m') \<and> length (chunks p') = 1"
proof -
  obtain p m where pm: "pool2 = Inr (p, m)" using pool2_eq by blast
  obtain as p' m' where al: "alloc_many bump_alloc 1 p m = Inr (as, p', m')"
    using pm unfolding pool2_eq by (auto simp: pool_allocate_def Let_def)
  have "length (chunks p') = 1"
    using pool_chunks_on_demand [OF bump_alloc_ok pm [unfolded pool2_def] _ _ _ al] by (simp add: normalize_24)
  then show ?thesis by (intro exI conjI) (rule pm, rule al)
qed

text \<open>
  Allocation from a pool whose invariant holds fails only when no block is free and the system
  has no memory for another chunk.
\<close>

lemma pool_allocate_fails_iff:
  assumes "pool_inv p m"
  shows "pool_allocate aa p m = Inl bad_alloc \<longleftrightarrow>
    used_blocks p m = set (pool_blocks p) \<and> aa (regions m) (align_up (block_size p * blocks_per_chunk p)) = None"
proof -
  have "set (free_blocks p m) \<subseteq> set (pool_blocks p)" using assms by (simp add: pool_inv_def)
  then have "used_blocks p m = set (pool_blocks p) \<longleftrightarrow> free_blocks p m = []"
    unfolding used_blocks_def by (cases "free_blocks p m") auto
  moreover have "free_blocks p m = [] \<longleftrightarrow> free_list p = 0"
    using assms by (cases "free_blocks p m") (auto simp: pool_inv_def)
  ultimately show ?thesis
    by (auto simp: pool_allocate_def grow_def Let_def split: option.splits prod.splits)
qed

text \<open>
  Block sizes are rounded up to the next multiple of 16, at least 16, for every request up to
  \<open>2 ^ 64 - 16\<close> bytes; beyond that the 64-bit addition wraps and the block size becomes 0.
\<close>

lemma normalizeBlockSize_exact:
  "normalizeBlockSize s =
     (if unat s \<le> 2 ^ 64 - 16 then of_nat ((max 16 (unat s) + 15) div 16 * 16) else 0)"
proof -
  let ?s2 = "if s < kAlign then kAlign else s"
  have n: "normalizeBlockSize s = align_up ?s2"
    by (auto simp: normalizeBlockSize_def Let_def word_less_nat_alt)
  have u: "unat ?s2 = max 16 (unat s)" by (auto simp: word_less_nat_alt max_def)
  show ?thesis
  proof (cases "unat s \<le> 2 ^ 64 - 16")
    case True
    then have "unat (align_up ?s2) = (max 16 (unat s) + 15) div 16 * 16"
      using u by (subst unat_align_up) auto
    then have "align_up ?s2 = of_nat ((max 16 (unat s) + 15) div 16 * 16)"
      by (metis of_nat_unat ucast_id)
    then show ?thesis using True unfolding n by simp
  next
    case False
    then have "2 ^ 64 - 16 < unat ?s2" unfolding u by simp
    then have "align_up ?s2 = 0" by (rule align_up_wraps)
    with False show ?thesis unfolding n by simp
  qed
qed

lemma first_index_Some:
  "first_index P xs = Some i \<Longrightarrow> i < length xs \<and> P (xs ! i) \<and> (\<forall>j < i. \<not> P (xs ! j))"
proof (induction xs arbitrary: i)
  case (Cons x xs)
  then show ?case by (cases i) (auto split: if_splits simp: nth_Cons split: nat.split)
qed simp

lemma first_index_None: "first_index P xs = None \<longleftrightarrow> (\<forall>x \<in> set xs. \<not> P x)"
  by (induction xs) auto

text \<open>The pools of a thread: class pools have their class's block size, the others are larger.\<close>

definition tls_ok :: "tls_pools \<Rightarrow> bool" where
  "tls_ok t \<longleftrightarrow> length (t_pools t) = kNumClasses \<and>
     (\<forall>i < kNumClasses. \<forall>p. t_pools t ! i = Some p \<longrightarrow> block_size p = kClasses ! i) \<and>
     (\<forall>p \<in> set (t_big_pools t). 4096 < block_size p) \<and> distinct (map block_size (t_big_pools t))"

lemma tls_new_ok: "tls_ok tls_new"
  by (simp add: tls_ok_def tls_new_def)

lemma kClasses_normal: "\<forall>c \<in> set kClasses. normalizeBlockSize c = c \<and> c \<le> 4096 \<and> unat c mod 16 = 0"
  by (simp add: kClasses_def normalizeBlockSize_def align_up_def)

lemma kClasses_sorted: "sorted kClasses"
  by (simp add: kClasses_def)

lemma new_block_size: "MemoryPool_new aa bs n m = Inr (p, m') \<Longrightarrow> block_size p = normalizeBlockSize bs"
  by (auto simp: MemoryPool_new_def dest: grow_fields)

lemma normalizeBlockSize_idem:
  assumes "unat s \<le> 2 ^ 64 - 16"
  shows "normalizeBlockSize (normalizeBlockSize s) = normalizeBlockSize s"
proof -
  let ?n = "normalizeBlockSize s"
  note p = normalizeBlockSize_props [OF assms]
  obtain k where k: "unat ?n = 16 * k" using p by (auto simp: mod_eq_0_iff_dvd elim: dvdE)
  have "unat ?n < 2 ^ 64" using unsigned_less [of ?n] by simp
  then have "unat ?n \<le> 2 ^ 64 - 16" unfolding k by simp
  then have q: "unat (normalizeBlockSize ?n) mod 16 = 0" "unat ?n \<le> unat (normalizeBlockSize ?n)"
      "unat (normalizeBlockSize ?n) < unat ?n + 16"
    using normalizeBlockSize_props [of ?n] p by auto
  obtain j where "unat (normalizeBlockSize ?n) = 16 * j" using q(1) by (auto simp: mod_eq_0_iff_dvd elim: dvdE)
  with q(2,3) k have "unat (normalizeBlockSize ?n) = unat ?n" by simp
  then show ?thesis by (simp only: word_unat_eq_iff)
qed

text \<open>Looking up a pool again finds it without changing anything.\<close>

lemma tlsPoolFor_small:
  assumes "tls_ok t" "first_index (\<lambda>c. bs \<le> c) kClasses = Some i" "tlsPoolFor aa bs t m = Inr (r, t', m')"
  shows "r = PClass i \<and> tls_ok t' \<and> block_size (pool_at t' r) = kClasses ! i \<and> tlsPoolFor aa bs t' m2 = Inr (r, t', m2)"
proof -
  have i: "i < kNumClasses" using first_index_Some [OF assms(2)] by (simp add: kNumClasses_def)
  then have k: "normalizeBlockSize (kClasses ! i) = kClasses ! i" using kClasses_normal by (simp add: kNumClasses_def)
  have len: "length (t_pools t) = kNumClasses" using assms(1) by (simp add: tls_ok_def)
  show ?thesis
  proof (cases "t_pools t ! i")
    case (Some p)
    with assms i show ?thesis by (auto simp: tlsPoolFor_def tls_ok_def)
  next
    case None
    with assms(2,3) obtain p where p: "MemoryPool_new aa (kClasses ! i) 512 m = Inr (p, m')"
        "t' = t\<lparr>t_pools := (t_pools t)[i := Some p]\<rparr>" "r = PClass i"
      by (auto simp: tlsPoolFor_def split: sum.splits)
    have "block_size p = kClasses ! i" using new_block_size [OF p(1)] k by simp
    then have "tls_ok t'" using assms(1) i by (auto simp: tls_ok_def p(2) nth_list_update)
    with \<open>block_size p = kClasses ! i\<close> show ?thesis
      using i len assms(2) by (simp add: p(2,3) tlsPoolFor_def)
  qed
qed

lemma first_index_append_None:
  "first_index P xs = None \<Longrightarrow> P y \<Longrightarrow> first_index P (xs @ [y]) = Some (length xs)"
  by (induction xs) (auto split: if_splits)

lemma tlsPoolFor_big:
  assumes "tls_ok t" "first_index (\<lambda>c. bs \<le> c) kClasses = None" "unat bs \<le> 2 ^ 64 - 16" "tlsPoolFor aa bs t m = Inr (r, t', m')"
  shows "tls_ok t' \<and> block_size (pool_at t' r) = normalizeBlockSize bs \<and> tlsPoolFor aa bs t' m2 = Inr (r, t', m2)"
proof -
  let ?r = "normalizeBlockSize bs"
  have "4096 < bs" using assms(2) unfolding first_index_None by (simp add: kClasses_def not_le)
  then have big: "4096 < ?r"
    using normalizeBlockSize_props [OF assms(3)] by (simp add: word_less_nat_alt)
  have idem: "normalizeBlockSize ?r = ?r"
    by (rule normalizeBlockSize_idem [OF assms(3)])
  show ?thesis
  proof (cases "first_index (\<lambda>p. block_size p = ?r) (t_big_pools t)")
    case (Some j)
    with assms first_index_Some [OF Some] show ?thesis by (auto simp: tlsPoolFor_def)
  next
    case None
    with assms(2,4) obtain p where p: "MemoryPool_new aa ?r 16 m = Inr (p, m')"
        "t' = t\<lparr>t_big_pools := t_big_pools t @ [p]\<rparr>" "r = PBig (length (t_big_pools t))"
      by (auto simp: tlsPoolFor_def Let_def split: sum.splits)
    have bs: "block_size p = ?r" using new_block_size [OF p(1)] idem by simp
    have "tls_ok t'" using assms(1) None big by (auto simp: tls_ok_def p(2) bs first_index_None)
    with None assms(2) bs show ?thesis by (simp add: p(2,3) tlsPoolFor_def first_index_append_None)
  qed
qed

text \<open>
  \<open>tlsPoolFor\<close> returns a pool whose blocks are large enough and a multiple of 16 bytes: the smallest
  of the nine size classes that fits, or beyond 4096 bytes a pool of the rounded size. Asking again
  for the same size finds the same pool and changes nothing, so a block is given back to the pool it
  came from.
\<close>

lemma tlsPoolFor_fits:
  assumes "tls_ok t" "unat bs \<le> 2 ^ 64 - 16" "tlsPoolFor aa bs t m = Inr (r, t', m')"
  shows "tls_ok t' \<and> bs \<le> block_size (pool_at t' r) \<and> unat (block_size (pool_at t' r)) mod 16 = 0 \<and>
    (\<forall>c \<in> set kClasses. bs \<le> c \<longrightarrow> block_size (pool_at t' r) \<le> c) \<and>
    (4096 < bs \<longrightarrow> unat (block_size (pool_at t' r)) < unat bs + 16) \<and>
    (\<forall>m2. tlsPoolFor aa bs t' m2 = Inr (r, t', m2))"
proof (cases "first_index (\<lambda>c. bs \<le> c) kClasses")
  case (Some i)
  note f = first_index_Some [OF Some]
  have s: "block_size (pool_at t' r) = kClasses ! i" "tls_ok t'" "\<forall>m2. tlsPoolFor aa bs t' m2 = Inr (r, t', m2)"
    using tlsPoolFor_small [OF assms(1) Some assms(3)] by blast+
  have c: "kClasses ! i \<in> set kClasses" using f by simp
  then have "kClasses ! i \<le> 4096" "unat (kClasses ! i) mod 16 = 0" using kClasses_normal by auto
  moreover have "kClasses ! i \<le> c" if c: "c \<in> set kClasses" "bs \<le> c" for c
  proof -
    obtain j where j: "j < length kClasses" "c = kClasses ! j" using c(1) by (metis in_set_conv_nth)
    with f c(2) have "i \<le> j" by (metis not_le)
    with j kClasses_sorted show ?thesis by (simp add: sorted_nth_mono)
  qed
  moreover have "bs \<le> 4096" using f calculation(1) by (meson order_trans)
  ultimately show ?thesis using f s by (auto simp only: s(1) not_le [symmetric])
next
  case None
  have "4096 < bs" using None unfolding first_index_None by (simp add: kClasses_def not_le)
  moreover have "\<not> bs \<le> c" if "c \<in> set kClasses" for c using None that by (simp add: first_index_None)
  ultimately show ?thesis
    using tlsPoolFor_big [OF assms(1) None assms(2,3)] normalizeBlockSize_props [OF assms(2)]
    by (auto simp: word_le_nat_alt word_less_nat_alt)
qed

lemma tlsPoolFor_fits_witness:
  "\<exists>r t m. tlsPoolFor bump_alloc 5000 tls_new \<lparr>cells = (\<lambda>_. 0), regions = []\<rparr> = Inr (r, t, m) \<and>
     5000 \<le> block_size (pool_at t r)"
proof -
  have "\<exists>p m'. MemoryPool_new bump_alloc 5008 16 \<lparr>cells = (\<lambda>_. 0), regions = []\<rparr> = Inr (p, m')"
    by (simp add: MemoryPool_new_def grow_def bump_alloc_def Let_def normalizeBlockSize_def align_up_def split: prod.split)
  moreover have "normalizeBlockSize 5000 = 5008" by (simp add: normalizeBlockSize_def align_up_def)
  ultimately obtain r t m where r: "tlsPoolFor bump_alloc 5000 tls_new \<lparr>cells = (\<lambda>_. 0), regions = []\<rparr> = Inr (r, t, m)"
    by (auto simp: tlsPoolFor_def kClasses_def tls_new_def)
  with tlsPoolFor_fits [OF tls_new_ok _ r] show ?thesis by auto
qed

end
