(* ===== verification/Sys.thy ===== *)
theory Sys
  imports WS_Prelude
begin

text \<open>
  The operating system as the server sees it. The kernel is not part of the repository: what it
  answers is an argument of the definitions that call it. A socket's receive side is a script of
  what successive \<open>readv\<close> calls find (\<open>rx\<close>), its send side a script of how much successive
  \<open>write\<close> calls accept (\<open>tx\<close>), what \<open>epoll_wait\<close> reports a script of \<open>ep_answer\<close>. An exhausted
  receive script answers EAGAIN, an exhausted send script accepts everything, an exhausted event
  script is a timeout. The steady clock is a value and a script of how far it advances at each
  reading, so it never runs backwards. The interest list of an epoll instance and the counter of an
  eventfd follow their manual pages.
\<close>

section \<open>Error numbers\<close>

text \<open>On Linux \<open>EWOULDBLOCK\<close> is the same number as \<open>EAGAIN\<close>.\<close>

datatype errno = EAGAIN | EINTR | EMFILE | ENFILE | EOther nat

abbreviation EWOULDBLOCK :: errno where "EWOULDBLOCK \<equiv> EAGAIN"

section \<open>readv, write\<close>

datatype rx = Rx bytes | RxEof | RxErr errno

fun readv :: "nat \<Rightarrow> rx list \<Rightarrow> (errno + bytes) \<times> rx list" where
  "readv cap [] = (Inl EAGAIN, [])"
| "readv cap (RxEof # s) = (Inr [], RxEof # s)"
| "readv cap (RxErr e # s) = (Inl e, s)"
| "readv cap (Rx bs # s) =
     (if bs = [] then readv cap s
      else (Inr (take cap bs), if length bs \<le> cap then s else Rx (drop cap bs) # s))"

datatype tx = TxAccept nat | TxErr errno

fun sys_write :: "bytes \<Rightarrow> tx list \<Rightarrow> (errno + nat) \<times> tx list" where
  "sys_write d [] = (Inr (length d), [])"
| "sys_write d (TxAccept n # s) = (Inr (min n (length d)), s)"
| "sys_write d (TxErr e # s) = (Inl e, s)"

text \<open>What a receive script still holds, and the bytes it delivers before it ends or fails.\<close>

fun rx_size :: "rx list \<Rightarrow> nat" where
  "rx_size [] = 0"
| "rx_size (Rx bs # s) = Suc (length bs) + rx_size s"
| "rx_size (RxEof # s) = Suc (rx_size s)"
| "rx_size (RxErr e # s) = Suc (rx_size s)"

lemma readv_length: "readv cap s = (Inr d, s') \<Longrightarrow> length d \<le> cap"
  by (induction cap s rule: readv.induct) (auto split: if_splits)

lemma readv_progress:
  "readv cap s = (Inr d, s') \<Longrightarrow> d \<noteq> [] \<Longrightarrow> rx_size s' < rx_size s"
  by (induction cap s rule: readv.induct) (auto split: if_splits)

lemma readv_error_progress:
  "readv cap s = (Inl e, s') \<Longrightarrow> e \<noteq> EAGAIN \<Longrightarrow> rx_size s' < rx_size s"
  by (induction cap s rule: readv.induct) (auto split: if_splits)

section \<open>The steady clock\<close>

record clock =
  clk_now :: int
  clk_ticks :: "nat list"

definition clk_read :: "clock \<Rightarrow> int \<times> clock" where
  "clk_read c = (clk_now c,
     (case clk_ticks c of [] \<Rightarrow> c
      | d # ds \<Rightarrow> c\<lparr>clk_now := clk_now c + int d, clk_ticks := ds\<rparr>))"

lemma clk_read_mono: "clk_read c = (t, c') \<Longrightarrow> t = clk_now c \<and> clk_now c \<le> clk_now c'"
  by (auto simp: clk_read_def split: list.splits)

section \<open>epoll\<close>

abbreviation EPOLLIN :: u32 where "EPOLLIN \<equiv> 0x001"
abbreviation EPOLLOUT :: u32 where "EPOLLOUT \<equiv> 0x004"
abbreviation EPOLLERR :: u32 where "EPOLLERR \<equiv> 0x008"
abbreviation EPOLLHUP :: u32 where "EPOLLHUP \<equiv> 0x010"
abbreviation EPOLLRDHUP :: u32 where "EPOLLRDHUP \<equiv> 0x2000"
abbreviation EPOLLET :: u32 where "EPOLLET \<equiv> 0x80000000"

datatype epoll_op = EPOLL_CTL_ADD | EPOLL_CTL_MOD | EPOLL_CTL_DEL

text \<open>\<open>epoll_ctl\<close>: adding twice fails with EEXIST, changing or removing what is not there with ENOENT.\<close>

fun epoll_ctl :: "epoll_op \<Rightarrow> int \<Rightarrow> u32 \<Rightarrow> (int \<rightharpoonup> u32) \<Rightarrow> bool \<times> (int \<rightharpoonup> u32)" where
  "epoll_ctl EPOLL_CTL_ADD fd ev I = (if I fd = None then (True, I(fd \<mapsto> ev)) else (False, I))"
| "epoll_ctl EPOLL_CTL_MOD fd ev I = (if I fd = None then (False, I) else (True, I(fd \<mapsto> ev)))"
| "epoll_ctl EPOLL_CTL_DEL fd ev I = (if I fd = None then (False, I) else (True, I(fd := None)))"

datatype ep_answer = EpEvents "(int \<times> u32) list" | EpErr errno

fun epoll_wait :: "nat \<Rightarrow> ep_answer list \<Rightarrow> (errno + (int \<times> u32) list) \<times> ep_answer list" where
  "epoll_wait maxev [] = (Inr [], [])"
| "epoll_wait maxev (EpEvents evs # s) = (Inr (take maxev evs), s)"
| "epoll_wait maxev (EpErr e # s) = (Inl e, s)"

section \<open>eventfd\<close>

text \<open>
  A non-blocking eventfd: \<open>write\<close> adds to the counter unless the sum would exceed \<open>2 ^ 64 - 2\<close>,
  \<open>read\<close> returns the counter and clears it, and fails with EAGAIN when it is 0.
\<close>

definition eventfd_write :: "u64 \<Rightarrow> u64 \<Rightarrow> u64" where
  "eventfd_write v n = (if unat n + unat v \<le> 2 ^ 64 - 2 then n + v else n)"

definition eventfd_read :: "u64 \<Rightarrow> u64 option \<times> u64" where
  "eventfd_read n = (if n = 0 then (None, 0) else (Some n, 0))"

section \<open>Formatted output\<close>

text \<open>
  \<open>snprintf\<close> into a buffer of \<open>n\<close> bytes keeps at most \<open>n - 1\<close> characters; what the format and its arguments
  would print without a limit is the second argument. The conversions that the server uses are
  \<open>%0nd\<close> (padded with zeros) and \<open>%-ns\<close> (padded with spaces on the right), besides the plain ones.
\<close>

definition snprintf :: "nat \<Rightarrow> string \<Rightarrow> string" where
  "snprintf n s = take (n - 1) s"

definition pf_zeros :: "nat \<Rightarrow> int \<Rightarrow> string" where
  "pf_zeros w i = (let s = int_to_string \<bar>i\<bar>; sg = (if i < 0 then ''-'' else [])
     in sg @ replicate (w - length sg - length s) (CHR ''0'') @ s)"

definition pf_left :: "nat \<Rightarrow> string \<Rightarrow> string" where
  "pf_left w s = s @ replicate (w - length s) (CHR '' '')"

end
