(* ===== verification/Epoller.thy ===== *)
theory Epoller
  imports Sys
begin

text \<open>
  The wrapper around epoll, \<open>include/ws/epoller.h\<close> and \<open>src/epoller.cpp\<close>. The kernel's interest list
  is kept with the object; \<open>epoll_wait\<close> answers from a script. The proofs about connections and loops
  use the locale \<open>interest_set\<close>, the contract of the three registration calls.
\<close>

unbundle bit_operations_syntax

section \<open>Definitions\<close>

record Epoller =
  epfd :: int
  interest :: "int \<rightharpoonup> u32"
  max_events :: nat
  events :: "(int \<times> u32) list"
  num_events :: int

definition Epoller_new :: "int \<Rightarrow> nat \<Rightarrow> Epoller" where
  "Epoller_new fd maxev = \<lparr>epfd = fd, interest = Map.empty, max_events = maxev, events = [], num_events = 0\<rparr>"

definition Epoller_ctl :: "epoll_op \<Rightarrow> int \<Rightarrow> u32 \<Rightarrow> Epoller \<Rightarrow> bool \<times> Epoller" where
  "Epoller_ctl op fd ev p =
     (if fd < 0 \<or> epfd p < 0 then (False, p)
      else let (ok, I) = epoll_ctl op fd ev (interest p) in (ok, p\<lparr>interest := I\<rparr>))"

definition Epoller_add :: "int \<Rightarrow> u32 \<Rightarrow> Epoller \<Rightarrow> bool \<times> Epoller" where
  "Epoller_add fd ev p = Epoller_ctl EPOLL_CTL_ADD fd ev p"

definition Epoller_mod :: "int \<Rightarrow> u32 \<Rightarrow> Epoller \<Rightarrow> bool \<times> Epoller" where
  "Epoller_mod fd ev p = Epoller_ctl EPOLL_CTL_MOD fd ev p"

definition Epoller_del :: "int \<Rightarrow> Epoller \<Rightarrow> bool \<times> Epoller" where
  "Epoller_del fd p = Epoller_ctl EPOLL_CTL_DEL fd 0 p"

text \<open>\<open>wait\<close> tries again as long as the call is interrupted; the rest of the script is returned.\<close>

function Epoller_wait :: "ep_answer list \<Rightarrow> Epoller \<Rightarrow> (errno + int) \<times> Epoller \<times> ep_answer list" where
  "Epoller_wait s p =
     (case epoll_wait (max_events p) s of
        (Inr evs, s') \<Rightarrow> (Inr (int (length evs)), p\<lparr>events := evs, num_events := int (length evs)\<rparr>, s')
      | (Inl e, s') \<Rightarrow>
          if e = EINTR then Epoller_wait s' p else (Inl e, p\<lparr>num_events := - 1\<rparr>, s'))"
  by pat_completeness auto
termination
proof (relation "measure (\<lambda>(s, p). length s)", goal_cases)
  case (2 s p x1 s' e)
  then show ?case by (cases "(max_events p, s)" rule: epoll_wait.cases) auto
qed simp

definition fdAt :: "nat \<Rightarrow> Epoller \<Rightarrow> int" where
  "fdAt i p = fst (events p ! i)"

definition eventsAt :: "nat \<Rightarrow> Epoller \<Rightarrow> u32" where
  "eventsAt i p = snd (events p ! i)"

declare Epoller_wait.simps [simp del]

section \<open>The contract of registration\<close>

locale interest_set =
  fixes ok :: "'p \<Rightarrow> bool"
    and reg :: "'p \<Rightarrow> int \<rightharpoonup> u32"
    and add :: "int \<Rightarrow> u32 \<Rightarrow> 'p \<Rightarrow> bool \<times> 'p"
    and modify :: "int \<Rightarrow> u32 \<Rightarrow> 'p \<Rightarrow> bool \<times> 'p"
    and del :: "int \<Rightarrow> 'p \<Rightarrow> bool \<times> 'p"
  assumes ok_add: "ok p \<Longrightarrow> ok (snd (add fd ev p))"
    and ok_modify: "ok p \<Longrightarrow> ok (snd (modify fd ev p))"
    and ok_del: "ok p \<Longrightarrow> ok (snd (del fd p))"
    and add_new: "ok p \<Longrightarrow> 0 \<le> fd \<Longrightarrow> reg p fd = None \<Longrightarrow>
      fst (add fd ev p) \<and> reg (snd (add fd ev p)) = (reg p)(fd \<mapsto> ev)"
    and modify_known: "ok p \<Longrightarrow> 0 \<le> fd \<Longrightarrow> reg p fd \<noteq> None \<Longrightarrow>
      fst (modify fd ev p) \<and> reg (snd (modify fd ev p)) = (reg p)(fd \<mapsto> ev)"
    and del_known: "ok p \<Longrightarrow> 0 \<le> fd \<Longrightarrow> reg (snd (del fd p)) = (reg p)(fd := None)"
begin

lemma add_del: "ok p \<Longrightarrow> 0 \<le> fd \<Longrightarrow> reg p fd = None \<Longrightarrow> reg (snd (del fd (snd (add fd ev p)))) = reg p"
  by (simp add: del_known ok_add add_new fun_upd_idem)

lemma modify_other: "ok p \<Longrightarrow> 0 \<le> fd \<Longrightarrow> reg p fd \<noteq> None \<Longrightarrow> fd' \<noteq> fd \<Longrightarrow>
  reg (snd (modify fd ev p)) fd' = reg p fd'"
  by (simp add: modify_known)

lemma del_other: "ok p \<Longrightarrow> 0 \<le> fd \<Longrightarrow> fd' \<noteq> fd \<Longrightarrow> reg (snd (del fd p)) fd' = reg p fd'"
  by (simp add: del_known)

end

interpretation epoll: interest_set "\<lambda>p. 0 \<le> epfd p" interest Epoller_add Epoller_mod Epoller_del
  by unfold_locales
    (auto simp: Epoller_add_def Epoller_mod_def Epoller_del_def Epoller_ctl_def fun_upd_idem split: prod.splits if_splits)

lemma Epoller_ctl_frame [frame_simps]:
  "epfd (snd (Epoller_add fd ev p)) = epfd p" "epfd (snd (Epoller_mod fd ev p)) = epfd p"
  "epfd (snd (Epoller_del fd p)) = epfd p"
  by (simp_all add: Epoller_add_def Epoller_mod_def Epoller_del_def Epoller_ctl_def split: prod.split)

text \<open>
  \<open>wait\<close> hides interrupted calls: it never answers EINTR, and what it reports is the number of events
  that can be read with \<open>fdAt\<close> and \<open>eventsAt\<close>, at most the size of the event array.
\<close>

lemma Epoller_wait_facts:
  "case Epoller_wait s p of (r, p', s') \<Rightarrow>
     r \<noteq> Inl EINTR \<and> interest p' = interest p \<and> epfd p' = epfd p \<and> suffix s' s \<and>
     (case r of Inl e \<Rightarrow> num_events p' = - 1
      | Inr n \<Rightarrow> n = num_events p' \<and> n = int (length (events p')) \<and> n \<le> int (max_events p))"
proof (induction s p rule: Epoller_wait.induct)
  case (1 s p)
  show ?case
  proof (cases "(max_events p, s)" rule: epoll_wait.cases)
    case (3 m e s')
    have eq: "Epoller_wait s p = (if e = EINTR then Epoller_wait s' p else (Inl e, p\<lparr>num_events := - 1\<rparr>, s'))"
      using 3 by (subst Epoller_wait.simps) simp
    show ?thesis
    proof (cases "e = EINTR")
      case True
      have "case Epoller_wait s' p of (r, p', s'') \<Rightarrow>
          r \<noteq> Inl EINTR \<and> interest p' = interest p \<and> epfd p' = epfd p \<and> suffix s'' s' \<and>
          (case r of Inl e \<Rightarrow> num_events p' = - 1
           | Inr n \<Rightarrow> n = num_events p' \<and> n = int (length (events p')) \<and> n \<le> int (max_events p))"
        by (rule 1) (use 3 True in auto)
      with True 3 show ?thesis unfolding eq by (auto simp: suffix_ConsI split: prod.splits)
    next
      case False
      with 3 show ?thesis unfolding eq by (simp add: suffix_ConsI)
    qed
  qed (subst Epoller_wait.simps, simp add: suffix_ConsI)+
qed

lemma Epoller_wait_frame:
  "Epoller_wait s p = (r, p', s') \<Longrightarrow> interest p' = interest p \<and> epfd p' = epfd p"
  using Epoller_wait_facts [where s = s and p = p] by auto

end
