(* ===== verification/Timer.thy ===== *)
theory Timer
  imports Sys
begin

text \<open>
  The timer heap of an event loop, \<open>include/ws/timer.h\<close> and \<open>src/timer.cpp\<close>: a priority queue of
  deadlines and a set of cancelled ids that are skipped when they come up (lazy deletion). Times are
  nanoseconds of the steady clock. \<open>std::priority_queue\<close> promises only that \<open>top\<close> is an element no
  other precedes; the locale \<open>min_queue\<close> is that promise and what the timers derive from it, and the
  queue of the model, a list in ascending order of deadline, is an interpretation of it. Which of several
  timers with the same deadline comes first is left open by the library: the heap carries a script of its
  decisions, \<open>ties\<close>, and what is shown holds for every script. A callback
  may add and cancel timers and change the rest of the program: \<open>expire_loop\<close> takes what it does as
  the argument \<open>fire\<close>. The loop need not end if callbacks keep adding timers that are already due,
  so its result is an option; \<open>expire_terminates\<close> gives the condition under which it does end.
\<close>

section \<open>Definitions\<close>

record 'cb Entry =
  e_when :: int
  e_cb :: "'cb option"
  e_id :: nat

text \<open>
  \<open>std::priority_queue<Entry, std::vector<Entry>, LaterFirst>\<close>, as the order in which it will give up its
  elements. \<open>LaterFirst\<close> compares deadlines only: the new element may come out before or after any of those
  with the same deadline. \<open>heap_push k\<close> lets \<open>k\<close> of them go first (all of them if there are fewer).
\<close>

fun heap_push :: "nat \<Rightarrow> 'cb Entry \<Rightarrow> 'cb Entry list \<Rightarrow> 'cb Entry list" where
  "heap_push k e [] = [e]"
| "heap_push k e (x # xs) =
     (if e_when e < e_when x then e # x # xs
      else if e_when e = e_when x
      then (case k of 0 \<Rightarrow> e # x # xs | Suc k \<Rightarrow> x # heap_push k e xs)
      else x # heap_push k e xs)"

definition heap_top :: "'cb Entry list \<Rightarrow> 'cb Entry" where
  "heap_top q = hd q"

definition heap_pop :: "'cb Entry list \<Rightarrow> 'cb Entry list" where
  "heap_pop q = tl q"

record 'cb TimerHeap =
  heap :: "'cb Entry list"
  cancelled :: "nat set"
  next_id :: nat
  ties :: "nat list"

text \<open>The decisions of the queue about equal deadlines, one for each timer added; 0 when the script ends.\<close>

definition next_tie :: "nat list \<Rightarrow> nat" where
  "next_tie ts = (case ts of [] \<Rightarrow> 0 | k # _ \<Rightarrow> k)"

definition TimerHeap_new :: "nat list \<Rightarrow> 'cb TimerHeap" where
  "TimerHeap_new ts = \<lparr>heap = [], cancelled = {}, next_id = 1, ties = ts\<rparr>"

definition timer_add :: "int \<Rightarrow> 'cb option \<Rightarrow> 'cb TimerHeap \<Rightarrow> nat \<times> 'cb TimerHeap" where
  "timer_add w cb h =
     (let tid = next_id h in
      (tid, h\<lparr>next_id := tid + 1, heap := heap_push (next_tie (ties h)) \<lparr>e_when = w, e_cb = cb, e_id = tid\<rparr> (heap h),
              ties := tl (ties h)\<rparr>))"

abbreviation ns_per_ms :: int where "ns_per_ms \<equiv> 1000000"

definition addAfter :: "int \<Rightarrow> 'cb option \<Rightarrow> clock \<Rightarrow> 'cb TimerHeap \<Rightarrow> nat \<times> clock \<times> 'cb TimerHeap" where
  "addAfter ms cb clk h =
     (let (t, clk') = clk_read clk; (tid, h') = timer_add (t + ms * ns_per_ms) cb h in (tid, clk', h'))"

definition cancel :: "nat \<Rightarrow> 'cb TimerHeap \<Rightarrow> 'cb TimerHeap" where
  "cancel tid h = (if tid = 0 \<or> next_id h \<le> tid then h else h\<lparr>cancelled := insert tid (cancelled h)\<rparr>)"

definition timer_size :: "'cb TimerHeap \<Rightarrow> nat" where
  "timer_size h = length (heap h)"

definition timer_empty :: "'cb TimerHeap \<Rightarrow> bool" where
  "timer_empty h \<longleftrightarrow> heap h = []"

partial_function (option) expire_loop ::
  "('cb \<Rightarrow> 's \<Rightarrow> 'cb TimerHeap \<Rightarrow> 's \<times> 'cb TimerHeap) \<Rightarrow> int \<Rightarrow> 's \<Rightarrow> 'cb TimerHeap \<Rightarrow> nat
   \<Rightarrow> (nat \<times> 's \<times> 'cb TimerHeap) option" where [code]:
  "expire_loop fire t s h fired =
     (if heap h \<noteq> [] \<and> e_when (heap_top (heap h)) \<le> t then
        let e = heap_top (heap h);
            h1 = h\<lparr>heap := heap_pop (heap h)\<rparr>
        in if e_id e \<in> cancelled h1
           then expire_loop fire t s (h1\<lparr>cancelled := cancelled h1 - {e_id e}\<rparr>) fired
           else case e_cb e of
               None \<Rightarrow> expire_loop fire t s h1 (fired + 1)
             | Some cb \<Rightarrow> let (s', h') = fire cb s h1 in expire_loop fire t s' h' (fired + 1)
      else Some (fired, s, h))"

definition expire ::
  "('cb \<Rightarrow> 's \<Rightarrow> 'cb TimerHeap \<Rightarrow> 's \<times> 'cb TimerHeap) \<Rightarrow> int \<Rightarrow> 's \<Rightarrow> 'cb TimerHeap
   \<Rightarrow> (nat \<times> 's \<times> 'cb TimerHeap) option" where
  "expire fire t s h = expire_loop fire t s h 0"

text \<open>
  \<open>duration_cast\<close> truncates towards zero and the result is narrowed to a 32-bit \<open>int\<close>.
\<close>

definition duration_ms :: "int \<Rightarrow> int" where
  "duration_ms d = (if d < 0 then - ((- d) div ns_per_ms) else d div ns_per_ms)"

definition nextTimeoutMs :: "int \<Rightarrow> 'cb TimerHeap \<Rightarrow> int" where
  "nextTimeoutMs t h =
     (if heap h = [] then - 1
      else let ms = duration_ms (e_when (heap_top (heap h)) - t)
           in if ms \<le> 0 then 0 else sint (word_of_int ms :: 32 word))"

text \<open>The class invariant, and the number of entries that are due.\<close>

definition timer_inv :: "'cb TimerHeap \<Rightarrow> bool" where
  "timer_inv h \<longleftrightarrow> sorted_wrt (\<lambda>x y. e_when x \<le> e_when y) (heap h) \<and> distinct (map e_id (heap h)) \<and>
     (\<forall>e \<in> set (heap h). 0 < e_id e \<and> e_id e < next_id h) \<and>
     (\<forall>i \<in> cancelled h. 0 < i \<and> i < next_id h) \<and> 0 < next_id h"

definition due :: "int \<Rightarrow> 'cb TimerHeap \<Rightarrow> nat" where
  "due t h = length (filter (\<lambda>e. e_when e \<le> t) (heap h))"

text \<open>
  The specification: timers that are removed the moment they are cancelled. \<open>live\<close> is the
  abstraction from the lazy heap.
\<close>

definition live :: "'cb TimerHeap \<Rightarrow> 'cb Entry list" where
  "live h = filter (\<lambda>e. e_id e \<notin> cancelled h) (heap h)"

datatype 'cb timer_op = OpAdd int 'cb | OpCancel nat | OpExpire int

datatype 'cb timer_out = OutId nat | OutNone | OutFired "'cb list"

text \<open>\<open>log_fire\<close> is the callback that only records that it ran.\<close>

definition log_fire :: "'cb \<Rightarrow> 'cb list \<Rightarrow> 'cb TimerHeap \<Rightarrow> 'cb list \<times> 'cb TimerHeap" where
  "log_fire cb s h = (s @ [cb], h)"

fun lazy_step :: "'cb TimerHeap \<Rightarrow> 'cb timer_op \<Rightarrow> 'cb timer_out \<times> 'cb TimerHeap" where
  "lazy_step h (OpAdd w cb) = (let (tid, h') = timer_add w (Some cb) h in (OutId tid, h'))"
| "lazy_step h (OpCancel tid) = (OutNone, cancel tid h)"
| "lazy_step h (OpExpire t) =
     (case expire log_fire t [] h of None \<Rightarrow> (OutNone, h) | Some (n, fired, h') \<Rightarrow> (OutFired fired, h'))"

text \<open>
  The specification keeps the timers in no particular order, and does not say in which order those of the same
  deadline are run: its answer to \<open>expire\<close> is the timers that have to run, and \<open>answers_for\<close> says which
  sequences of callbacks are right.
\<close>

datatype 'cb timer_spec_out = NewId nat | NoOut | Due "'cb Entry list"

fun eager_step :: "'cb Entry list \<times> nat \<Rightarrow> 'cb timer_op \<Rightarrow> 'cb timer_spec_out \<times> 'cb Entry list \<times> nat" where
  "eager_step (q, n) (OpAdd w cb) = (NewId n, \<lparr>e_when = w, e_cb = Some cb, e_id = n\<rparr> # q, n + 1)"
| "eager_step (q, n) (OpCancel tid) = (NoOut, filter (\<lambda>e. e_id e \<noteq> tid) q, n)"
| "eager_step (q, n) (OpExpire t) =
     (Due (filter (\<lambda>e. e_when e \<le> t) q), filter (\<lambda>e. \<not> e_when e \<le> t) q, n)"

fun answers_for :: "'cb timer_out \<Rightarrow> 'cb timer_spec_out \<Rightarrow> bool" where
  "answers_for (OutId i) r = (r = NewId i)"
| "answers_for OutNone r = (r = NoOut)"
| "answers_for (OutFired cbs) r =
     (\<exists>es L. r = Due es \<and> mset L = mset es \<and> sorted_wrt (\<lambda>x y. e_when x \<le> e_when y) L \<and> cbs = map (the \<circ> e_cb) L)"

fun lazy_run :: "'cb TimerHeap \<Rightarrow> 'cb timer_op list \<Rightarrow> 'cb timer_out list \<times> 'cb TimerHeap" where
  "lazy_run h [] = ([], h)"
| "lazy_run h (op # ops) = (let (out, h1) = lazy_step h op; (outs, h2) = lazy_run h1 ops in (out # outs, h2))"

fun eager_run :: "'cb Entry list \<times> nat \<Rightarrow> 'cb timer_op list \<Rightarrow> 'cb timer_spec_out list \<times> 'cb Entry list \<times> nat" where
  "eager_run q [] = ([], q)"
| "eager_run q (op # ops) = (let (out, q1) = eager_step q op; (outs, q2) = eager_run q1 ops in (out # outs, q2))"

section \<open>The contract of the priority queue\<close>

locale min_queue =
  fixes inv :: "'q \<Rightarrow> bool"
    and elems :: "'q \<Rightarrow> 'e multiset"
    and key :: "'e \<Rightarrow> int"
    and push :: "'k \<Rightarrow> 'e \<Rightarrow> 'q \<Rightarrow> 'q"
    and top :: "'q \<Rightarrow> 'e"
    and pop :: "'q \<Rightarrow> 'q"
  assumes inv_push: "inv q \<Longrightarrow> inv (push k e q)"
    and inv_pop: "inv q \<Longrightarrow> elems q \<noteq> {#} \<Longrightarrow> inv (pop q)"
    and elems_push: "inv q \<Longrightarrow> elems (push k e q) = add_mset e (elems q)"
    and top_in: "inv q \<Longrightarrow> elems q \<noteq> {#} \<Longrightarrow> top q \<in># elems q"
    and top_least: "inv q \<Longrightarrow> e \<in># elems q \<Longrightarrow> key (top q) \<le> key e"
    and elems_pop: "inv q \<Longrightarrow> elems q \<noteq> {#} \<Longrightarrow> elems (pop q) = elems q - {#top q#}"
begin

lemma none_due: "inv q \<Longrightarrow> t < key (top q) \<Longrightarrow> e \<in># elems q \<Longrightarrow> t < key e"
  using top_least by fastforce

lemma pop_due:
  assumes "inv q" "elems q \<noteq> {#}" "key (top q) \<le> t"
  shows "size (filter_mset (\<lambda>e. key e \<le> t) (elems (pop q))) <
         size (filter_mset (\<lambda>e. key e \<le> t) (elems q))"
proof -
  obtain m where m: "elems q = add_mset (top q) m"
    using top_in [OF assms(1,2)] by (metis multi_member_split)
  then have "elems (pop q) = m" using elems_pop [OF assms(1,2)] by simp
  with m assms(3) show ?thesis by simp
qed

lemma pop_after_push_least:
  "inv q \<Longrightarrow> \<forall>x \<in># elems q. key e < key x \<Longrightarrow> top (push k e q) = e"
  using top_in [OF inv_push, of q k e] top_least [OF inv_push, of q e k e] elems_push [of q k e]
  by fastforce

end

section \<open>The model's queue meets the contract\<close>

abbreviation sorted_when :: "'cb Entry list \<Rightarrow> bool" where
  "sorted_when q \<equiv> sorted_wrt (\<lambda>x y. e_when x \<le> e_when y) q"

lemma set_heap_push: "set (heap_push k e q) = insert e (set q)"
  by (induction q arbitrary: k) (auto split: nat.split)

lemma mset_heap_push: "mset (heap_push k e q) = add_mset e (mset q)"
  by (induction q arbitrary: k) (auto split: nat.split)

lemma sorted_heap_push: "sorted_when q \<Longrightarrow> sorted_when (heap_push k e q)"
  by (induction q arbitrary: k) (auto simp: set_heap_push split: nat.split)

text \<open>Every place that the deadlines allow is the place of the new element for some decision of the queue.\<close>

lemma heap_push_any_place: "sorted_when (xs @ e # ys) \<Longrightarrow> \<exists>k. heap_push k e (xs @ ys) = xs @ e # ys"
proof (induction xs)
  case Nil
  then show ?case by (intro exI [of _ 0]) (cases ys; auto)
next
  case (Cons x xs)
  then obtain k where k: "heap_push k e (xs @ ys) = xs @ e # ys" by auto
  then show ?case using Cons.prems by (intro exI [of _ "if e_when e = e_when x then Suc k else k"]) auto
qed

interpretation timers: min_queue sorted_when mset e_when heap_push heap_top heap_pop
proof unfold_locales
  fix q :: "'a Entry list" and e
  show "sorted_when q \<Longrightarrow> e \<in># mset q \<Longrightarrow> e_when (heap_top q) \<le> e_when e"
    by (cases q) (auto simp: heap_top_def)
qed (auto simp: sorted_heap_push mset_heap_push heap_top_def heap_pop_def neq_Nil_conv)

section \<open>Lemmas\<close>

lemma timer_inv_new [simp]: "timer_inv (TimerHeap_new ts)"
  by (simp add: timer_inv_def TimerHeap_new_def)

lemma distinct_heap_push:
  "distinct (map e_id q) \<Longrightarrow> e_id e \<notin> e_id ` set q \<Longrightarrow> distinct (map e_id (heap_push k e q))"
  by (induction q arbitrary: k) (auto simp: set_heap_push split: nat.split)

lemma timer_inv_add:
  assumes "timer_inv h" "timer_add w cb h = (tid, h')"
  shows "timer_inv h' \<and> tid = next_id h \<and> 0 < tid \<and> tid \<notin> e_id ` set (heap h) \<and> tid \<notin> cancelled h"
proof -
  have h: "tid = next_id h"
      "h' = h\<lparr>next_id := next_id h + 1, heap := heap_push (next_tie (ties h)) \<lparr>e_when = w, e_cb = cb, e_id = next_id h\<rparr> (heap h),
        ties := tl (ties h)\<rparr>"
    using assms(2) by (auto simp: timer_add_def Let_def)
  have new: "next_id h \<notin> e_id ` set (heap h)" "next_id h \<notin> cancelled h"
    using assms(1) by (auto simp: timer_inv_def)
  then have "distinct (map e_id (heap_push (next_tie (ties h)) \<lparr>e_when = w, e_cb = cb, e_id = next_id h\<rparr> (heap h)))"
    using assms(1) by (intro distinct_heap_push) (auto simp: timer_inv_def)
  moreover have "\<forall>e \<in> set (heap h'). 0 < e_id e \<and> e_id e < next_id h'" "\<forall>i \<in> cancelled h'. 0 < i \<and> i < next_id h'"
    using assms(1) by (auto simp: timer_inv_def h set_heap_push less_Suc_eq)
  ultimately show ?thesis
    using assms(1) new h by (simp add: timer_inv_def sorted_heap_push)
qed

lemma timer_inv_cancel: "timer_inv h \<Longrightarrow> timer_inv (cancel tid h)"
  by (auto simp: timer_inv_def cancel_def)

lemma timer_inv_pop:
  "timer_inv h \<Longrightarrow> heap h \<noteq> [] \<Longrightarrow> timer_inv (h\<lparr>heap := heap_pop (heap h)\<rparr>)"
  by (cases "heap h") (auto simp: timer_inv_def heap_pop_def)

lemma timer_inv_uncancel: "timer_inv h \<Longrightarrow> timer_inv (h\<lparr>cancelled := cancelled h - X\<rparr>)"
  by (auto simp: timer_inv_def)

text \<open>One turn of the loop in \<open>expire\<close>, on a heap whose first entry is due.\<close>

lemma expire_stop:
  "heap h = [] \<or> t < e_when (heap_top (heap h)) \<Longrightarrow> expire_loop fire t s h n = Some (n, s, h)"
  by (subst expire_loop.simps) auto

lemma expire_turn:
  assumes "heap h = e # rest" "e_when e \<le> t"
  shows "expire_loop fire t s h n =
    (if e_id e \<in> cancelled h then expire_loop fire t s (h\<lparr>heap := rest, cancelled := cancelled h - {e_id e}\<rparr>) n
     else case e_cb e of None \<Rightarrow> expire_loop fire t s (h\<lparr>heap := rest\<rparr>) (n + 1)
       | Some cb \<Rightarrow> (case fire cb s (h\<lparr>heap := rest\<rparr>) of (s', h') \<Rightarrow> expire_loop fire t s' h' (n + 1)))"
  using assms by (subst expire_loop.simps) (simp add: heap_top_def heap_pop_def Let_def split: option.split)

lemma expire_loop_terminates_inv:
  assumes "J s h"
    and skip: "\<And>s h e rest. J s h \<Longrightarrow> heap h = e # rest \<Longrightarrow> J s (h\<lparr>heap := rest, cancelled := cancelled h - {e_id e}\<rparr>)"
    and pop: "\<And>s h e rest. J s h \<Longrightarrow> heap h = e # rest \<Longrightarrow> J s (h\<lparr>heap := rest\<rparr>)"
    and call: "\<And>cb s h s' h'. J s h \<Longrightarrow> fire cb s h = (s', h') \<Longrightarrow> J s' h' \<and> due t h' \<le> due t h"
  shows "\<exists>res. expire_loop fire t s h n = Some res"
  using assms(1)
proof (induction "due t h" arbitrary: s h n rule: less_induct)
  case less
  show ?case
  proof (cases "heap h = [] \<or> t < e_when (heap_top (heap h))")
    case True
    then show ?thesis by (simp add: expire_stop)
  next
    case False
    then obtain e rest where h: "heap h = e # rest" "e_when e \<le> t"
      by (cases "heap h") (auto simp: heap_top_def)
    have d: "due t (h\<lparr>heap := rest, cancelled := C\<rparr>) < due t h" "due t (h\<lparr>heap := rest\<rparr>) < due t h" for C
      using h by (simp_all add: due_def)
    have f: "\<exists>res. expire_loop fire t s' h' m = Some res" if "fire cb s (h\<lparr>heap := rest\<rparr>) = (s', h')" for cb s' h' m
      using call [OF pop [OF less.prems h(1)] that] d(2) by (intro less.hyps) auto
    show ?thesis
      using less.hyps [OF d(1) skip [OF less.prems h(1)]] less.hyps [OF d(2) pop [OF less.prems h(1)]] f
      by (simp add: expire_turn [OF h] split: option.split prod.split)
  qed
qed

lemma expire_loop_terminates:
  assumes "\<And>cb s h. due t (snd (fire cb s h)) \<le> due t h"
  shows "\<exists>res. expire_loop fire t s h n = Some res"
  by (rule expire_loop_terminates_inv [where J = "\<lambda>s h. True"]) (use assms in \<open>simp_all, metis snd_conv\<close>)

lemma filter_due_sorted:
  "sorted_when (e # q) \<Longrightarrow> t < e_when e \<Longrightarrow>
   filter (\<lambda>x. e_when x \<le> t) (e # q) = [] \<and> filter (\<lambda>x. \<not> e_when x \<le> t) (e # q) = e # q"
  by (auto simp: filter_empty_conv filter_id_conv)

text \<open>The whole loop, for callbacks that leave the timers alone.\<close>

lemma expire_loop_pure:
  assumes "timer_inv h" "\<And>cb s h. fire cb s h = (act cb s, h)"
  shows "expire_loop fire t s h n =
    (let D = filter (\<lambda>e. e_when e \<le> t) (heap h); L = filter (\<lambda>e. e_id e \<notin> cancelled h) D in
     Some (n + length L, fold (\<lambda>e s. case e_cb e of None \<Rightarrow> s | Some cb \<Rightarrow> act cb s) L s,
       h\<lparr>heap := filter (\<lambda>e. \<not> e_when e \<le> t) (heap h), cancelled := cancelled h - e_id ` set D\<rparr>))"
  using assms(1)
proof (induction "heap h" arbitrary: h s n)
  case Nil
  then show ?case by (simp add: expire_stop)
next
  case (Cons e q)
  then have h: "heap h = e # q" by simp
  show ?case
  proof (cases "e_when e \<le> t")
    case False
    with Cons.prems h filter_due_sorted [of e q t] show ?thesis
      by (simp add: expire_stop heap_top_def timer_inv_def)
  next
    case True
    have inv: "timer_inv (h\<lparr>heap := q\<rparr>)" "timer_inv (h\<lparr>heap := q, cancelled := cancelled h - {e_id e}\<rparr>)"
      using Cons.prems h by (auto simp: timer_inv_def)
    have "e_id e \<notin> e_id ` set q" using Cons.prems h by (simp add: timer_inv_def)
    then have new: "e_id x \<noteq> e_id e" if "x \<in> set q" for x using that by (metis image_eqI)
    have same: "filter (\<lambda>x. e_when x \<le> t \<and> (e_id x \<in> cancelled h \<longrightarrow> e_id x = e_id e)) q =
        filter (\<lambda>x. e_when x \<le> t \<and> e_id x \<notin> cancelled h) q"
      using new by (intro filter_cong) auto
    have set_diff: "cancelled h - {e_id e} - X = cancelled h - insert (e_id e) X" for X by auto
    show ?thesis
    proof (cases "e_id e \<in> cancelled h")
      case c: True
      show ?thesis
        using True c Cons.hyps(1) [OF _ inv(2)]
        by (simp add: expire_turn [OF h] Let_def h same set_diff)
    next
      case c: False
      show ?thesis
        using True c Cons.hyps(1) [OF _ inv(1)]
        by (simp add: expire_turn [OF h] assms(2) Let_def h split: option.split)
    qed
  qed
qed

text \<open>A loop rule: what every turn of \<open>expire\<close> keeps holds when it returns.\<close>

lemma expire_loop_rule:
  assumes ret: "expire_loop fire t s h n = Some res" and start: "J s h n"
    and skip: "\<And>s h n e rest. J s h n \<Longrightarrow> heap h = e # rest \<Longrightarrow> e_when e \<le> t \<Longrightarrow> e_id e \<in> cancelled h \<Longrightarrow>
      J s (h\<lparr>heap := rest, cancelled := cancelled h - {e_id e}\<rparr>) n"
    and empty: "\<And>s h n e rest. J s h n \<Longrightarrow> heap h = e # rest \<Longrightarrow> e_when e \<le> t \<Longrightarrow> e_id e \<notin> cancelled h \<Longrightarrow>
      e_cb e = None \<Longrightarrow> J s (h\<lparr>heap := rest\<rparr>) (n + 1)"
    and call: "\<And>s h n e rest cb s' h'. J s h n \<Longrightarrow> heap h = e # rest \<Longrightarrow> e_when e \<le> t \<Longrightarrow>
      e_id e \<notin> cancelled h \<Longrightarrow> e_cb e = Some cb \<Longrightarrow> fire cb s (h\<lparr>heap := rest\<rparr>) = (s', h') \<Longrightarrow> J s' h' (n + 1)"
  shows "case res of (m, s', h') \<Rightarrow>
    J s' h' m \<and> (heap h' = [] \<or> t < e_when (heap_top (heap h')))"
proof -
  let ?Q = "\<lambda>res. case res of (m, s', h') \<Rightarrow> J s' h' m \<and> (heap h' = [] \<or> t < e_when (heap_top (heap h')))"
  have "fire = fire \<longrightarrow> t = t \<longrightarrow> J s h n \<longrightarrow> ?Q res"
  proof (rule expire_loop.raw_induct [where P = "\<lambda>fire' t' s h n r.
      fire' = fire \<longrightarrow> t' = t \<longrightarrow> J s h n \<longrightarrow> ?Q r", OF _ ret], intro impI)
    fix loop fire' t' s h n r
    assume IH: "\<And>fire' t' s h n r. loop fire' t' s h n = Some r \<Longrightarrow>
        fire' = fire \<longrightarrow> t' = t \<longrightarrow> J s h n \<longrightarrow> ?Q r"
      and eq: "(if heap h \<noteq> [] \<and> e_when (heap_top (heap h)) \<le> t' then
          let e = heap_top (heap h); h1 = h\<lparr>heap := heap_pop (heap h)\<rparr>
          in if e_id e \<in> cancelled h1 then loop fire' t' s (h1\<lparr>cancelled := cancelled h1 - {e_id e}\<rparr>) n
             else case e_cb e of None \<Rightarrow> loop fire' t' s h1 (n + 1)
               | Some cb \<Rightarrow> let (s', h') = fire' cb s h1 in loop fire' t' s' h' (n + 1)
          else Some (n, s, h)) = Some r"
      and f: "fire' = fire" "t' = t" and J: "J s h n"
    show "?Q r"
    proof (cases "heap h = [] \<or> t < e_when (heap_top (heap h))")
      case True
      with eq f J show ?thesis by auto
    next
      case False
      then obtain e rest where h: "heap h = e # rest" "e_when e \<le> t"
        by (cases "heap h") (auto simp: heap_top_def)
      note IH = IH [rule_format, OF _ f] and eq = eq [simplified f h heap_top_def heap_pop_def Let_def list.sel, simplified]
      show ?thesis
        using eq h IH skip [OF J h] empty [OF J h] call [OF J h]
        by (auto simp: f split: if_splits option.splits prod.splits) blast
    qed
  qed
  with start show ?thesis by simp
qed

lemma expire_loop_inv:
  assumes "\<And>cb s h. timer_inv h \<Longrightarrow> timer_inv (snd (fire cb s h))"
    and "timer_inv h" "expire_loop fire t s h n = Some (m, s', h')"
  shows "timer_inv h' \<and> (\<forall>e \<in> set (heap h'). t < e_when e)"
proof -
  have "case (m, s', h') of (m, s', h') \<Rightarrow>
      timer_inv h' \<and> (heap h' = [] \<or> t < e_when (heap_top (heap h')))"
  proof (rule expire_loop_rule [OF assms(3), where J = "\<lambda>s h n. timer_inv h"])
    fix h :: "'a TimerHeap" and e rest
    assume "timer_inv h" "heap h = e # rest"
    then have pop: "timer_inv (h\<lparr>heap := rest\<rparr>)" by (auto simp: timer_inv_def)
    then show "timer_inv (h\<lparr>heap := rest\<rparr>)" .
    show "timer_inv (h\<lparr>heap := rest, cancelled := cancelled h - {e_id e}\<rparr>)"
      using timer_inv_uncancel [OF pop, of "{e_id e}"] by simp
    show "timer_inv h'" if "fire cb s (h\<lparr>heap := rest\<rparr>) = (s', h')" for cb s s' h'
      using assms(1) [OF pop, of cb s] that by simp
  qed (rule assms(2))
  then show ?thesis using timers.none_due [of "heap h'" t] by (auto simp: timer_inv_def)
qed

text \<open>Lazy cancellation against removal at once.\<close>

definition all_callable :: "'cb TimerHeap \<Rightarrow> bool" where
  "all_callable h \<longleftrightarrow> (\<forall>e \<in> set (heap h). e_cb e \<noteq> None)"

lemma fold_log:
  "fold (\<lambda>e s. case e_cb e of None \<Rightarrow> s | Some cb \<Rightarrow> s @ [cb]) L s =
   s @ map (the \<circ> e_cb) (filter (\<lambda>e. e_cb e \<noteq> None) L)"
  by (induction L arbitrary: s) (auto split: option.split)

lemma live_add:
  assumes "timer_inv h"
  shows "mset (live (snd (timer_add w cb h))) = add_mset \<lparr>e_when = w, e_cb = cb, e_id = next_id h\<rparr> (mset (live h))"
proof -
  have "next_id h \<notin> cancelled h" using assms by (auto simp: timer_inv_def)
  then show ?thesis by (simp add: live_def timer_add_def Let_def mset_filter mset_heap_push)
qed

lemma set_live_add:
  "timer_inv h \<Longrightarrow> set (live (snd (timer_add w cb h))) = insert \<lparr>e_when = w, e_cb = cb, e_id = next_id h\<rparr> (set (live h))"
  using live_add [of h w cb] by (metis set_mset_add_mset_insert set_mset_mset)

lemma live_cancel:
  assumes "timer_inv h"
  shows "live (cancel tid h) = filter (\<lambda>e. e_id e \<noteq> tid) (live h)"
proof (cases "tid = 0 \<or> next_id h \<le> tid")
  case True
  with assms have "e_id e \<noteq> tid" if "e \<in> set (heap h)" for e
    using that by (auto simp: timer_inv_def)
  with True show ?thesis
    by (auto simp: cancel_def live_def intro!: filter_cong)
next
  case False
  then show ?thesis by (auto simp: cancel_def live_def intro!: filter_cong)
qed

lemma expire_log:
  assumes "timer_inv h"
  shows "\<exists>h'. expire log_fire t s h =
      Some (length (filter (\<lambda>e. e_when e \<le> t) (live h)),
            s @ map (the \<circ> e_cb) (filter (\<lambda>e. e_cb e \<noteq> None) (filter (\<lambda>e. e_when e \<le> t) (live h))), h') \<and>
    heap h' = filter (\<lambda>e. \<not> e_when e \<le> t) (heap h) \<and>
    live h' = filter (\<lambda>e. \<not> e_when e \<le> t) (live h) \<and> timer_inv h' \<and> next_id h' = next_id h"
proof -
  let ?D = "filter (\<lambda>e. e_when e \<le> t) (heap h)"
  let ?h = "h\<lparr>heap := filter (\<lambda>e. \<not> e_when e \<le> t) (heap h), cancelled := cancelled h - e_id ` set ?D\<rparr>"
  have "e_id x \<notin> e_id ` set ?D" if "x \<in> set (heap h)" "\<not> e_when x \<le> t" for x
    using assms that by (auto simp: timer_inv_def distinct_map dest: inj_onD)
  then have "live ?h = filter (\<lambda>e. \<not> e_when e \<le> t) (live h)"
    by (auto simp: live_def conj_commute intro!: filter_cong)
  moreover have "timer_inv ?h"
    using assms by (auto simp: timer_inv_def sorted_wrt_filter distinct_map_filter)
  moreover have "filter (\<lambda>e. e_id e \<notin> cancelled h) ?D = filter (\<lambda>e. e_when e \<le> t) (live h)"
    by (simp add: live_def conj_commute)
  ultimately show ?thesis
    using expire_loop_pure [OF assms, of log_fire "\<lambda>cb s. s @ [cb]" t s 0]
    unfolding expire_def Let_def fold_log by (simp add: log_fire_def)
qed

lemma lazy_step_sim:
  assumes "timer_inv h" "all_callable h" "mset q = mset (live h)" "lazy_step h op = (out, h')"
  shows "\<exists>r q'. eager_step (q, next_id h) op = (r, q', next_id h') \<and> answers_for out r \<and> mset q' = mset (live h') \<and>
    timer_inv h' \<and> all_callable h'"
proof (cases op)
  case (OpAdd w cb)
  with assms have h': "out = OutId (next_id h)" "h' = snd (timer_add w (Some cb) h)" "next_id h' = next_id h + 1"
    by (auto simp: timer_add_def Let_def)
  moreover have "timer_inv h'" using timer_inv_add [OF assms(1), of w "Some cb"] h'(2) by (metis prod.collapse)
  ultimately show ?thesis
    using assms(2,3) live_add [OF assms(1), of w "Some cb"]
    by (auto simp: OpAdd all_callable_def timer_add_def Let_def set_heap_push)
next
  case (OpCancel tid)
  have "heap (cancel tid h) = heap h" "next_id (cancel tid h) = next_id h" by (simp_all add: cancel_def)
  with OpCancel assms live_cancel [OF assms(1), of tid] timer_inv_cancel [OF assms(1), of tid] show ?thesis
    by (auto simp: all_callable_def mset_filter)
next
  case (OpExpire t)
  let ?L = "filter (\<lambda>e. e_when e \<le> t) (live h)"
  have "filter (\<lambda>e. e_cb e \<noteq> None) ?L = ?L"
    using assms(2) unfolding filter_id_conv by (auto simp: all_callable_def live_def)
  with expire_log [OF assms(1), of t "[]"] obtain h1 where h1: "expire log_fire t [] h = Some (length ?L, map (the \<circ> e_cb) ?L, h1)"
      "heap h1 = filter (\<lambda>e. \<not> e_when e \<le> t) (heap h)" "live h1 = filter (\<lambda>e. \<not> e_when e \<le> t) (live h)" "timer_inv h1" "next_id h1 = next_id h"
    by auto
  have res: "out = OutFired (map (the \<circ> e_cb) ?L)" "h' = h1" using OpExpire assms(4) h1(1) by auto
  have "mset ?L = mset (filter (\<lambda>e. e_when e \<le> t) q)" using assms(3) by (simp add: mset_filter)
  moreover have "sorted_when ?L" using assms(1) by (simp add: timer_inv_def live_def sorted_wrt_filter)
  ultimately have "answers_for out (Due (filter (\<lambda>e. e_when e \<le> t) q))"
    unfolding res answers_for.simps by blast
  with h1 assms(2,3) show ?thesis by (simp add: OpExpire res mset_filter all_callable_def)
qed

lemma lazy_run_sim:
  assumes "timer_inv h" "all_callable h" "mset q = mset (live h)"
  shows "list_all2 answers_for (fst (lazy_run h ops)) (fst (eager_run (q, next_id h) ops))"
  using assms
proof (induction ops arbitrary: h q)
  case (Cons op ops)
  obtain out h' where s: "lazy_step h op = (out, h')" by fastforce
  obtain r q' where e: "eager_step (q, next_id h) op = (r, q', next_id h')" "answers_for out r" "mset q' = mset (live h')"
      "timer_inv h'" "all_callable h'"
    using lazy_step_sim [OF Cons.prems s] by blast
  from Cons.IH [OF e(4,5,3)] e(2) show ?case by (simp add: s e(1) split_beta)
qed simp

section \<open>Properties\<close>

text \<open>
  C18: The timer heap with lazy cancellation behaves exactly as timers that are removed the moment
  they are cancelled. Whatever sequence of add, cancel (of any id, known or not) and expire is run
  on a new heap, and however its queue decides between equal deadlines, the ids returned are the same, and every
  expire runs the callbacks of the timers that are due, each once, in ascending order of deadline. (Between timers of the
  same deadline no order is claimed: the queue does not promise one.)
\<close>

theorem lazy_cancel_refines_eager:
  "list_all2 answers_for (fst (lazy_run (TimerHeap_new ts) ops)) (fst (eager_run ([], 1) ops))"
  using lazy_run_sim [of "TimerHeap_new ts" "[]" ops] by (simp add: all_callable_def TimerHeap_new_def live_def timer_inv_def)

text \<open>
  The order of equal deadlines is really open: of two timers added for the same moment either may run first.
\<close>

lemma ties_either_way:
  "fst (lazy_run (TimerHeap_new [0, 0]) [OpAdd 5 ''a'', OpAdd 5 ''b'', OpExpire 5]) = [OutId 1, OutId 2, OutFired [''b'', ''a'']]"
  "fst (lazy_run (TimerHeap_new [0, 1]) [OpAdd 5 ''a'', OpAdd 5 ''b'', OpExpire 5]) = [OutId 1, OutId 2, OutFired [''a'', ''b'']]"
  by code_simp+

text \<open>
  C34: \<open>expire\<close> returns, runs exactly the callbacks of the timers that are due and not cancelled, in
  ascending order of deadline, reports their number, keeps exactly the timers that are not yet due,
  and keeps the invariant of the heap (for callbacks that leave the heap alone).
\<close>

theorem expire_fires_due:
  assumes "timer_inv h"
  shows "\<exists>h' L. L = filter (\<lambda>e. e_when e \<le> t) (live h) \<and> sorted_when L \<and>
    expire log_fire t s h =
      Some (length L, s @ map (the \<circ> e_cb) (filter (\<lambda>e. e_cb e \<noteq> None) L), h') \<and>
    heap h' = filter (\<lambda>e. \<not> e_when e \<le> t) (heap h) \<and>
    live h' = filter (\<lambda>e. \<not> e_when e \<le> t) (live h) \<and> timer_inv h'"
  using assms expire_log [OF assms, of t s] by (auto simp: timer_inv_def live_def sorted_wrt_filter)

theorem expire_fires_due_witness:
  "\<exists>h'. expire log_fire 9 [] (cancel 2 (snd (timer_add 3 (Some ''b'') (snd (timer_add 5 (Some ''a'') (TimerHeap_new []))))))
     = Some (1, [''a''], h') \<and> heap h' = []"
proof -
  let ?h = "cancel 2 (snd (timer_add 3 (Some ''b'') (snd (timer_add 5 (Some ''a'') (TimerHeap_new [])))))"
  have h: "?h = \<lparr>heap = [\<lparr>e_when = 3, e_cb = Some ''b'', e_id = 2\<rparr>, \<lparr>e_when = 5, e_cb = Some ''a'', e_id = 1\<rparr>],
      cancelled = {2}, next_id = 3, ties = []\<rparr>"
    by (simp add: cancel_def timer_add_def TimerHeap_new_def Let_def)
  have inv: "timer_inv ?h" unfolding h by (simp add: timer_inv_def)
  show ?thesis using expire_fires_due [OF inv, of 9 "[]"] unfolding h by (auto simp: live_def)
qed

text \<open>
  C38: \<open>expire\<close> returns whenever no callback raises the number of timers that are due at the moment
  the pass began, which holds for callbacks that only cancel timers or add later ones; without such
  a condition the loop may run for ever, since it tests the heap again after every callback.
\<close>

theorem expire_terminates:
  assumes "\<And>cb s h. due t (snd (fire cb s h)) \<le> due t h"
  shows "\<exists>res. expire fire t s h = Some res"
  unfolding expire_def by (rule expire_loop_terminates) (rule assms)

text \<open>A callback that arms itself again five milliseconds later, as the idle timer of a connection does.\<close>

definition rearm :: "int \<Rightarrow> unit \<Rightarrow> nat \<Rightarrow> unit TimerHeap \<Rightarrow> nat \<times> unit TimerHeap" where
  "rearm t cb s h = (Suc s, snd (timer_add (t + 5000000) (Some ()) h))"

lemma due_push:
  "length (filter P (heap_push k e q)) = (if P e then Suc (length (filter P q)) else length (filter P q))"
  by (induction q arbitrary: k) (auto split: nat.split)

lemma due_add: "due t (snd (timer_add w cb h)) = (if w \<le> t then Suc (due t h) else due t h)"
  by (simp add: due_def timer_add_def Let_def due_push)

theorem expire_terminates_witness:
  "\<exists>res. expire (rearm 9) 9 0 (snd (timer_add 5 (Some ()) (TimerHeap_new []))) = Some res"
  by (rule expire_terminates) (simp add: rearm_def due_add)

text \<open>
  When \<open>expire\<close> returns, whatever the callbacks did with the timers (as long as they keep the
  heap's invariant), no timer that is due is left and the heap's invariant holds: ids are distinct
  and below the next one, and the queue is ordered.
\<close>

lemma expire_leaves_none_due:
  assumes "\<And>cb s h. timer_inv h \<Longrightarrow> timer_inv (snd (fire cb s h))"
    and "timer_inv h" "expire fire t s h = Some (m, s', h')"
  shows "timer_inv h' \<and> (\<forall>e \<in> set (heap h'). t < e_when e)"
  using expire_loop_inv [of fire, OF assms(1,2)] assms(3) unfolding expire_def by blast

text \<open>
  The timeout handed to \<open>epoll_wait\<close> never sleeps past a deadline and is short of the earliest
  one by less than a millisecond, for deadlines at most \<open>INT_MAX\<close> milliseconds ahead: the narrowing
  to \<open>int\<close> loses nothing then. It is \<open>-1\<close>, wait for ever, exactly when there is no timer.
\<close>

lemma nextTimeoutMs_exact:
  assumes "timer_inv h" "\<forall>e \<in> set (heap h). e_when e - t < 2147483648 * ns_per_ms"
  shows "(nextTimeoutMs t h = - 1 \<longleftrightarrow> heap h = []) \<and> - 1 \<le> nextTimeoutMs t h \<and>
    (\<forall>e \<in> set (heap h). t + nextTimeoutMs t h * ns_per_ms \<le> max t (e_when e)) \<and>
    (heap h \<noteq> [] \<longrightarrow> e_when (heap_top (heap h)) < t + (nextTimeoutMs t h + 1) * ns_per_ms)"
proof (cases "heap h")
  case Nil
  then show ?thesis by (simp add: nextTimeoutMs_def)
next
  case (Cons e q)
  let ?d = "e_when e - t"
  have top: "heap_top (heap h) = e" by (simp add: Cons heap_top_def)
  have least: "e_when e \<le> e_when x" if "x \<in> set (heap h)" for x
    using assms(1) that timers.top_least [of "heap h" x] by (simp add: timer_inv_def top)
  have val: "nextTimeoutMs t h = max 0 (?d div ns_per_ms)"
  proof (cases "?d < ns_per_ms")
    case True
    then have "?d div ns_per_ms \<le> 0" by (cases "0 \<le> ?d") (auto simp: div_pos_pos_trivial div_neg_pos_less0 less_imp_le)
    moreover have "duration_ms ?d \<le> 0" using True
      by (cases "0 \<le> ?d") (auto simp: duration_ms_def div_pos_pos_trivial pos_imp_zdiv_nonneg_iff)
    ultimately show ?thesis by (simp add: nextTimeoutMs_def top Let_def) (simp add: Cons)
  next
    case False
    have "?d div ns_per_ms < 2147483648" using assms(2) Cons by auto
    moreover have "0 < ?d div ns_per_ms" using False by (simp add: pos_imp_zdiv_pos_iff)
    ultimately have "sint (word_of_int (?d div ns_per_ms) :: 32 word) = ?d div ns_per_ms"
      by (simp add: int_word_sint)
    with False \<open>0 < ?d div ns_per_ms\<close> show ?thesis
      by (simp add: nextTimeoutMs_def top Let_def duration_ms_def) (simp add: Cons)
  qed
  have k: "?d div ns_per_ms * ns_per_ms \<le> ?d" "?d < (?d div ns_per_ms + 1) * ns_per_ms"
    using mod_div_mult_eq [of ?d ns_per_ms] pos_mod_bound [of ns_per_ms ?d] pos_mod_sign [of ns_per_ms ?d]
    by (simp_all only: distrib_right)
  have lo: "t + nextTimeoutMs t h * ns_per_ms \<le> max t (e_when e)"
    using k unfolding val max_def by (auto simp: algebra_simps)
  then have "t + nextTimeoutMs t h * ns_per_ms \<le> max t (e_when x)" if "x \<in> set (heap h)" for x
    using least [OF that] by linarith
  moreover have "e_when e < t + (nextTimeoutMs t h + 1) * ns_per_ms"
    using k unfolding val max_def by (auto simp: algebra_simps)
  ultimately show ?thesis using val top Cons by auto
qed

lemma nextTimeoutMs_exact_example:
  "nextTimeoutMs 7 (snd (timer_add 5000123 (Some ()) (TimerHeap_new []))) \<noteq> - 1"
proof -
  let ?h = "snd (timer_add 5000123 (Some ()) (TimerHeap_new []))"
  have h: "?h = \<lparr>heap = [\<lparr>e_when = 5000123, e_cb = Some (), e_id = 1\<rparr>], cancelled = {}, next_id = 2, ties = []\<rparr>"
    by (simp add: timer_add_def TimerHeap_new_def Let_def)
  have "timer_inv ?h" unfolding h by (simp add: timer_inv_def)
  then show ?thesis using nextTimeoutMs_exact [of ?h 7] unfolding h by simp
qed

text \<open>
  In the last millisecond before a deadline the timeout is 0 and \<open>expire\<close> does nothing: the loop
  polls without waiting until the deadline has passed.
\<close>

lemma last_millisecond_polls:
  assumes "timer_inv h" "heap h \<noteq> []" "t < e_when (heap_top (heap h))"
    "e_when (heap_top (heap h)) < t + ns_per_ms"
  shows "nextTimeoutMs t h = 0 \<and> expire fire t s h = Some (0, s, h)"
  using assms by (simp add: nextTimeoutMs_def duration_ms_def Let_def expire_def expire_stop)

lemma last_millisecond_polls_witness:
  "nextTimeoutMs 7 (snd (timer_add 500 (Some ()) (TimerHeap_new []))) = 0"
proof -
  let ?h = "snd (timer_add 500 (Some ()) (TimerHeap_new []))"
  have h: "?h = \<lparr>heap = [\<lparr>e_when = 500, e_cb = Some (), e_id = 1\<rparr>], cancelled = {}, next_id = 2, ties = []\<rparr>"
    by (simp add: timer_add_def TimerHeap_new_def Let_def)
  have "timer_inv ?h" unfolding h by (simp add: timer_inv_def)
  then show ?thesis using last_millisecond_polls [of ?h 7 "rearm 7" 0] unfolding h by (simp add: heap_top_def)
qed

end
