(* ===== verification/Buffer.thy ===== *)
theory Buffer
  imports Sys
begin

text \<open>
  The byte buffer of a connection, \<open>include/ws/buffer.h\<close> and \<open>src/buffer.cpp\<close>: a vector with a
  read and a write index. The model keeps the vector and the two indices and moves bytes exactly
  where the code moves them. \<open>contents\<close>, the bytes between the indices, is the abstraction: the
  operations implement a first-in first-out byte queue (locale \<open>byte_buffer\<close>, interpreted below on
  these definitions). \<open>size_t\<close> sums are \<open>nat\<close> sums: \<open>makeSpace_guard_u64_exact\<close> shows that the
  64-bit arithmetic of \<open>makeSpace\<close> agrees with them for every object size C++ allows.
\<close>

section \<open>Definitions\<close>

record Buffer =
  buf :: bytes
  read_idx :: nat
  write_idx :: nat

definition kInitialSize :: nat where "kInitialSize = 1024"
definition kPrependSize :: nat where "kPrependSize = 8"

definition Buffer_new :: "nat \<Rightarrow> Buffer" where
  "Buffer_new initial_size = \<lparr>buf = replicate initial_size NUL, read_idx = 0, write_idx = 0\<rparr>"

definition readableBytes :: "Buffer \<Rightarrow> nat" where
  "readableBytes b = write_idx b - read_idx b"

definition writableBytes :: "Buffer \<Rightarrow> nat" where
  "writableBytes b = length (buf b) - write_idx b"

definition prependableBytes :: "Buffer \<Rightarrow> nat" where
  "prependableBytes b = read_idx b"

text \<open>\<open>std::string(peek(), n)\<close>.\<close>

definition peek_n :: "Buffer \<Rightarrow> nat \<Rightarrow> string" where
  "peek_n b n = take n (drop (read_idx b) (buf b))"

definition findCRLF :: "Buffer \<Rightarrow> nat \<Rightarrow> nat option" where
  "findCRLF b offset =
     (let n = readableBytes b in
      if n \<le> offset then None
      else (case search CRLF (drop offset (peek_n b n)) of
              None \<Rightarrow> None
            | Some p \<Rightarrow> Some (offset + p)))"

definition retrieveAll :: "Buffer \<Rightarrow> Buffer" where
  "retrieveAll b = b\<lparr>read_idx := 0, write_idx := 0\<rparr>"

definition retrieve :: "Buffer \<Rightarrow> nat \<Rightarrow> Buffer" where
  "retrieve b len =
     (if readableBytes b \<le> len then retrieveAll b else b\<lparr>read_idx := read_idx b + len\<rparr>)"

definition retrieveAsString :: "Buffer \<Rightarrow> nat \<Rightarrow> string \<times> Buffer" where
  "retrieveAsString b len =
     (let n = min len (readableBytes b) in (peek_n b n, retrieve b n))"

definition retrieveAllAsString :: "Buffer \<Rightarrow> string \<times> Buffer" where
  "retrieveAllAsString b = retrieveAsString b (readableBytes b)"

definition makeSpace :: "Buffer \<Rightarrow> nat \<Rightarrow> Buffer" where
  "makeSpace b len =
     (if writableBytes b + prependableBytes b < len + kPrependSize
      then b\<lparr>buf := vec_resize (write_idx b + len) (buf b)\<rparr>
      else let readable = readableBytes b in
        b\<lparr>buf := std_copy (read_idx b) kPrependSize (write_idx b - read_idx b) (buf b),
          read_idx := kPrependSize,
          write_idx := kPrependSize + readable\<rparr>)"

definition ensureWritableBytes :: "Buffer \<Rightarrow> nat \<Rightarrow> Buffer" where
  "ensureWritableBytes b len = (if writableBytes b < len then makeSpace b len else b)"

definition append_bytes :: "Buffer \<Rightarrow> bytes \<Rightarrow> Buffer" where
  "append_bytes b data =
     (let b1 = ensureWritableBytes b (length data) in
      b1\<lparr>buf := write_at (write_idx b1) data (buf b1), write_idx := write_idx b1 + length data\<rparr>)"

abbreviation extrabuf_size :: nat where "extrabuf_size \<equiv> 65536"

text \<open>The room \<open>readFd\<close> offers to \<open>readv\<close>: the tail, and the stack area if the tail is short.\<close>

definition iov_room :: "Buffer \<Rightarrow> nat" where
  "iov_room b =
     (let writable = writableBytes b
      in if writable < extrabuf_size then writable + extrabuf_size else writable)"

definition readFd :: "Buffer \<Rightarrow> rx list \<Rightarrow> (errno + nat) \<times> Buffer \<times> rx list" where
  "readFd b s =
     (let writable = writableBytes b in
      case readv (iov_room b) s of
        (Inl e, s') \<Rightarrow> (Inl e, b, s')
      | (Inr d, s') \<Rightarrow>
          let n = length d;
              b1 = b\<lparr>buf := write_at (write_idx b) (take writable d) (buf b)\<rparr>
          in if n \<le> writable then (Inr n, b1\<lparr>write_idx := write_idx b + n\<rparr>, s')
             else (Inr n, append_bytes (b1\<lparr>write_idx := length (buf b)\<rparr>) (drop writable d), s'))"

definition shrink :: "Buffer \<Rightarrow> nat \<Rightarrow> Buffer" where
  "shrink b reserve = b\<lparr>buf := vec_resize (write_idx b + reserve) (buf b)\<rparr>"

text \<open>The abstraction and the class invariant.\<close>

definition contents :: "Buffer \<Rightarrow> bytes" where
  "contents b = peek_n b (readableBytes b)"

definition buf_inv :: "Buffer \<Rightarrow> bool" where
  "buf_inv b \<longleftrightarrow> read_idx b \<le> write_idx b \<and> write_idx b \<le> length (buf b)"

definition buf_capacity :: "Buffer \<Rightarrow> nat" where
  "buf_capacity b = prependableBytes b + readableBytes b + writableBytes b"

text \<open>The guard of \<open>makeSpace\<close> as the machine computes it, on 64-bit \<open>size_t\<close> values.\<close>

definition makeSpace_guard_u64 :: "u64 \<Rightarrow> u64 \<Rightarrow> u64 \<Rightarrow> bool" where
  "makeSpace_guard_u64 writable prependable len \<longleftrightarrow> writable + prependable < len + 8"

text \<open>The mutating operations as a sequence, and the queue they implement.\<close>

datatype buf_op = OpAppend bytes | OpRetrieve nat | OpRetrieveAll | OpRetrieveStr nat
  | OpEnsure nat | OpShrink nat

fun buf_step :: "Buffer \<Rightarrow> buf_op \<Rightarrow> string \<times> Buffer" where
  "buf_step b (OpAppend d) = ([], append_bytes b d)"
| "buf_step b (OpRetrieve n) = ([], retrieve b n)"
| "buf_step b OpRetrieveAll = ([], retrieveAll b)"
| "buf_step b (OpRetrieveStr n) = retrieveAsString b n"
| "buf_step b (OpEnsure n) = ([], ensureWritableBytes b n)"
| "buf_step b (OpShrink n) = ([], shrink b n)"

fun queue_step :: "bytes \<Rightarrow> buf_op \<Rightarrow> string \<times> bytes" where
  "queue_step q (OpAppend d) = ([], q @ d)"
| "queue_step q (OpRetrieve n) = ([], drop n q)"
| "queue_step q OpRetrieveAll = ([], [])"
| "queue_step q (OpRetrieveStr n) = (take n q, drop n q)"
| "queue_step q (OpEnsure n) = ([], q)"
| "queue_step q (OpShrink n) = ([], q)"

fun buf_run :: "Buffer \<Rightarrow> buf_op list \<Rightarrow> string list \<times> Buffer" where
  "buf_run b [] = ([], b)"
| "buf_run b (op # ops) =
     (let (out, b1) = buf_step b op; (outs, b2) = buf_run b1 ops in (out # outs, b2))"

fun queue_run :: "bytes \<Rightarrow> buf_op list \<Rightarrow> string list \<times> bytes" where
  "queue_run q [] = ([], q)"
| "queue_run q (op # ops) =
     (let (out, q1) = queue_step q op; (outs, q2) = queue_run q1 ops in (out # outs, q2))"

section \<open>The interface the parser and the connection rely on\<close>

locale byte_buffer =
  fixes inv :: "'b \<Rightarrow> bool"
    and bytes_of :: "'b \<Rightarrow> bytes"
    and put :: "'b \<Rightarrow> bytes \<Rightarrow> 'b"
    and get :: "'b \<Rightarrow> nat \<Rightarrow> 'b"
    and find_line :: "'b \<Rightarrow> nat option"
  assumes inv_put: "inv b \<Longrightarrow> inv (put b d)"
    and inv_get: "inv b \<Longrightarrow> inv (get b n)"
    and bytes_put: "inv b \<Longrightarrow> bytes_of (put b d) = bytes_of b @ d"
    and bytes_get: "inv b \<Longrightarrow> bytes_of (get b n) = drop n (bytes_of b)"
    and find_line_eq: "inv b \<Longrightarrow> find_line b = search CRLF (bytes_of b)"
begin

lemma line_stable: "inv b \<Longrightarrow> find_line b = Some i \<Longrightarrow> find_line (put b d) = Some i"
  by (simp add: find_line_eq inv_put bytes_put search_append)

lemma line_split:
  "inv b \<Longrightarrow> find_line b = Some i \<Longrightarrow>
   bytes_of b = take i (bytes_of b) @ CRLF @ bytes_of (get b (i + 2))"
  using search_CRLF_split by (simp add: find_line_eq bytes_get)

lemma get_line_shorter:
  "inv b \<Longrightarrow> find_line b = Some i \<Longrightarrow> length (bytes_of (get b (i + 2))) < length (bytes_of b)"
  using search_SomeD [of CRLF "bytes_of b" i] by (auto simp: find_line_eq bytes_get)

lemma put_get_comm:
  "inv b \<Longrightarrow> n \<le> length (bytes_of b) \<Longrightarrow>
   bytes_of (get (put b d) n) = bytes_of (put (get b n) d)"
  by (simp add: inv_put inv_get bytes_put bytes_get)

end

section \<open>Every operation keeps the invariant and acts on the queue\<close>

lemma contents_eq: "buf_inv b \<Longrightarrow> contents b = take (write_idx b - read_idx b) (drop (read_idx b) (buf b))"
  by (simp add: contents_def peek_n_def readableBytes_def)

lemma readableBytes_contents: "buf_inv b \<Longrightarrow> readableBytes b = length (contents b)"
  by (auto simp: contents_eq readableBytes_def buf_inv_def)

lemma peek_n_contents: "buf_inv b \<Longrightarrow> n \<le> length (contents b) \<Longrightarrow> peek_n b n = take n (contents b)"
  by (simp add: contents_eq peek_n_def buf_inv_def)

lemma buf_inv_new [simp]: "buf_inv (Buffer_new n)"
  by (simp add: buf_inv_def Buffer_new_def)

lemma contents_new [simp]: "contents (Buffer_new n) = []"
  by (simp add: contents_def peek_n_def readableBytes_def Buffer_new_def)

lemma buf_inv_retrieve [simp]: "buf_inv b \<Longrightarrow> buf_inv (retrieve b n)"
  by (auto simp: buf_inv_def retrieve_def retrieveAll_def readableBytes_def)

lemma contents_retrieveAll [simp]: "contents (retrieveAll b) = []"
  by (simp add: contents_def peek_n_def readableBytes_def retrieveAll_def)

lemma buf_inv_retrieveAll [simp]: "buf_inv (retrieveAll b)"
  by (simp add: buf_inv_def retrieveAll_def)

lemma contents_retrieve [buf_simps]:
  assumes "buf_inv b"
  shows "contents (retrieve b n) = drop n (contents b)"
proof (cases "readableBytes b \<le> n")
  case True
  then show ?thesis using assms by (simp add: retrieve_def readableBytes_contents)
next
  case False
  with assms have "buf_inv (b\<lparr>read_idx := read_idx b + n\<rparr>)"
    by (auto simp: buf_inv_def readableBytes_def)
  with False assms show ?thesis
    by (simp add: retrieve_def contents_eq drop_take add.commute)
qed

lemma retrieveAsString_eq [buf_simps]:
  assumes "buf_inv b"
  shows "retrieveAsString b n = (take n (contents b), retrieve b (min n (length (contents b))))"
  using assms by (simp add: retrieveAsString_def Let_def readableBytes_contents peek_n_contents min_def)

lemma findCRLF_eq [buf_simps]:
  assumes "buf_inv b"
  shows "findCRLF b k = map_option (\<lambda>i. k + i) (search CRLF (drop k (contents b)))"
proof (cases "readableBytes b \<le> k")
  case True
  then have "drop k (contents b) = []" using assms by (simp add: readableBytes_contents)
  with True show ?thesis by (simp add: findCRLF_def)
next
  case False
  then show ?thesis
    by (simp add: findCRLF_def Let_def contents_def split: option.splits)
qed

text \<open>
  \<open>makeSpace\<close> compacts only when the discarded prefix is longer than the prepend area, so the
  bytes always move towards the front and the element-wise copy never reads a byte it has
  already overwritten.
\<close>

lemma makeSpace_moves_left:
  assumes "writableBytes b < len" "\<not> writableBytes b + prependableBytes b < len + kPrependSize"
  shows "kPrependSize < read_idx b"
  using assms by (simp add: prependableBytes_def)

lemma makeSpace_compact:
  assumes inv: "buf_inv b" and w: "writableBytes b < len"
    and g: "\<not> writableBytes b + prependableBytes b < len + kPrependSize"
  shows "buf_inv (makeSpace b len)" and "contents (makeSpace b len) = contents b"
    and "length (buf (makeSpace b len)) = length (buf b)"
    and "len \<le> writableBytes (makeSpace b len)"
proof -
  let ?n = "write_idx b - read_idx b"
  have left: "kPrependSize < read_idx b" using makeSpace_moves_left [OF w g] .
  have copy: "std_copy (read_idx b) kPrependSize ?n (buf b) =
      take kPrependSize (buf b) @ take ?n (drop (read_idx b) (buf b)) @ drop (kPrependSize + ?n) (buf b)"
    using inv left by (intro std_copy_leftwards) (auto simp: buf_inv_def)
  have ms: "makeSpace b len = b\<lparr>buf := std_copy (read_idx b) kPrependSize ?n (buf b),
      read_idx := kPrependSize, write_idx := kPrependSize + ?n\<rparr>"
    using g by (simp add: makeSpace_def Let_def readableBytes_def)
  show "buf_inv (makeSpace b len)" using inv left by (auto simp: ms buf_inv_def)
  then show "contents (makeSpace b len) = contents b"
    using inv left by (simp add: contents_eq) (auto simp: ms copy buf_inv_def min_def)
  show "length (buf (makeSpace b len)) = length (buf b)" by (simp add: ms)
  show "len \<le> writableBytes (makeSpace b len)"
    using inv left g by (auto simp: ms writableBytes_def prependableBytes_def buf_inv_def)
qed

lemma makeSpace_grow:
  assumes inv: "buf_inv b" and w: "writableBytes b < len"
    and g: "writableBytes b + prependableBytes b < len + kPrependSize"
  shows "buf_inv (makeSpace b len)" and "contents (makeSpace b len) = contents b"
    and "length (buf (makeSpace b len)) = write_idx b + len"
    and "len \<le> writableBytes (makeSpace b len)"
proof -
  have ms: "makeSpace b len = b\<lparr>buf := vec_resize (write_idx b + len) (buf b)\<rparr>"
    using g by (simp add: makeSpace_def)
  have len: "length (buf b) \<le> write_idx b + len" using inv w by (auto simp: writableBytes_def buf_inv_def)
  show "buf_inv (makeSpace b len)" using inv by (simp add: ms buf_inv_def)
  then show "contents (makeSpace b len) = contents b"
    using inv len by (simp add: contents_eq) (simp add: ms vec_resize_def buf_inv_def)
  show "length (buf (makeSpace b len)) = write_idx b + len" by (simp add: ms)
  show "len \<le> writableBytes (makeSpace b len)" by (simp add: ms writableBytes_def)
qed

lemma ensureWritableBytes_inv [simp]: "buf_inv b \<Longrightarrow> buf_inv (ensureWritableBytes b len)"
  using makeSpace_compact(1) makeSpace_grow(1) by (auto simp: ensureWritableBytes_def)

lemma contents_ensureWritableBytes [buf_simps]:
  "buf_inv b \<Longrightarrow> contents (ensureWritableBytes b len) = contents b"
  using makeSpace_compact(2) makeSpace_grow(2) by (auto simp: ensureWritableBytes_def)

lemma ensureWritableBytes_room: "buf_inv b \<Longrightarrow> len \<le> writableBytes (ensureWritableBytes b len)"
  using makeSpace_compact(4) makeSpace_grow(4) by (auto simp: ensureWritableBytes_def)

text \<open>Filling the free tail, the step that \<open>append\<close> and \<open>readFd\<close> share.\<close>

lemma fill_tail:
  assumes "buf_inv b" "length d \<le> writableBytes b"
  defines "b' \<equiv> b\<lparr>buf := write_at (write_idx b) d (buf b), write_idx := write_idx b + length d\<rparr>"
  shows "buf_inv b'" and "contents b' = contents b @ d"
proof -
  have fits: "write_idx b + length d \<le> length (buf b)"
    using assms by (auto simp: buf_inv_def writableBytes_def)
  show inv: "buf_inv b'" using assms fits by (simp add: b'_def buf_inv_def)
  show "contents b' = contents b @ d"
    using assms(1) fits unfolding contents_eq [OF inv] contents_eq [OF assms(1)]
    by (simp add: b'_def write_at_eq buf_inv_def Nat.diff_diff_right take_drop)
qed

lemma append_bytes_inv [simp]: "buf_inv b \<Longrightarrow> buf_inv (append_bytes b d)"
  using fill_tail(1) [OF ensureWritableBytes_inv ensureWritableBytes_room]
  by (simp add: append_bytes_def Let_def)

lemma contents_append_bytes [buf_simps]:
  "buf_inv b \<Longrightarrow> contents (append_bytes b d) = contents b @ d"
  using fill_tail(2) [OF ensureWritableBytes_inv ensureWritableBytes_room]
  by (simp add: append_bytes_def Let_def contents_ensureWritableBytes)

lemma shrink_inv [simp]: "buf_inv b \<Longrightarrow> buf_inv (shrink b n)"
  by (simp add: buf_inv_def shrink_def)

lemma contents_shrink [buf_simps]: "buf_inv b \<Longrightarrow> contents (shrink b n) = contents b"
  using shrink_inv [of b n]
  by (simp add: contents_eq) (auto simp: shrink_def vec_resize_def buf_inv_def drop_take min_def)

interpretation conn_buffer: byte_buffer buf_inv contents append_bytes retrieve "\<lambda>b. findCRLF b 0"
  by unfold_locales (simp_all add: buf_simps option.map_ident)

lemma buf_step_refines:
  "buf_inv b \<Longrightarrow> buf_step b op = (out, b') \<Longrightarrow>
   buf_inv b' \<and> queue_step (contents b) op = (out, contents b')"
  by (cases op) (auto simp: buf_simps min_def)

lemma append_bytes_length:
  "buf_inv b \<Longrightarrow> length (buf (append_bytes b d)) =
     (if writableBytes b < length d \<and> writableBytes b + prependableBytes b < length d + kPrependSize
      then write_idx b + length d else length (buf b))"
  using makeSpace_compact(3) [of b "length d"] makeSpace_grow(3) [of b "length d"]
  by (auto simp: append_bytes_def ensureWritableBytes_def Let_def)

lemma readFd_Inl: "readv (iov_room b) s = (Inl e, s') \<Longrightarrow> readFd b s = (Inl e, b, s')"
  by (simp add: readFd_def Let_def)

lemma readFd_Inr:
  assumes inv: "buf_inv b" and rd: "readv (iov_room b) s = (Inr d, s')"
  shows "\<exists>b'. readFd b s = (Inr (length d), b', s') \<and> buf_inv b' \<and> contents b' = contents b @ d"
proof (cases "length d \<le> writableBytes b")
  case True
  then show ?thesis using fill_tail [OF inv True] rd by (simp add: readFd_def Let_def)
next
  case False
  let ?w = "writableBytes b"
  let ?b1 = "b\<lparr>buf := write_at (write_idx b) (take ?w d) (buf b), write_idx := length (buf b)\<rparr>"
  have "write_idx b + length (take ?w d) = length (buf b)"
    using False inv by (simp add: writableBytes_def buf_inv_def)
  with fill_tail [OF inv, of "take ?w d"] have "buf_inv ?b1" "contents ?b1 = contents b @ take ?w d"
    by simp_all
  with False rd show ?thesis by (simp add: readFd_def Let_def buf_simps)
qed

section \<open>Properties\<close>

text \<open>
  C21: the buffer is a first-in first-out byte queue. Whatever sequence of appends, retrieves,
  space reservations and shrinks runs on a well-formed buffer, the strings handed out and the
  bytes left to read are those of a plain list that is appended to at the end and dropped from
  at the front, and the index invariant holds afterwards: no growth or compaction ever loses,
  duplicates or reorders a byte.
\<close>

theorem buffer_refines_queue:
  assumes "buf_inv b"
  shows "buf_inv (snd (buf_run b ops)) \<and>
         queue_run (contents b) ops = (fst (buf_run b ops), contents (snd (buf_run b ops)))"
  using assms
proof (induction ops arbitrary: b)
  case Nil
  then show ?case by simp
next
  case (Cons op ops)
  obtain out b1 where st: "buf_step b op = (out, b1)" by fastforce
  then have "buf_inv b1" "queue_step (contents b) op = (out, contents b1)"
    using buf_step_refines Cons.prems by blast+
  with Cons.IH [of b1] st show ?case by (simp add: case_prod_beta)
qed

theorem buffer_refines_queue_witness:
  "buf_inv (Buffer_new 16) \<and>
   buf_run (Buffer_new 16) [OpAppend ''hello'', OpRetrieveStr 2, OpAppend ''0123456789abcdef'', OpRetrieveStr 99]
     = ([[], ''he'', [], ''llo0123456789abcdef''], (Buffer_new 0)\<lparr>buf := ''hello0123456789abcdef''\<rparr>) \<and>
   queue_run [] [OpAppend ''hello'', OpRetrieveStr 2, OpAppend ''0123456789abcdef'', OpRetrieveStr 99]
     = ([[], ''he'', [], ''llo0123456789abcdef''], [])"
proof -
  let ?ops = "[OpAppend ''hello'', OpRetrieveStr 2, OpAppend ''0123456789abcdef'', OpRetrieveStr 99]"
  have run: "buf_run (Buffer_new 16) ?ops =
     ([[], ''he'', [], ''llo0123456789abcdef''], (Buffer_new 0)\<lparr>buf := ''hello0123456789abcdef''\<rparr>)"
    by code_simp
  show ?thesis using buffer_refines_queue [OF buf_inv_new, of 16 ?ops] 
    by (simp only: run) (simp add: contents_def peek_n_def readableBytes_def buf_inv_def Buffer_new_def)
qed

text \<open>
  When \<open>ensureWritableBytes\<close> finds too little room at the tail it either compacts or grows.
  It compacts exactly when the discarded prefix and the tail together hold the new bytes and the
  prepend area, and then the vector keeps its size, the bytes move strictly towards the front (so
  the overlapping \<open>std::copy\<close> is safe) and land at \<open>kPrependSize\<close>. Either way the readable bytes
  are unchanged and the requested room is there.
\<close>

lemma ensureWritable_compacts_or_grows:
  assumes "buf_inv b" "writableBytes b < len"
  defines "b' \<equiv> ensureWritableBytes b len"
  shows "contents b' = contents b \<and> len \<le> writableBytes b' \<and>
    (if len + kPrependSize \<le> writableBytes b + prependableBytes b
     then kPrependSize < read_idx b \<and> read_idx b' = kPrependSize \<and> buf_capacity b' = buf_capacity b
     else read_idx b' = read_idx b \<and> buf_capacity b' = write_idx b + len)"
proof (cases "len + kPrependSize \<le> writableBytes b + prependableBytes b")
  case True
  then have g: "\<not> writableBytes b + prependableBytes b < len + kPrependSize" by simp
  note c = makeSpace_compact [OF assms(1,2) g]
  have e: "b' = makeSpace b len" "read_idx (makeSpace b len) = kPrependSize"
    using assms(2) g by (simp_all add: b'_def ensureWritableBytes_def makeSpace_def Let_def)
  from c(1,3) assms(1) have "buf_capacity (makeSpace b len) = buf_capacity b"
    by (simp add: buf_capacity_def buf_inv_def prependableBytes_def readableBytes_def writableBytes_def)
  with c e True makeSpace_moves_left [OF assms(2) g] show ?thesis by simp
next
  case False
  then have g: "writableBytes b + prependableBytes b < len + kPrependSize" by simp
  note c = makeSpace_grow [OF assms(1,2) g]
  have e: "b' = makeSpace b len" "read_idx (makeSpace b len) = read_idx b"
    using assms(2) g by (simp_all add: b'_def ensureWritableBytes_def makeSpace_def)
  from c(1,3) have "buf_capacity (makeSpace b len) = write_idx b + len"
    by (simp add: buf_capacity_def buf_inv_def prependableBytes_def readableBytes_def writableBytes_def)
  with c e False show ?thesis by simp
qed

lemma ensureWritable_compacts_or_grows_witness:
  "let b = \<lparr>buf = replicate 64 CHR ''a'', read_idx = 40, write_idx = 44\<rparr> in
   buf_inv b \<and> writableBytes b < 30 \<and> 30 + kPrependSize \<le> writableBytes b + prependableBytes b \<and>
   buf_capacity (ensureWritableBytes b 30) = 64 \<and> read_idx (ensureWritableBytes b 30) = 8"
proof -
  let ?b = "\<lparr>buf = replicate 64 CHR ''a'', read_idx = 40, write_idx = 44\<rparr>"
  have h: "buf_inv ?b" "writableBytes ?b < 30" by (simp_all add: buf_inv_def writableBytes_def)
  have n: "writableBytes ?b = 20" "prependableBytes ?b = 40" "buf_capacity ?b = 64" "kPrependSize = 8"
    by (simp_all add: writableBytes_def prependableBytes_def buf_capacity_def readableBytes_def kPrependSize_def)
  show ?thesis using h(1) ensureWritable_compacts_or_grows [OF h] by (simp add: Let_def n)
qed

text \<open>
  The vector never grows beyond what the data needs: an append either leaves its size alone or
  sets it to the old write index plus the bytes appended, and it leaves it alone whenever the free
  tail is large enough or tail and discarded prefix together can hold the bytes and the prepend area.
\<close>

lemma append_capacity:
  assumes "buf_inv b"
  shows "buf_capacity (append_bytes b d) =
    (if length d \<le> writableBytes b \<or> length d + kPrependSize \<le> writableBytes b + prependableBytes b
     then buf_capacity b else write_idx b + length d)"
  using append_bytes_length [OF assms, of d] append_bytes_inv [OF assms, of d] assms
  by (auto simp: buf_capacity_def buf_inv_def prependableBytes_def readableBytes_def writableBytes_def)

text \<open>
  \<open>readFd\<close> puts exactly the bytes one \<open>readv\<close> call delivered behind the bytes that were waiting,
  whether they fit in the tail or spill into the 64 KB stack area, and returns their number; on an
  error the buffer is untouched. The call always offers the kernel at least 64 KB.
\<close>

lemma readFd_appends:
  assumes "buf_inv b"
  shows "65536 \<le> iov_room b \<and>
    (case readv (iov_room b) s of
      (Inl e, s') \<Rightarrow> readFd b s = (Inl e, b, s')
    | (Inr d, s') \<Rightarrow>
        \<exists>b'. readFd b s = (Inr (length d), b', s') \<and> buf_inv b' \<and> contents b' = contents b @ d)"
  using readFd_Inl readFd_Inr [OF assms]
  by (auto simp: iov_room_def Let_def split: prod.split sum.split)

lemma readFd_appends_witness:
  "buf_inv (Buffer_new 4) \<and>
   (\<exists>b'. readFd (Buffer_new 4) [Rx ''abcdefgh''] = (Inr (length ''abcdefgh''), b', []) \<and> buf_inv b' \<and> contents b' = ''abcdefgh'')"
proof -
  have "iov_room (Buffer_new 4) = 65540" by (simp add: iov_room_def writableBytes_def Buffer_new_def)
  then have "readv (iov_room (Buffer_new 4)) [Rx ''abcdefgh''] = (Inr ''abcdefgh'', [])" by simp
  with readFd_appends [OF buf_inv_new, of 4 "[Rx ''abcdefgh'']"] show ?thesis
    by (simp del: readv.simps)
qed

text \<open>
  \<open>findCRLF\<close> returns the first position at or after the offset where CR LF stands in the
  readable bytes, as an offset from the start of the readable area, and \<open>npos\<close> exactly when there
  is none; a lone CR at the end of the data is not a line end.
\<close>

lemma findCRLF_first:
  assumes "buf_inv b"
  shows "findCRLF b k = Some i \<longleftrightarrow>
    k \<le> i \<and> i + 1 < readableBytes b \<and> contents b ! i = CR \<and> contents b ! (i + 1) = LF \<and>
    (\<forall>j. k \<le> j \<and> j < i \<longrightarrow> \<not> (contents b ! j = CR \<and> contents b ! (j + 1) = LF))"
proof -
  let ?c = "contents b"
  have "findCRLF b k = Some i \<longleftrightarrow> k \<le> i \<and> search CRLF (drop k ?c) = Some (i - k)"
    using assms by (auto simp: findCRLF_eq)
  also have "\<dots> \<longleftrightarrow> k \<le> i \<and> prefix CRLF (drop i ?c) \<and> (\<forall>j < i - k. \<not> prefix CRLF (drop (j + k) ?c))"
    by (auto simp: search_Some_iff prefix_CRLF_drop)
  also have "\<dots> \<longleftrightarrow> k \<le> i \<and> prefix CRLF (drop i ?c) \<and> (\<forall>j. k \<le> j \<and> j < i \<longrightarrow> \<not> prefix CRLF (drop j ?c))"
    by (metis diff_less_mono le_add2 le_add_diff_inverse2 less_diff_conv)
  finally show ?thesis by (auto simp: prefix_CRLF_drop readableBytes_contents [OF assms])
qed

text \<open>
  The 64-bit sum in the guard of \<open>makeSpace\<close> does not wrap for any vector and any request that
  an object can have (sizes below \<open>2 ^ 63\<close>), so the machine decides as the arithmetic on naturals
  does; for a request of \<open>2 ^ 64 - 1\<close> bytes it would wrap and choose to compact.
\<close>

lemma makeSpace_guard_u64_exact:
  assumes "length (buf b) < 2 ^ 63" "buf_inv b" "len < 2 ^ 63"
  shows "makeSpace_guard_u64 (of_nat (writableBytes b)) (of_nat (prependableBytes b)) (of_nat len) =
           (writableBytes b + prependableBytes b < len + kPrependSize) \<and>
         unat (of_nat (write_idx b) + of_nat len :: u64) = write_idx b + len \<and>
         \<not> makeSpace_guard_u64 1024 0 (- 1)"
proof -
  have b: "writableBytes b + prependableBytes b < 2 ^ 63" "write_idx b < 2 ^ 63"
    using assms by (auto simp: buf_inv_def writableBytes_def prependableBytes_def)
  have u: "unat (of_nat n :: u64) = n" if "n < 2 ^ 64" for n
    using that by (simp add: unat_of_nat take_bit_nat_eq_self)
  have "unat (of_nat (writableBytes b + prependableBytes b) :: u64) = writableBytes b + prependableBytes b"
    "unat (of_nat (len + 8) :: u64) = len + 8" "unat (of_nat (write_idx b + len) :: u64) = write_idx b + len"
    using b assms(3) by (intro u; simp)+
  then show ?thesis
    by (simp add: makeSpace_guard_u64_def word_less_nat_alt kPrependSize_def)
qed

end
