(* ===== verification/Http.thy ===== *)
theory Http
  imports WS_Prelude
begin

text \<open>
  Requests and responses, \<open>include/ws/http.h\<close> and \<open>src/http.cpp\<close>: the two structs, the
  case-insensitive comparison, the header lookups, the keep-alive rule and the serialisation of a
  response. A \<open>std::map<std::string, std::string>\<close> is a list of pairs in ascending byte order of
  the keys (\<open>map_put\<close>, \<open>map_ok\<close> of the prelude), the order in which \<open>toString\<close> walks it.
\<close>

section \<open>Definitions\<close>

type_synonym headers = "(string \<times> string) list"

record HttpRequest =
  req_method :: string
  req_path :: string
  req_query :: string
  req_version :: string
  req_headers :: headers
  req_body :: string

record HttpResponse =
  status :: int
  reason :: string
  resp_headers :: headers
  resp_body :: string
  close_connection :: bool

definition HttpRequest_new :: HttpRequest where
  "HttpRequest_new = \<lparr>req_method = [], req_path = [], req_query = [], req_version = [],
     req_headers = [], req_body = []\<rparr>"

definition HttpResponse_new :: HttpResponse where
  "HttpResponse_new = \<lparr>status = 200, reason = [], resp_headers = [], resp_body = [],
     close_connection = False\<rparr>"

definition iequals :: "string \<Rightarrow> string \<Rightarrow> bool" where
  "iequals a b \<longleftrightarrow>
     length a = length b \<and> (\<forall>i \<in> set [0..<length a]. tolower (a ! i) = tolower (b ! i))"

definition getHeader :: "HttpRequest \<Rightarrow> string \<Rightarrow> string" where
  "getHeader req key = (case map_of (req_headers req) key of None \<Rightarrow> [] | Some v \<Rightarrow> v)"

definition hasHeader :: "HttpRequest \<Rightarrow> string \<Rightarrow> bool" where
  "hasHeader req key \<longleftrightarrow> map_of (req_headers req) key \<noteq> None"

definition keepAlive :: "HttpRequest \<Rightarrow> bool" where
  "keepAlive req =
     (let conn = getHeader req ''connection'' in
      if req_version req = ''HTTP/1.0'' then iequals conn ''keep-alive''
      else \<not> iequals conn ''close'')"

definition HttpRequest_clear :: "HttpRequest \<Rightarrow> HttpRequest" where
  "HttpRequest_clear req = req\<lparr>req_method := [], req_path := [], req_query := [],
     req_version := [], req_headers := [], req_body := []\<rparr>"

definition reasonPhrase :: "int \<Rightarrow> string" where
  "reasonPhrase st =
     (if st = 100 then ''Continue''
      else if st = 200 then ''OK''
      else if st = 201 then ''Created''
      else if st = 204 then ''No Content''
      else if st = 301 then ''Moved Permanently''
      else if st = 302 then ''Found''
      else if st = 304 then ''Not Modified''
      else if st = 400 then ''Bad Request''
      else if st = 403 then ''Forbidden''
      else if st = 404 then ''Not Found''
      else if st = 405 then ''Method Not Allowed''
      else if st = 408 then ''Request Timeout''
      else if st = 411 then ''Length Required''
      else if st = 413 then ''Payload Too Large''
      else if st = 414 then ''URI Too Long''
      else if st = 431 then ''Request Header Fields Too Large''
      else if st = 500 then ''Internal Server Error''
      else if st = 501 then ''Not Implemented''
      else if st = 503 then ''Service Unavailable''
      else ''Unknown'')"

definition text_plain :: string where
  "text_plain = ''text/plain; charset=utf-8''"

definition HttpResponse_make :: "int \<Rightarrow> string \<Rightarrow> string \<Rightarrow> HttpResponse" where
  "HttpResponse_make st body content_type =
     HttpResponse_new\<lparr>status := st, resp_body := body,
       resp_headers := map_put ''Content-Type'' content_type []\<rparr>"

definition setHeader :: "HttpResponse \<Rightarrow> string \<Rightarrow> string \<Rightarrow> HttpResponse" where
  "setHeader r key value = r\<lparr>resp_headers := map_put key value (resp_headers r)\<rparr>"

definition header_line :: "string \<times> string \<Rightarrow> string" where
  "header_line kv = fst kv @ '': '' @ snd kv @ CRLF"

definition status_line :: "HttpResponse \<Rightarrow> string" where
  "status_line r = ''HTTP/1.1 '' @ int_to_string (status r) @ '' '' @
     (if reason r = [] then reasonPhrase (status r) else reason r) @ CRLF"

definition toString :: "HttpResponse \<Rightarrow> string" where
  "toString r =
     status_line r @ concat (map header_line (resp_headers r)) @
     (if map_of (resp_headers r) ''Content-Length'' = None
      then ''Content-Length: '' @ to_string (length (resp_body r)) @ CRLF else []) @
     CRLF @ resp_body r"

section \<open>Lemmas\<close>

lemma iequals_map: "iequals a b \<longleftrightarrow> map tolower a = map tolower b"
proof
  assume "iequals a b"
  then show "map tolower a = map tolower b"
    by (intro nth_equalityI) (auto simp: iequals_def)
next
  assume eq: "map tolower a = map tolower b"
  then have len: "length a = length b" by (rule map_eq_imp_length_eq)
  have "tolower (a ! i) = tolower (b ! i)" if "i < length a" for i
    using that len arg_cong [OF eq, of "\<lambda>xs. xs ! i"] by simp
  with len show "iequals a b" by (simp add: iequals_def)
qed

lemma iequals_refl [simp]: "iequals a a"
  by (simp add: iequals_map)

lemma getHeader_Nil [simp]: "req_headers req = [] \<Longrightarrow> getHeader req key = []"
  by (simp add: getHeader_def)

lemma HttpRequest_clear_new [simp]: "HttpRequest_clear req = HttpRequest_new"
  by (simp add: HttpRequest_clear_def HttpRequest_new_def)

lemma iequals_Nil [simp]: "iequals [] b \<longleftrightarrow> b = []"
  by (auto simp: iequals_map)

section \<open>Properties\<close>

text \<open>
  Whether a connection persists after a request. With version \<open>HTTP/1.0\<close> it does only if the
  Connection header is \<open>keep-alive\<close>, with any other version unless the header is \<open>close\<close>, letter
  case ignored; without the header the default is to close for 1.0 and to persist otherwise.
\<close>

lemma keepAlive_rule:
  "keepAlive req \<longleftrightarrow>
     (case map_of (req_headers req) ''connection'' of
        None \<Rightarrow> req_version req \<noteq> ''HTTP/1.0''
      | Some v \<Rightarrow> if req_version req = ''HTTP/1.0'' then map tolower v = ''keep-alive''
                  else map tolower v \<noteq> ''close'')"
proof -
  have "map tolower ''keep-alive'' = ''keep-alive''" "map tolower ''close'' = ''close''"
    by code_simp+
  then show ?thesis
    by (auto simp: keepAlive_def getHeader_def iequals_map split: option.splits)
qed

end
