(* ===== verification/Http_Parser.thy ===== *)
theory Http_Parser
  imports Buffer Http
begin

text \<open>
  The incremental request parser, \<open>include/ws/http_parser.h\<close> and \<open>src/http_parser.cpp\<close>. The
  first section is the code: the line helpers, the three state handlers on a \<open>Buffer\<close>, the driving
  loop and \<open>reset\<close>. What a handler does with one complete line is a function of its own
  (\<open>requestLine\<close>, \<open>headerLine\<close>, \<open>headersEnd\<close>), \<open>None\<close> standing for the branches that set the
  state to ERROR. The second section is the specification level: the same machine on the list of
  unread bytes (\<open>aparse\<close>), to which the buffer-level parser is shown to be equal. The properties
  are proved on byte lists and carried over.
\<close>

section \<open>Definitions\<close>

datatype Ret = OK | INCOMPLETE | ERROR

datatype State = REQUEST_LINE | HEADERS | BODY | COMPLETE | STATE_ERROR

record HttpParser =
  pstate :: State
  request :: HttpRequest
  content_length :: nat

definition HttpParser_new :: HttpParser where
  "HttpParser_new = \<lparr>pstate = REQUEST_LINE, request = HttpRequest_new, content_length = 0\<rparr>"

definition kMaxRequestLine :: nat where "kMaxRequestLine = 8 * 1024"
definition kMaxHeaderCount :: nat where "kMaxHeaderCount = 100"
definition kMaxBody :: nat where "kMaxBody = 8 * 1024 * 1024"

definition toLower :: "string \<Rightarrow> string" where
  "toLower s = map tolower s"

definition trim :: "string \<Rightarrow> string" where
  "trim s = rev (dropWhile isspace (rev (dropWhile isspace s)))"

definition peekLine :: "Buffer \<Rightarrow> (string \<times> nat) option" where
  "peekLine b = (case findCRLF b 0 of None \<Rightarrow> None | Some crlf \<Rightarrow> Some (peek_n b crlf, crlf + 2))"

definition parser_error :: "HttpParser \<Rightarrow> HttpParser" where
  "parser_error p = p\<lparr>pstate := STATE_ERROR\<rparr>"

text \<open>The request line cut at its first two blanks, and the target split at the question mark.\<close>

definition splitRequestLine :: "string \<Rightarrow> (string \<times> string \<times> string) option" where
  "splitRequestLine line =
     (case str_find CHR '' '' 0 line of
        None \<Rightarrow> None
      | Some sp1 \<Rightarrow> (case str_find CHR '' '' (sp1 + 1) line of
          None \<Rightarrow> None
        | Some sp2 \<Rightarrow>
            Some (take sp1 line, take (sp2 - sp1 - 1) (drop (sp1 + 1) line), drop (sp2 + 1) line)))"

definition storeTarget :: "HttpRequest \<Rightarrow> string \<Rightarrow> HttpRequest" where
  "storeTarget r target =
     (let r = (case str_find CHR ''?'' 0 target of
                 None \<Rightarrow> r\<lparr>req_path := target\<rparr>
               | Some q \<Rightarrow> r\<lparr>req_path := take q target, req_query := drop (q + 1) target\<rparr>)
      in if req_path r = [] then r\<lparr>req_path := ''/''\<rparr> else r)"

definition requestLine :: "HttpParser \<Rightarrow> string \<Rightarrow> HttpParser option" where
  "requestLine p line =
     (if kMaxRequestLine < length line \<or> line = [] then None
      else case splitRequestLine line of
        None \<Rightarrow> None
      | Some (meth, target, version) \<Rightarrow>
          if meth = [] \<or> length version < 8 \<or> take 7 version \<noteq> ''HTTP/1.'' then None
          else Some (p\<lparr>request := storeTarget ((request p)\<lparr>req_method := meth, req_version := version\<rparr>) target,
                       pstate := HEADERS\<rparr>))"

definition parseRequestLine :: "HttpParser \<Rightarrow> Buffer \<Rightarrow> Ret \<times> HttpParser \<times> Buffer" where
  "parseRequestLine p b =
     (case peekLine b of
        None \<Rightarrow> if kMaxRequestLine < readableBytes b then (ERROR, parser_error p, b)
                else (INCOMPLETE, p, b)
      | Some (line, consumed) \<Rightarrow> (case requestLine p line of
          None \<Rightarrow> (ERROR, parser_error p, b)
        | Some p' \<Rightarrow> (OK, p', retrieve b consumed)))"

definition headersEnd :: "HttpParser \<Rightarrow> HttpParser option" where
  "headersEnd p =
     (let te = getHeader (request p) ''transfer-encoding'' in
      if te \<noteq> [] \<and> \<not> iequals te ''identity'' then None
      else if content_length p = 0 then Some (p\<lparr>pstate := COMPLETE\<rparr>)
      else if kMaxBody < content_length p then None
      else Some (p\<lparr>pstate := BODY\<rparr>))"

definition headerLine :: "HttpParser \<Rightarrow> string \<Rightarrow> HttpParser option" where
  "headerLine p line =
     (if kMaxHeaderCount \<le> length (req_headers (request p)) then None
      else case str_find CHR '':'' 0 line of
        None \<Rightarrow> None
      | Some colon \<Rightarrow>
          let key = toLower (trim (take colon line));
              value = trim (drop (colon + 1) line);
              store = (\<lambda>p. p\<lparr>request := (request p)\<lparr>req_headers :=
                         map_put key value (req_headers (request p))\<rparr>\<rparr>)
          in if key = [] then None
             else if key = ''content-length'' then
               (let (v, converted) = strtoll value in
                if \<not> converted \<or> v < 0 then None else Some (store (p\<lparr>content_length := nat v\<rparr>)))
             else Some (store p))"

function parseHeaders :: "HttpParser \<Rightarrow> Buffer \<Rightarrow> Ret \<times> HttpParser \<times> Buffer" where
  "parseHeaders p b =
     (case peekLine b of
        None \<Rightarrow> if kMaxRequestLine < readableBytes b then (ERROR, parser_error p, b)
                else (INCOMPLETE, p, b)
      | Some (line, consumed) \<Rightarrow>
          let b = retrieve b consumed in
          if line = [] then
            (case headersEnd p of None \<Rightarrow> (ERROR, parser_error p, b) | Some p' \<Rightarrow> (OK, p', b))
          else
            (case headerLine p line of
               None \<Rightarrow> (ERROR, parser_error p, b)
             | Some p' \<Rightarrow> parseHeaders p' b))"
  by pat_completeness auto
termination
proof (relation "measure (\<lambda>(p, b). readableBytes b)", goal_cases)
  case (2 p b x2 line consumed x p')
  then have "0 < readableBytes b" "0 < consumed"
    by (auto simp: peekLine_def findCRLF_def Let_def split: option.splits if_splits)
  with 2 show ?case by (auto simp: retrieve_def retrieveAll_def readableBytes_def)
qed simp

declare parseHeaders.simps [simp del]

definition parseBody :: "HttpParser \<Rightarrow> Buffer \<Rightarrow> Ret \<times> HttpParser \<times> Buffer" where
  "parseBody p b =
     (if readableBytes b < content_length p then (INCOMPLETE, p, b)
      else let (body, b') = retrieveAsString b (content_length p)
           in (OK, p\<lparr>request := (request p)\<lparr>req_body := body\<rparr>, pstate := COMPLETE\<rparr>, b'))"

definition parser_reset :: "HttpParser \<Rightarrow> HttpParser" where
  "parser_reset p = p\<lparr>pstate := REQUEST_LINE, request := HttpRequest_clear (request p),
     content_length := 0\<rparr>"

text \<open>One turn of the loop in \<open>parse\<close>: run the handler of the current state.\<close>

definition parse_turn :: "HttpParser \<Rightarrow> Buffer \<Rightarrow> Ret \<times> HttpParser \<times> Buffer" where
  "parse_turn p b =
     (case pstate p of
        REQUEST_LINE \<Rightarrow> parseRequestLine p b
      | HEADERS \<Rightarrow> parseHeaders p b
      | BODY \<Rightarrow> parseBody p b
      | COMPLETE \<Rightarrow> (OK, p, b)
      | STATE_ERROR \<Rightarrow> (ERROR, p, b))"

text \<open>How far a state is from the end of the request: every successful turn lowers it.\<close>

fun state_rank :: "State \<Rightarrow> nat" where
  "state_rank REQUEST_LINE = 3"
| "state_rank HEADERS = 2"
| "state_rank BODY = 1"
| "state_rank COMPLETE = 0"
| "state_rank STATE_ERROR = 0"

lemma requestLine_state: "requestLine p line = Some p' \<Longrightarrow> pstate p' = HEADERS"
  by (auto simp: requestLine_def Let_def split: if_splits option.splits)

lemma headerLine_state: "headerLine p line = Some p' \<Longrightarrow> pstate p' = pstate p"
  by (auto simp: headerLine_def Let_def split: if_splits option.splits prod.splits)

lemma headersEnd_state: "headersEnd p = Some p' \<Longrightarrow> pstate p' = BODY \<or> pstate p' = COMPLETE"
  by (auto simp: headersEnd_def Let_def split: if_splits)

lemma parseHeaders_cases [parse_simps]:
  "peekLine b = None \<Longrightarrow> parseHeaders p b =
     (if kMaxRequestLine < readableBytes b then (ERROR, parser_error p, b) else (INCOMPLETE, p, b))"
  "peekLine b = Some ([], c) \<Longrightarrow> parseHeaders p b =
     (case headersEnd p of None \<Rightarrow> (ERROR, parser_error p, retrieve b c) | Some p' \<Rightarrow> (OK, p', retrieve b c))"
  "peekLine b = Some (line, c) \<Longrightarrow> line \<noteq> [] \<Longrightarrow> headerLine p line = None \<Longrightarrow>
     parseHeaders p b = (ERROR, parser_error p, retrieve b c)"
  "peekLine b = Some (line, c) \<Longrightarrow> line \<noteq> [] \<Longrightarrow> headerLine p line = Some p' \<Longrightarrow>
     parseHeaders p b = parseHeaders p' (retrieve b c)"
  by (simp_all add: parseHeaders.simps [of p b] Let_def)

lemma parseHeaders_state:
  "parseHeaders p b = (OK, p', b') \<Longrightarrow> pstate p' = BODY \<or> pstate p' = COMPLETE"
proof (induction p b rule: parseHeaders.induct)
  case (1 p b)
  show ?case
  proof (cases "peekLine b")
    case None
    with "1.prems" show ?thesis by (simp add: parse_simps split: if_splits)
  next
    case (Some lc)
    obtain line c where lc: "lc = (line, c)" by (cases lc)
    consider "line = []" | "line \<noteq> []" "headerLine p line = None"
      | q where "line \<noteq> []" "headerLine p line = Some q" by fastforce
    then show ?thesis
    proof cases
      case 1
      with "1.prems" Some lc show ?thesis
        by (auto simp: parse_simps split: option.splits dest: headersEnd_state)
    next
      case 2
      with "1.prems" Some lc show ?thesis by (simp add: parse_simps)
    next
      case 3
      with "1.prems" Some lc have "parseHeaders q (retrieve b c) = (OK, p', b')"
        by (simp add: parse_simps)
      with "1.IH" [OF Some lc [symmetric] refl 3] show ?thesis by simp
    qed
  qed
qed

lemma parse_turn_rank:
  "parse_turn p b = (OK, p', b') \<Longrightarrow> pstate p \<noteq> COMPLETE \<Longrightarrow> state_rank (pstate p') < state_rank (pstate p)"
  by (auto simp: parse_turn_def parseRequestLine_def parseBody_def
      split: State.splits option.splits if_splits prod.splits
      dest: parseHeaders_state requestLine_state)

function parse :: "HttpParser \<Rightarrow> Buffer \<Rightarrow> Ret \<times> HttpParser \<times> Buffer" where
  "parse p b =
     (if pstate p = COMPLETE then (OK, p, b)
      else case parse_turn p b of
        (OK, p', b') \<Rightarrow> parse p' b'
      | (r, p', b') \<Rightarrow> (r, p', b'))"
  by pat_completeness auto
termination
  by (relation "measure (\<lambda>(p, b). state_rank (pstate p))") (auto intro: parse_turn_rank [OF sym])

declare parse.simps [simp del]

section \<open>The specification level: the parser on byte lists\<close>

definition aline :: "bytes \<Rightarrow> (string \<times> bytes) option" where
  "aline xs = (case search CRLF xs of None \<Rightarrow> None | Some i \<Rightarrow> Some (take i xs, drop (i + 2) xs))"

definition ashort :: "HttpParser \<Rightarrow> bytes \<Rightarrow> Ret \<times> HttpParser \<times> bytes" where
  "ashort p xs = (if kMaxRequestLine < length xs then (ERROR, parser_error p, xs) else (INCOMPLETE, p, xs))"

definition arequest_line :: "HttpParser \<Rightarrow> bytes \<Rightarrow> Ret \<times> HttpParser \<times> bytes" where
  "arequest_line p xs =
     (case aline xs of
        None \<Rightarrow> ashort p xs
      | Some (line, rest) \<Rightarrow> (case requestLine p line of
          None \<Rightarrow> (ERROR, parser_error p, xs) | Some p' \<Rightarrow> (OK, p', rest)))"

lemma aline_length: "aline xs = Some (line, rest) \<Longrightarrow> length rest < length xs"
  using search_SomeD [of CRLF xs] by (auto simp: aline_def split: option.splits)

function aheaders :: "HttpParser \<Rightarrow> bytes \<Rightarrow> Ret \<times> HttpParser \<times> bytes" where
  "aheaders p xs =
     (case aline xs of
        None \<Rightarrow> ashort p xs
      | Some (line, rest) \<Rightarrow>
          if line = [] then
            (case headersEnd p of None \<Rightarrow> (ERROR, parser_error p, rest) | Some p' \<Rightarrow> (OK, p', rest))
          else
            (case headerLine p line of
               None \<Rightarrow> (ERROR, parser_error p, rest)
             | Some p' \<Rightarrow> aheaders p' rest))"
  by pat_completeness auto
termination
  by (relation "measure (\<lambda>(p, xs). length xs)") (auto intro: aline_length)

declare aheaders.simps [simp del]

definition abody :: "HttpParser \<Rightarrow> bytes \<Rightarrow> Ret \<times> HttpParser \<times> bytes" where
  "abody p xs =
     (if length xs < content_length p then (INCOMPLETE, p, xs)
      else (OK, p\<lparr>request := (request p)\<lparr>req_body := take (content_length p) xs\<rparr>, pstate := COMPLETE\<rparr>,
            drop (content_length p) xs))"

text \<open>
  The driving loop, unrolled state by state: a request is its line, then its headers, then its
  body. No fuel is needed, the states follow one another.
\<close>

definition aparse_body :: "HttpParser \<Rightarrow> bytes \<Rightarrow> Ret \<times> HttpParser \<times> bytes" where
  "aparse_body p xs = (if pstate p = BODY then abody p xs else (OK, p, xs))"

definition aparse_headers :: "HttpParser \<Rightarrow> bytes \<Rightarrow> Ret \<times> HttpParser \<times> bytes" where
  "aparse_headers p xs =
     (case aheaders p xs of (OK, p', rest) \<Rightarrow> aparse_body p' rest | res \<Rightarrow> res)"

definition aparse :: "HttpParser \<Rightarrow> bytes \<Rightarrow> Ret \<times> HttpParser \<times> bytes" where
  "aparse p xs =
     (case pstate p of
        REQUEST_LINE \<Rightarrow> (case arequest_line p xs of (OK, p', rest) \<Rightarrow> aparse_headers p' rest | res \<Rightarrow> res)
      | HEADERS \<Rightarrow> aparse_headers p xs
      | BODY \<Rightarrow> aparse_body p xs
      | COMPLETE \<Rightarrow> (OK, p, xs)
      | STATE_ERROR \<Rightarrow> (ERROR, p, xs))"

definition abs_res :: "Ret \<times> HttpParser \<times> Buffer \<Rightarrow> Ret \<times> HttpParser \<times> bytes" where
  "abs_res res = (case res of (r, p, b) \<Rightarrow> (r, p, contents b))"

text \<open>Cases and induction for the header loop.\<close>

lemma aheaders_eqs [parse_simps]:
  "aline xs = None \<Longrightarrow> aheaders p xs = ashort p xs"
  "aline xs = Some ([], rest) \<Longrightarrow> aheaders p xs =
     (case headersEnd p of None \<Rightarrow> (ERROR, parser_error p, rest) | Some p' \<Rightarrow> (OK, p', rest))"
  "aline xs = Some (line, rest) \<Longrightarrow> line \<noteq> [] \<Longrightarrow> headerLine p line = None \<Longrightarrow>
     aheaders p xs = (ERROR, parser_error p, rest)"
  "aline xs = Some (line, rest) \<Longrightarrow> line \<noteq> [] \<Longrightarrow> headerLine p line = Some p' \<Longrightarrow>
     aheaders p xs = aheaders p' rest"
  by (simp_all add: aheaders.simps [of p xs])

lemma aheaders_induct [case_names short last bad line]:
  assumes short: "\<And>p xs. aline xs = None \<Longrightarrow> P p xs"
    and last: "\<And>p xs rest. aline xs = Some ([], rest) \<Longrightarrow> P p xs"
    and bad: "\<And>p xs line rest. aline xs = Some (line, rest) \<Longrightarrow> line \<noteq> [] \<Longrightarrow>
      headerLine p line = None \<Longrightarrow> P p xs"
    and line: "\<And>p xs line rest p'. aline xs = Some (line, rest) \<Longrightarrow> line \<noteq> [] \<Longrightarrow>
      headerLine p line = Some p' \<Longrightarrow> P p' rest \<Longrightarrow> P p xs"
  shows "P p xs"
proof (induction p xs rule: aheaders.induct)
  case (1 p xs)
  show ?case
  proof (cases "aline xs")
    case None
    then show ?thesis by (rule short)
  next
    case (Some lr)
    obtain ln rest where lr: "lr = (ln, rest)" by (cases lr)
    show ?thesis
      using Some lr last bad line "1.IH" [OF Some lr [symmetric]]
      by (cases "ln = []"; cases "headerLine p ln") auto
  qed
qed

section \<open>The buffer-level parser is the list-level parser\<close>

lemma peekLine_None: "buf_inv b \<Longrightarrow> peekLine b = None \<longleftrightarrow> aline (contents b) = None"
  by (auto simp: peekLine_def aline_def conn_buffer.find_line_eq split: option.splits)

lemma peekLine_Some:
  "buf_inv b \<Longrightarrow> peekLine b = Some (line, c) \<Longrightarrow> aline (contents b) = Some (line, contents (retrieve b c))"
  using search_SomeD [of CRLF "contents b"]
  by (auto simp: peekLine_def aline_def conn_buffer.find_line_eq buf_simps peek_n_contents
      split: option.splits)

lemma peekLine_of_aline:
  assumes "buf_inv b" "aline (contents b) = Some (line, rest)"
  obtains c where "peekLine b = Some (line, c)" "rest = contents (retrieve b c)"
  using assms peekLine_None [of b] peekLine_Some [of b]
  by (metis not_None_eq option.inject prod.inject surj_pair)

lemma parseRequestLine_refines:
  assumes "buf_inv b" "parseRequestLine p b = (r, p', b')"
  shows "buf_inv b' \<and> arequest_line p (contents b) = (r, p', contents b')"
  using assms peekLine_None [of b] peekLine_Some [of b]
  by (auto simp: parseRequestLine_def arequest_line_def ashort_def readableBytes_contents
      split: option.splits prod.splits if_splits)

lemma parseHeaders_refines:
  "buf_inv b \<Longrightarrow> parseHeaders p b = (r, p', b') \<Longrightarrow>
   buf_inv b' \<and> aheaders p (contents b) = (r, p', contents b')"
proof (induction p "contents b" arbitrary: b rule: aheaders_induct)
  case (short p)
  then have "peekLine b = None" by (simp add: peekLine_None)
  with short show ?case by (simp add: parse_simps ashort_def readableBytes_contents split: if_splits)
next
  case (last p rest)
  from last(2,1) obtain c where "peekLine b = Some ([], c)" "rest = contents (retrieve b c)"
    by (rule peekLine_of_aline)
  with last show ?case by (auto simp: parse_simps split: option.splits)
next
  case (bad p line rest)
  from bad(4,1) obtain c where "peekLine b = Some (line, c)" "rest = contents (retrieve b c)"
    by (rule peekLine_of_aline)
  with bad show ?case by (auto simp: parse_simps)
next
  case (line p ln rest q)
  from line(5,1) obtain c where "peekLine b = Some (ln, c)" "rest = contents (retrieve b c)"
    by (rule peekLine_of_aline)
  with line show ?case by (auto simp: parse_simps)
qed

lemma parseBody_refines:
  assumes "buf_inv b" "parseBody p b = (r, p', b')"
  shows "buf_inv b' \<and> abody p (contents b) = (r, p', contents b')"
  using assms
  by (auto simp: parseBody_def abody_def readableBytes_contents buf_simps min_def
      split: if_splits prod.splits)

lemma parse_complete: "pstate p = COMPLETE \<Longrightarrow> parse p b = (OK, p, b)"
  by (simp add: parse.simps)

lemma parse_unfold:
  "pstate p \<noteq> COMPLETE \<Longrightarrow> parse_turn p b = (r, p', b') \<Longrightarrow>
   parse p b = (if r = OK then parse p' b' else (r, p', b'))"
  by (cases r) (simp_all add: parse.simps [of p b])

lemma parse_body_refines:
  assumes inv: "buf_inv b" and st: "pstate p = BODY \<or> pstate p = COMPLETE"
    and run: "parse p b = (r, p', b')"
  shows "buf_inv b' \<and> aparse_body p (contents b) = (r, p', contents b')"
proof (cases "pstate p = COMPLETE")
  case True
  with assms show ?thesis by (simp add: parse_complete aparse_body_def)
next
  case False
  with st have body: "pstate p = BODY" by simp
  obtain r1 p1 b1 where t: "parseBody p b = (r1, p1, b1)" by (cases "parseBody p b")
  have "pstate p1 = COMPLETE" if "r1 = OK"
    using t that by (auto simp: parseBody_def split: if_splits prod.splits)
  with run False body t have "(r, p', b') = (r1, p1, b1)"
    by (auto simp: parse_unfold [where r = r1] parse_turn_def parse_complete split: if_splits)
  with parseBody_refines [OF inv t] body show ?thesis by (simp add: aparse_body_def)
qed

lemma parse_headers_refines:
  assumes inv: "buf_inv b" and st: "pstate p = HEADERS" and run: "parse p b = (r, p', b')"
  shows "buf_inv b' \<and> aparse_headers p (contents b) = (r, p', contents b')"
proof -
  obtain r1 p1 b1 where t: "parseHeaders p b = (r1, p1, b1)" by (cases "parseHeaders p b")
  note ref = parseHeaders_refines [OF inv t]
  have run1: "(if r1 = OK then parse p1 b1 else (r1, p1, b1)) = (r, p', b')"
    using run st t by (simp add: parse_unfold [where r = r1] parse_turn_def)
  show ?thesis
  proof (cases "r1 = OK")
    case True
    with t have "pstate p1 = BODY \<or> pstate p1 = COMPLETE" by (simp add: parseHeaders_state)
    with True run1 ref parse_body_refines [of b1 p1 r p' b'] show ?thesis
      by (simp add: aparse_headers_def)
  next
    case False
    with run1 ref show ?thesis by (cases r1) (auto simp: aparse_headers_def)
  qed
qed

lemma parse_refines:
  assumes inv: "buf_inv b" and run: "parse p b = (r, p', b')"
  shows "buf_inv b' \<and> aparse p (contents b) = (r, p', contents b')"
proof (cases "pstate p")
  case REQUEST_LINE
  obtain r1 p1 b1 where t: "parseRequestLine p b = (r1, p1, b1)" by (cases "parseRequestLine p b")
  note ref = parseRequestLine_refines [OF inv t]
  have run1: "(if r1 = OK then parse p1 b1 else (r1, p1, b1)) = (r, p', b')"
    using run REQUEST_LINE t by (simp add: parse_unfold [where r = r1] parse_turn_def)
  show ?thesis
  proof (cases "r1 = OK")
    case True
    with t have "pstate p1 = HEADERS"
      by (auto simp: parseRequestLine_def split: option.splits if_splits dest: requestLine_state)
    with True run1 ref parse_headers_refines [of b1 p1 r p' b'] REQUEST_LINE show ?thesis
      by (simp add: aparse_def)
  next
    case False
    with run1 ref REQUEST_LINE show ?thesis by (cases r1) (auto simp: aparse_def)
  qed
next
  case HEADERS
  with parse_headers_refines [OF inv HEADERS run] show ?thesis by (simp add: aparse_def)
next
  case BODY
  with parse_body_refines [OF inv _ run] show ?thesis by (simp add: aparse_def)
next
  case COMPLETE
  with inv run show ?thesis by (simp add: aparse_def parse_complete)
next
  case STATE_ERROR
  with inv run show ?thesis by (simp add: aparse_def parse.simps parse_turn_def)
qed

lemma parse_abs: "buf_inv b \<Longrightarrow> abs_res (parse p b) = aparse p (contents b)"
  using parse_refines [of b p] by (auto simp: abs_res_def split: prod.splits)

lemma parse_inv: "buf_inv b \<Longrightarrow> buf_inv (snd (snd (parse p b)))"
  by (cases "parse p b") (auto dest: parse_refines)

end
