(* ===== verification/Loop_State.thy ===== *)
theory Loop_State
  imports Epoller Timer Http_Parser
begin

text \<open>
  The state that the connections of one event loop share: the counters of \<open>include/ws/stats.h\<close>, the
  data members of \<open>class EventLoop\<close> (\<open>include/ws/event_loop.h\<close>) with the connection table, and the part
  of the operating system that the loop's thread touches (the clock, the sockets, the eventfd); with it
  comes the script by which the loop's timer queue decides between equal deadlines. A
  \<open>shared_ptr\<close> or \<open>weak_ptr\<close> to a connection is the number of the object. The closures stored in the
  timer heap are all made by \<open>Connection::armIdleTimer\<close>: \<open>IdleCheck i\<close> is the one that captured a weak
  pointer to object \<open>i\<close>. Tasks queued for a loop are values of a type parameter.
\<close>

section \<open>Counters\<close>

record ServerCounters =
  accepted :: u64
  opened :: u64
  closed :: u64
  requests :: u64
  responses :: u64
  errors :: u64
  timeouts_closed :: u64
  bytes_read :: u64
  bytes_written :: u64

definition ServerCounters_new :: ServerCounters where
  "ServerCounters_new = \<lparr>accepted = 0, opened = 0, closed = 0, requests = 0, responses = 0, errors = 0,
     timeouts_closed = 0, bytes_read = 0, bytes_written = 0\<rparr>"

text \<open>Both loads are cast to \<open>int64_t\<close>; the difference of two such values is computed as a 64-bit word.\<close>

definition activeConnections :: "ServerCounters \<Rightarrow> int" where
  "activeConnections ct = sint (opened ct - closed ct)"

section \<open>The event loop's members and its environment\<close>

datatype timer_cb = IdleCheck nat

record 'task EventLoop =
  wakeup_fd :: int
  acceptor_fd :: int
  has_acceptor :: bool
  pending_timers :: nat
  poller :: Epoller
  timers :: "timer_cb TimerHeap"
  quit_flag :: bool
  looping :: bool
  pending :: "'task list"
  calling_pending :: bool
  connections :: "int \<rightharpoonup> nat"

record world =
  clk :: clock
  rxs :: "int \<Rightarrow> rx list"
  txs :: "int \<Rightarrow> tx list"
  wire :: "int \<Rightarrow> bytes"
  closed_fds :: "int list"
  eventfd :: u64
  eps :: "ep_answer list"
  tie_script :: "nat list"

record 'task env =
  loop :: "'task EventLoop"
  counters :: ServerCounters
  sys :: world

section \<open>Operations on the shared state\<close>

definition addConnection :: "int \<Rightarrow> nat \<Rightarrow> 'task EventLoop \<Rightarrow> 'task EventLoop" where
  "addConnection fd i l = l\<lparr>connections := (connections l)(fd \<mapsto> i)\<rparr>"

definition removeConnection :: "int \<Rightarrow> 'task EventLoop \<Rightarrow> 'task EventLoop" where
  "removeConnection fd l = l\<lparr>connections := (connections l)(fd := None)\<rparr>"

definition findConnection :: "int \<Rightarrow> 'task EventLoop \<Rightarrow> nat option" where
  "findConnection fd l = connections l fd"

definition connectionCount :: "'task EventLoop \<Rightarrow> nat" where
  "connectionCount l = card (dom (connections l))"

text \<open>\<open>now()\<close>, \<open>close(2)\<close>, \<open>write(2)\<close> on a socket.\<close>

definition env_now :: "'task env \<Rightarrow> int \<times> 'task env" where
  "env_now e = (let (t, k) = clk_read (clk (sys e)) in (t, e\<lparr>sys := (sys e)\<lparr>clk := k\<rparr>\<rparr>))"

definition fd_close :: "int \<Rightarrow> 'task env \<Rightarrow> 'task env" where
  "fd_close fd e = e\<lparr>sys := (sys e)\<lparr>closed_fds := closed_fds (sys e) @ [fd]\<rparr>\<rparr>"

definition env_write :: "int \<Rightarrow> bytes \<Rightarrow> 'task env \<Rightarrow> (errno + nat) \<times> 'task env" where
  "env_write fd d e =
     (case sys_write d (txs (sys e) fd) of (r, s) \<Rightarrow>
        (r, e\<lparr>sys := (sys e)\<lparr>txs := (txs (sys e))(fd := s),
               wire := (case r of Inl _ \<Rightarrow> wire (sys e) | Inr n \<Rightarrow> (wire (sys e))(fd := wire (sys e) fd @ take n d))\<rparr>\<rparr>))"

definition on_poller :: "(Epoller \<Rightarrow> bool \<times> Epoller) \<Rightarrow> 'task env \<Rightarrow> 'task env" where
  "on_poller f e = e\<lparr>loop := (loop e)\<lparr>poller := snd (f (poller (loop e)))\<rparr>\<rparr>"

definition on_timers :: "(timer_cb TimerHeap \<Rightarrow> timer_cb TimerHeap) \<Rightarrow> 'task env \<Rightarrow> 'task env" where
  "on_timers f e = e\<lparr>loop := (loop e)\<lparr>timers := f (timers (loop e))\<rparr>\<rparr>"

definition bump :: "(ServerCounters \<Rightarrow> ServerCounters) \<Rightarrow> 'task env \<Rightarrow> 'task env" where
  "bump f e = e\<lparr>counters := f (counters e)\<rparr>"

text \<open>
  The number of active connections is exact whenever the true difference of connections opened
  and closed fits 63 bits, even after the 64-bit counters have wrapped.
\<close>

lemma activeConnections_exact:
  assumes "opened ct = of_int a" "closed ct = of_int b" "- (2 ^ 63) \<le> a - b" "a - b < 2 ^ 63"
  shows "activeConnections ct = a - b"
proof -
  have "sint (word_of_int (a - b) :: u64) = a - b"
    using assms(3,4) unfolding int_word_sint by simp
  then show ?thesis using assms(1,2) by (simp add: activeConnections_def)
qed

end
