(* ===== verification/Http_Parser_Props.thy ===== *)
theory Http_Parser_Props
  imports Http_Parser
begin

text \<open>
  What makes the request parser correct: it does not matter how the bytes of a request are cut
  into pieces (up to the overlong lines it rejects), a rendered request is parsed back, an
  accepted request satisfies the stated limits, an unfinished one keeps a bounded number of bytes,
  and an error is final. All are proved on byte lists and stated on buffers.
\<close>

section \<open>Definitions\<close>

text \<open>Feeding a connection's bytes piece by piece until the parser has an answer.\<close>

fun feed :: "HttpParser \<Rightarrow> Buffer \<Rightarrow> bytes list \<Rightarrow> Ret \<times> HttpParser \<times> Buffer \<times> bytes list" where
  "feed p b [] = (INCOMPLETE, p, b, [])"
| "feed p b (d # ds) =
     (case parse p (append_bytes b d) of
        (INCOMPLETE, p', b') \<Rightarrow> feed p' b' ds
      | (r, p', b') \<Rightarrow> (r, p', b', ds))"

text \<open>What the parser knows about a request in each state.\<close>

definition headers_ok :: "headers \<Rightarrow> bool" where
  "headers_ok hs \<longleftrightarrow> map_ok hs \<and> length hs \<le> kMaxHeaderCount \<and>
     (\<forall>(k, v) \<in> set hs. k \<noteq> [] \<and> toLower k = k \<and> trim k = k \<and> trim v = v)"

definition announced_length :: "headers \<Rightarrow> nat" where
  "announced_length hs =
     (case map_of hs ''content-length'' of None \<Rightarrow> 0 | Some v \<Rightarrow> nat (fst (strtoll v)))"

definition line_ok :: "HttpRequest \<Rightarrow> bool" where
  "line_ok r \<longleftrightarrow> req_method r \<noteq> [] \<and> CHR '' '' \<notin> set (req_method r) \<and>
     req_path r \<noteq> [] \<and> CHR '' '' \<notin> set (req_path r) \<and> CHR ''?'' \<notin> set (req_path r) \<and>
     CHR '' '' \<notin> set (req_query r) \<and> 8 \<le> length (req_version r) \<and> take 7 (req_version r) = ''HTTP/1.''"

definition te_ok :: "HttpRequest \<Rightarrow> bool" where
  "te_ok r \<longleftrightarrow> getHeader r ''transfer-encoding'' = [] \<or> iequals (getHeader r ''transfer-encoding'') ''identity''"

definition parser_ok :: "HttpParser \<Rightarrow> bool" where
  "parser_ok p \<longleftrightarrow>
     headers_ok (req_headers (request p)) \<and>
     content_length p = announced_length (req_headers (request p)) \<and>
     (case pstate p of
        REQUEST_LINE \<Rightarrow> request p = HttpRequest_new
      | HEADERS \<Rightarrow> line_ok (request p) \<and> req_body (request p) = []
      | BODY \<Rightarrow> line_ok (request p) \<and> te_ok (request p) \<and> req_body (request p) = [] \<and>
                0 < content_length p \<and> content_length p \<le> kMaxBody
      | COMPLETE \<Rightarrow> line_ok (request p) \<and> te_ok (request p) \<and>
                length (req_body (request p)) = content_length p \<and> content_length p \<le> kMaxBody
      | STATE_ERROR \<Rightarrow> True)"

text \<open>A request as bytes, the other direction of the parser.\<close>

definition target_of :: "HttpRequest \<Rightarrow> string" where
  "target_of r = req_path r @ (if req_query r = [] then [] else CHR ''?'' # req_query r)"

definition render_line :: "HttpRequest \<Rightarrow> string" where
  "render_line r = req_method r @ '' '' @ target_of r @ '' '' @ req_version r"

definition render :: "HttpRequest \<Rightarrow> bytes" where
  "render r = render_line r @ CRLF @ concat (map header_line (req_headers r)) @ CRLF @ req_body r"

definition no_crlf :: "string \<Rightarrow> bool" where
  "no_crlf s \<longleftrightarrow> search CRLF s = None"

definition renderable :: "HttpRequest \<Rightarrow> bool" where
  "renderable r \<longleftrightarrow>
     line_ok r \<and> te_ok r \<and> headers_ok (req_headers r) \<and>
     no_crlf (render_line r) \<and> length (render_line r) \<le> kMaxRequestLine \<and>
     (\<forall>(k, v) \<in> set (req_headers r). CHR '':'' \<notin> set k \<and> no_crlf (k @ '': '' @ v)) \<and>
     length (req_headers r) \<le> kMaxHeaderCount \<and> length (req_body r) \<le> kMaxBody \<and>
     map_of (req_headers r) ''content-length'' =
       (if req_body r = [] then None else Some (to_string (length (req_body r))))"

section \<open>Cutting the input into pieces\<close>

lemma aline_append: "aline xs = Some (l, rest) \<Longrightarrow> aline (xs @ ys) = Some (l, rest @ ys)"
  using search_append [of CRLF xs _ ys] search_SomeD [of CRLF xs]
  by (auto simp: aline_def split: option.splits)

lemma ashort_cases:
  "ashort p xs = (r, p', rest) \<Longrightarrow>
   rest = xs \<and> (r = INCOMPLETE \<and> p' = p \<or> r = ERROR \<and> kMaxRequestLine < length xs)"
  by (auto simp: ashort_def split: if_splits)

lemma arequest_line_append:
  "arequest_line p a = (OK, p', rest) \<Longrightarrow> arequest_line p (a @ b) = (OK, p', rest @ b)"
  by (cases "aline a") (auto simp: arequest_line_def ashort_def aline_append split: option.splits if_splits)

lemma arequest_line_incomplete:
  "arequest_line p a = (INCOMPLETE, p', rest) \<Longrightarrow> p' = p \<and> rest = a"
  by (auto simp: arequest_line_def ashort_def split: option.splits if_splits)

lemma arequest_line_error:
  "arequest_line p a = (ERROR, p', rest) \<Longrightarrow>
   fst (arequest_line p (a @ b)) = ERROR \<or> kMaxRequestLine < length rest \<and> aline rest = None"
  by (cases "aline a") (auto simp: arequest_line_def [of p a] arequest_line_def [of p "a @ b"] ashort_def
      aline_append split: option.splits if_splits)

lemma aheaders_append:
  "aheaders p a = (OK, p', rest) \<Longrightarrow> aheaders p (a @ b) = (OK, p', rest @ b)"
proof (induction p a rule: aheaders_induct)
  case (short p xs)
  then show ?case by (auto simp: parse_simps dest: ashort_cases)
next
  case (last p xs rest)
  then show ?case by (auto simp: parse_simps aline_append split: option.splits)
next
  case (bad p xs line rest)
  then show ?case by (simp add: parse_simps)
next
  case (line p xs l rest q)
  then show ?case by (simp add: parse_simps aline_append)
qed

lemma aheaders_incomplete:
  "aheaders p a = (INCOMPLETE, p', rest) \<Longrightarrow>
   pstate p' = pstate p \<and> aheaders p (a @ b) = aheaders p' (rest @ b)"
proof (induction p a rule: aheaders_induct)
  case (short p xs)
  then show ?case by (auto simp: parse_simps dest: ashort_cases)
next
  case (last p xs rest)
  then show ?case by (auto simp: parse_simps split: option.splits)
next
  case (bad p xs line rest)
  then show ?case by (simp add: parse_simps)
next
  case (line p xs l rest q)
  then show ?case by (auto simp: parse_simps aline_append dest: headerLine_state)
qed

lemma aheaders_error:
  "aheaders p a = (ERROR, p', rest) \<Longrightarrow>
   fst (aheaders p (a @ b)) = ERROR \<or> kMaxRequestLine < length rest \<and> aline rest = None"
proof (induction p a rule: aheaders_induct)
  case (short p xs)
  then show ?case by (auto simp: parse_simps dest: ashort_cases)
next
  case (last p xs rest)
  then show ?case by (auto simp: parse_simps aline_append split: option.splits)
next
  case (bad p xs line rest)
  then show ?case by (auto simp: parse_simps aline_append)
next
  case (line p xs l rest q)
  then show ?case by (auto simp: parse_simps aline_append)
qed

lemma aheaders_OK_state: "aheaders p xs = (OK, p', rest) \<Longrightarrow> pstate p' = BODY \<or> pstate p' = COMPLETE"
  by (induction p xs rule: aheaders_induct)
     (auto simp: parse_simps ashort_def split: option.splits if_splits dest: headersEnd_state)

lemma aparse_body_append:
  "aparse_body p a = (OK, p', rest) \<Longrightarrow> aparse_body p (a @ b) = (OK, p', rest @ b)"
  by (auto simp: aparse_body_def abody_def split: if_splits)

lemma aparse_body_incomplete:
  "aparse_body p a = (INCOMPLETE, p', rest) \<Longrightarrow> p' = p \<and> rest = a \<and> pstate p = BODY"
  by (auto simp: aparse_body_def abody_def split: if_splits)

lemma aparse_body_no_error: "fst (aparse_body p a) \<noteq> ERROR"
  by (auto simp: aparse_body_def abody_def)

lemma aparse_body_neq_error [simp]: "aparse_body p a \<noteq> (ERROR, q, rest)"
  using aparse_body_no_error [of p a] by auto

lemma aparse_headers_append:
  assumes "aparse_headers p a = (OK, p', rest)"
  shows "aparse_headers p (a @ b) = (OK, p', rest @ b)"
proof (cases "aheaders p a")
  case (fields r1 p1 rest1)
  with assms show ?thesis
    by (cases r1) (auto simp: aparse_headers_def aheaders_append aparse_body_append)
qed

lemma aparse_headers_incomplete:
  assumes "pstate p = HEADERS" "aparse_headers p a = (INCOMPLETE, p', rest)"
  shows "aparse_headers p (a @ b) = aparse p' (rest @ b)"
proof (cases "aheaders p a")
  case (fields r1 p1 rest1)
  show ?thesis
  proof (cases r1)
    case OK
    with fields assms have "aparse_body p1 rest1 = (INCOMPLETE, p', rest)"
      by (simp add: aparse_headers_def)
    with OK fields show ?thesis
      by (auto simp: aparse_headers_def aheaders_append aparse_def dest!: aparse_body_incomplete)
  next
    case INCOMPLETE
    with fields assms aheaders_incomplete [of p a p1 rest1 b] show ?thesis
      by (auto simp: aparse_headers_def aparse_def)
  next
    case ERROR
    with fields assms show ?thesis by (simp add: aparse_headers_def)
  qed
qed

lemma aparse_headers_error:
  assumes "aparse_headers p a = (ERROR, p', rest)"
  shows "fst (aparse_headers p (a @ b)) = ERROR \<or> kMaxRequestLine < length rest \<and> aline rest = None"
proof (cases "aheaders p a")
  case (fields r1 p1 rest1)
  show ?thesis
  proof (cases r1)
    case OK
    with fields assms aparse_body_no_error [of p1 rest1] show ?thesis by (simp add: aparse_headers_def)
  next
    case INCOMPLETE
    with fields assms show ?thesis by (simp add: aparse_headers_def)
  next
    case ERROR
    with fields assms aheaders_error [of p a p1 rest1 b] show ?thesis
      by (auto simp: aparse_headers_def split: prod.splits Ret.splits)
  qed
qed

lemma arequest_line_state: "arequest_line p xs = (OK, p', rest) \<Longrightarrow> pstate p' = HEADERS"
  by (auto simp: arequest_line_def ashort_def split: option.splits if_splits dest: requestLine_state)

lemma aparse_append:
  assumes "aparse p a = (OK, p', rest)"
  shows "aparse p (a @ b) = (OK, p', rest @ b)"
  using assms
  by (auto simp: aparse_def aparse_headers_append aparse_body_append arequest_line_append
      split: State.splits prod.splits Ret.splits)

lemma aparse_incomplete:
  assumes "aparse p a = (INCOMPLETE, p', rest)"
  shows "aparse p (a @ b) = aparse p' (rest @ b)"
proof (cases "pstate p")
  case REQUEST_LINE
  show ?thesis
  proof (cases "arequest_line p a")
    case (fields r1 p1 rest1)
    show ?thesis
    proof (cases r1)
      case OK
      with fields assms REQUEST_LINE show ?thesis
        by (simp add: aparse_def [of p] arequest_line_append arequest_line_state aparse_headers_incomplete)
    qed (use fields assms REQUEST_LINE in \<open>auto simp: aparse_def dest: arequest_line_incomplete\<close>)
  qed
qed (use assms in \<open>auto simp: aparse_def aparse_headers_incomplete dest: aparse_body_incomplete\<close>)

lemma aparse_error:
  assumes "aparse p a = (ERROR, p', rest)"
  shows "fst (aparse p (a @ b)) = ERROR \<or> kMaxRequestLine < length rest \<and> aline rest = None"
proof (cases "pstate p")
  case REQUEST_LINE
  show ?thesis
  proof (cases "arequest_line p a")
    case (fields r1 p1 rest1)
    show ?thesis
    proof (cases r1)
      case OK
      with fields assms REQUEST_LINE aparse_headers_error [of p1 rest1 p' rest b] show ?thesis
        by (auto simp: aparse_def arequest_line_append)
    next
      case INCOMPLETE
      with fields assms REQUEST_LINE show ?thesis by (simp add: aparse_def)
    next
      case ERROR
      with fields assms REQUEST_LINE arequest_line_error [of p a p1 rest1 b] show ?thesis
        by (auto simp: aparse_def split: prod.splits Ret.splits)
    qed
  qed
next
  case BODY
  with assms aparse_body_no_error [of p a] show ?thesis by (simp add: aparse_def)
qed (use assms aparse_headers_error in \<open>auto simp: aparse_def\<close>)

section \<open>What an accepted request looks like\<close>

lemma str_find_SomeD:
  "str_find c pos s = Some j \<Longrightarrow> pos \<le> j \<and> j < length s \<and> c \<notin> set (take (j - pos) (drop pos s))"
  using search_SomeD [of "[c]" "drop pos s"] search_single_take [of c "drop pos s"]
  by (auto simp: str_find_def split: option.splits)

lemma str_find_None: "str_find c pos s = None \<longleftrightarrow> c \<notin> set (drop pos s)"
  by (auto simp: str_find_def search_single_None)

lemma dropWhile_idem [simp]: "dropWhile P (dropWhile P xs) = dropWhile P xs"
  by (induction xs) auto

lemma dropWhile_rev_dropWhile:
  "ys = [] \<or> \<not> P (hd ys) \<Longrightarrow>
   dropWhile P (rev (dropWhile P (rev ys))) = rev (dropWhile P (rev ys))"
  by (cases ys) (auto simp: dropWhile_append3)

lemma trim_trim [simp]: "trim (trim s) = trim s"
proof -
  have "dropWhile isspace s = [] \<or> \<not> isspace (hd (dropWhile isspace s))"
    using hd_dropWhile [of isspace s] by (cases "dropWhile isspace s") auto
  then show ?thesis
    by (simp add: trim_def dropWhile_rev_dropWhile [of "dropWhile isspace s" isspace])
qed

lemma dropWhile_map_tolower: "dropWhile isspace (map tolower s) = map tolower (dropWhile isspace s)"
  by (induction s) auto

lemma trim_toLower: "trim (toLower s) = toLower (trim s)"
  by (simp add: trim_def toLower_def dropWhile_map_tolower rev_map)

lemma toLower_toLower [simp]: "toLower (toLower s) = toLower s"
  by (simp add: toLower_def)

lemma toLower_content_length [simp]:
  "toLower ''content-length'' = ''content-length''" "trim ''content-length'' = ''content-length''"
  by code_simp+

lemma splitRequestLine_no_blank:
  "splitRequestLine line = Some (m, t, v) \<Longrightarrow> CHR '' '' \<notin> set m \<and> CHR '' '' \<notin> set t"
  using str_find_SomeD [of "CHR '' ''" 0 line] str_find_SomeD [of "CHR '' ''" "Suc sp1" line for sp1]
  by (fastforce simp: splitRequestLine_def split: option.splits)

lemma storeTarget_ok:
  assumes "CHR '' '' \<notin> set t" "req_query r = []"
  shows "CHR '' '' \<notin> set (req_path (storeTarget r t)) \<and> CHR ''?'' \<notin> set (req_path (storeTarget r t)) \<and>
    req_path (storeTarget r t) \<noteq> [] \<and> CHR '' '' \<notin> set (req_query (storeTarget r t))"
proof (cases "str_find CHR ''?'' 0 t")
  case None
  then have "CHR ''?'' \<notin> set t" by (simp add: str_find_None)
  with assms None show ?thesis by (auto simp: storeTarget_def Let_def)
next
  case (Some q)
  then have "CHR ''?'' \<notin> set (take q t)" using str_find_SomeD by fastforce
  with assms Some show ?thesis by (auto simp: storeTarget_def Let_def dest: in_set_takeD in_set_dropD)
qed

lemma storeTarget_frame [simp]:
  "req_method (storeTarget r t) = req_method r" "req_version (storeTarget r t) = req_version r"
  "req_headers (storeTarget r t) = req_headers r" "req_body (storeTarget r t) = req_body r"
  by (simp_all add: storeTarget_def Let_def split: option.splits)

lemma requestLine_line_ok:
  assumes "request p = HttpRequest_new" "requestLine p line = Some p'"
  shows "line_ok (request p') \<and> req_headers (request p') = [] \<and> req_body (request p') = [] \<and>
         content_length p' = content_length p"
  using assms
  by (auto simp: requestLine_def line_ok_def HttpRequest_new_def split: if_splits option.splits
      dest!: splitRequestLine_no_blank simp: storeTarget_ok)

lemma headers_ok_put:
  "headers_ok hs \<Longrightarrow> length hs < kMaxHeaderCount \<Longrightarrow> k \<noteq> [] \<Longrightarrow> toLower k = k \<Longrightarrow> trim k = k \<Longrightarrow>
   trim v = v \<Longrightarrow> headers_ok (map_put k v hs)"
proof -
  have put: "set (map_put k v hs) \<subseteq> insert (k, v) (set hs)"
    by (induction k v hs rule: map_put.induct) auto
  assume "headers_ok hs" "length hs < kMaxHeaderCount" "k \<noteq> []" "toLower k = k" "trim k = k" "trim v = v"
  with put show ?thesis by (auto simp: headers_ok_def length_map_put)
qed

lemma announced_put:
  "map_ok hs \<Longrightarrow> announced_length (map_put k v hs) =
     (if k = ''content-length'' then nat (fst (strtoll v)) else announced_length hs)"
  by (simp add: announced_length_def)

lemma headerLine_ok:
  assumes "headerLine p line = Some p'" "headers_ok (req_headers (request p))"
    "content_length p = announced_length (req_headers (request p))"
  shows "headers_ok (req_headers (request p')) \<and>
    content_length p' = announced_length (req_headers (request p')) \<and>
    (\<exists>hs. request p' = (request p)\<lparr>req_headers := hs\<rparr>)"
proof -
  have ok: "map_ok (req_headers (request p))" using assms(2) by (simp add: headers_ok_def)
  show ?thesis
    using assms ok
    by (auto simp: headerLine_def Let_def announced_put headers_ok_put trim_toLower
        split: if_splits option.splits prod.splits)
qed

lemma line_ok_update [simp]:
  "line_ok (r\<lparr>req_headers := hs\<rparr>) = line_ok r" "line_ok (r\<lparr>req_body := bd\<rparr>) = line_ok r"
  "te_ok (r\<lparr>req_body := bd\<rparr>) = te_ok r"
  by (simp_all add: line_ok_def te_ok_def getHeader_def)

lemma parser_ok_complete:
  "parser_ok p \<Longrightarrow> pstate p = COMPLETE \<Longrightarrow>
   line_ok (request p) \<and> te_ok (request p) \<and> length (req_headers (request p)) \<le> 100 \<and>
   length (req_body (request p)) = announced_length (req_headers (request p)) \<and>
   length (req_body (request p)) \<le> 8388608"
  by (simp add: parser_ok_def headers_ok_def kMaxHeaderCount_def kMaxBody_def)

lemma parser_ok_error [simp]: "parser_ok p \<Longrightarrow> parser_ok (parser_error p)"
  by (simp add: parser_ok_def parser_error_def)

lemma parser_ok_headersEnd:
  "parser_ok p \<Longrightarrow> pstate p = HEADERS \<Longrightarrow> headersEnd p = Some p' \<Longrightarrow> parser_ok p'"
  by (auto simp: parser_ok_def headersEnd_def Let_def te_ok_def split: if_splits)

lemma parser_ok_headerLine:
  assumes "parser_ok p" "pstate p = HEADERS" "headerLine p line = Some p'"
  shows "parser_ok p'"
  using assms headerLine_ok [OF assms(3)] headerLine_state [OF assms(3)]
  by (auto simp: parser_ok_def)

lemma parser_ok_new [simp]: "parser_ok HttpParser_new"
  by (simp add: parser_ok_def HttpParser_new_def HttpRequest_new_def headers_ok_def announced_length_def)

lemma parser_reset_new: "parser_reset p = HttpParser_new"
  by (simp add: parser_reset_def HttpParser_new_def)

lemma parser_ok_aheaders:
  "parser_ok p \<Longrightarrow> pstate p = HEADERS \<Longrightarrow> aheaders p xs = (r, p', rest) \<Longrightarrow>
   parser_ok p' \<and> (r = INCOMPLETE \<longrightarrow> aline rest = None \<and> length rest \<le> kMaxRequestLine \<and> pstate p' = HEADERS)"
proof (induction p xs rule: aheaders_induct)
  case (short p xs)
  then show ?case by (auto simp: parse_simps ashort_def split: if_splits)
next
  case (last p xs rest)
  then show ?case by (auto simp: parse_simps split: option.splits dest: parser_ok_headersEnd)
next
  case (bad p xs line rest)
  then show ?case by (auto simp: parse_simps)
next
  case (line p xs l rest q)
  then show ?case using parser_ok_headerLine headerLine_state by (auto simp: parse_simps)
qed

text \<open>The answer of one call: a well-formed parser state, and at most so many bytes kept back.\<close>

definition kept_bound :: "HttpParser \<Rightarrow> bytes \<Rightarrow> bool" where
  "kept_bound p rest \<longleftrightarrow>
     (if pstate p = BODY then length rest < content_length p \<and> content_length p \<le> kMaxBody
      else length rest \<le> kMaxRequestLine)"

lemma parser_ok_aparse_body:
  "parser_ok p \<Longrightarrow> pstate p = BODY \<or> pstate p = COMPLETE \<Longrightarrow> aparse_body p xs = (r, p', rest) \<Longrightarrow>
   parser_ok p' \<and> (r = OK \<longrightarrow> pstate p' = COMPLETE) \<and> (r = INCOMPLETE \<longrightarrow> kept_bound p' rest)"
  by (auto simp: aparse_body_def abody_def parser_ok_def kept_bound_def split: if_splits)

lemma parser_ok_aparse_headers:
  assumes "parser_ok p" "pstate p = HEADERS" "aparse_headers p xs = (r, p', rest)"
  shows "parser_ok p' \<and> (r = OK \<longrightarrow> pstate p' = COMPLETE) \<and> (r = INCOMPLETE \<longrightarrow> kept_bound p' rest)"
proof (cases "aheaders p xs")
  case (fields r1 p1 rest1)
  note h = parser_ok_aheaders [OF assms(1,2) fields]
  show ?thesis
  proof (cases r1)
    case OK
    with fields assms h parser_ok_aparse_body [of p1 rest1 r p' rest] aheaders_OK_state [of p xs p1 rest1]
    show ?thesis by (simp add: aparse_headers_def)
  qed (use fields assms h in \<open>auto simp: aparse_headers_def kept_bound_def\<close>)
qed

lemma parser_ok_arequest_line:
  assumes "parser_ok p" "pstate p = REQUEST_LINE" "arequest_line p xs = (r, p', rest)"
  shows "parser_ok p' \<and> (r = INCOMPLETE \<longrightarrow> p' = p \<and> length rest \<le> kMaxRequestLine)"
proof -
  have new: "request p = HttpRequest_new" "content_length p = 0"
    using assms(1,2) by (simp_all add: parser_ok_def HttpRequest_new_def announced_length_def)
  have "parser_ok q" if "requestLine p line = Some q" for line q
    using requestLine_line_ok [OF new(1) that] requestLine_state [OF that] new
    by (simp add: parser_ok_def headers_ok_def announced_length_def)
  with assms show ?thesis
    by (auto simp: arequest_line_def ashort_def split: option.splits if_splits)
qed

lemma parser_ok_aparse:
  assumes "parser_ok p" "aparse p xs = (r, p', rest)"
  shows "parser_ok p' \<and> (r = OK \<longrightarrow> pstate p' = COMPLETE) \<and> (r = INCOMPLETE \<longrightarrow> kept_bound p' rest)"
proof (cases "pstate p")
  case REQUEST_LINE
  show ?thesis
  proof (cases "arequest_line p xs")
    case (fields r1 p1 rest1)
    note l = parser_ok_arequest_line [OF assms(1) REQUEST_LINE fields]
    show ?thesis
    proof (cases r1)
      case OK
      with fields assms l REQUEST_LINE parser_ok_aparse_headers [of p1 rest1 r p' rest]
        arequest_line_state [of p xs p1 rest1]
      show ?thesis by (simp add: aparse_def)
    qed (use fields assms l REQUEST_LINE in \<open>auto simp: aparse_def kept_bound_def\<close>)
  qed
next
  case HEADERS
  with assms parser_ok_aparse_headers [of p xs r p' rest] show ?thesis by (simp add: aparse_def)
next
  case BODY
  with assms parser_ok_aparse_body [of p xs r p' rest] show ?thesis by (simp add: aparse_def)
qed (use assms in \<open>auto simp: aparse_def\<close>)

section \<open>Parsing a rendered request\<close>

lemma aline_line: "no_crlf line \<Longrightarrow> aline (line @ CR # LF # rest) = Some (line, rest)"
  by (simp add: aline_def no_crlf_def search_CRLF_line)

lemma str_find_at: "c \<notin> set xs \<Longrightarrow> str_find c 0 (xs @ c # ys) = Some (length xs)"
  by (simp add: str_find_def search_single_append)

lemma str_find_next:
  "c \<notin> set ys \<Longrightarrow> str_find c (Suc (length xs)) (xs @ d # ys @ c # zs) = Some (Suc (length xs + length ys))"
  by (simp add: str_find_def search_single_append)

lemma splitRequestLine_render:
  "CHR '' '' \<notin> set m \<Longrightarrow> CHR '' '' \<notin> set t \<Longrightarrow>
   splitRequestLine (m @ CHR '' '' # t @ CHR '' '' # v) = Some (m, t, v)"
  by (simp add: splitRequestLine_def str_find_at str_find_next)

lemma storeTarget_target_of:
  assumes "line_ok r" "req_query r0 = []"
  shows "storeTarget r0 (target_of r) = r0\<lparr>req_path := req_path r, req_query := req_query r\<rparr>"
proof (cases "req_query r = []")
  case True
  then have "str_find CHR ''?'' 0 (target_of r) = None"
    using assms(1) by (simp add: target_of_def line_ok_def str_find_None)
  with True assms show ?thesis by (simp add: storeTarget_def target_of_def line_ok_def)
next
  case False
  then have "str_find CHR ''?'' 0 (target_of r) = Some (length (req_path r))"
    using assms(1) by (simp add: target_of_def line_ok_def str_find_at)
  with False assms show ?thesis by (simp add: storeTarget_def target_of_def line_ok_def)
qed

lemma target_of_no_blank: "line_ok r \<Longrightarrow> CHR '' '' \<notin> set (target_of r)"
  by (auto simp: target_of_def line_ok_def)

lemma requestLine_render:
  assumes "renderable r"
  shows "requestLine HttpParser_new (render_line r) =
    Some \<lparr>pstate = HEADERS, request = r\<lparr>req_headers := [], req_body := []\<rparr>, content_length = 0\<rparr>"
proof -
  have ok: "line_ok r" "length (render_line r) \<le> kMaxRequestLine" using assms by (simp_all add: renderable_def)
  have "splitRequestLine (render_line r) = Some (req_method r, target_of r, req_version r)"
    using ok(1) target_of_no_blank by (simp add: render_line_def splitRequestLine_render line_ok_def)
  moreover have "render_line r \<noteq> []" by (simp add: render_line_def)
  ultimately show ?thesis
    using ok by (simp add: requestLine_def storeTarget_target_of HttpParser_new_def HttpRequest_new_def)
                (simp add: line_ok_def)
qed

lemma trim_blank [simp]: "trim (CHR '' '' # s) = trim s"
  by (simp add: trim_def)

lemma headerLine_render:
  assumes "CHR '':'' \<notin> set k" "k \<noteq> []" "toLower k = k" "trim k = k" "trim v = v"
    and "length (req_headers (request p)) < kMaxHeaderCount"
    and "\<forall>k' \<in> fst ` set (req_headers (request p)). k' < k"
    and cl: "k = ''content-length'' \<Longrightarrow> strtoll v = (int n, True)"
  shows "headerLine p (k @ CHR '':'' # CHR '' '' # v) =
    Some (p\<lparr>request := (request p)\<lparr>req_headers := req_headers (request p) @ [(k, v)]\<rparr>,
            content_length := if k = ''content-length'' then n else content_length p\<rparr>)"
  using assms by (auto simp: headerLine_def str_find_at map_put_snoc Let_def)

lemma aheaders_render:
  assumes "headers_ok (hs1 @ hs2)"
    and "\<forall>(k, v) \<in> set hs2. CHR '':'' \<notin> set k \<and> no_crlf (k @ '': '' @ v)"
    and "map_of hs2 ''content-length'' \<in> {None, Some (to_string n)}" "n \<le> kMaxBody"
    and "req_headers (request p) = hs1"
  shows "aheaders p (concat (map header_line hs2) @ CR # LF # rest) =
    aheaders (p\<lparr>request := (request p)\<lparr>req_headers := hs1 @ hs2\<rparr>,
       content_length := if map_of hs2 ''content-length'' = None then content_length p else n\<rparr>) (CR # LF # rest)"
  using assms
proof (induction hs2 arbitrary: p hs1)
  case Nil
  then show ?case by (cases p; cases "request p") auto
next
  case (Cons kv hs2)
  obtain k v where kv: "kv = (k, v)" by (cases kv)
  have ok: "k \<noteq> []" "toLower k = k" "trim k = k" "trim v = v" "length hs1 < kMaxHeaderCount"
    "\<forall>k' \<in> fst ` set hs1. k' < k" "\<forall>k' \<in> fst ` set hs2. k < k'"
    using Cons.prems(1) kv by (auto simp: headers_ok_def map_ok_def sorted_wrt_append)
  have nocrlf: "CHR '':'' \<notin> set k" "no_crlf (k @ CHR '':'' # CHR '' '' # v)"
    using Cons.prems(2) kv by auto
  have cl: "strtoll v = (int n, True)" if "k = ''content-length''"
    using Cons.prems(3,4) kv that strtoll_to_string [of n] by (simp add: kMaxBody_def)
  let ?p = "p\<lparr>request := (request p)\<lparr>req_headers := hs1 @ [(k, v)]\<rparr>,
            content_length := if k = ''content-length'' then n else content_length p\<rparr>"
  have "aheaders p (concat (map header_line (kv # hs2)) @ CR # LF # rest) =
      aheaders ?p (concat (map header_line hs2) @ CR # LF # rest)"
    using aheaders_eqs(4) [OF aline_line [OF nocrlf(2)], of p ?p]
      headerLine_render [OF nocrlf(1) ok(1-4), of p n] ok(5,6) cl Cons.prems(5)
    by (simp add: kv header_line_def)
  also have "\<dots> = aheaders (?p\<lparr>request := (request ?p)\<lparr>req_headers := (hs1 @ [(k, v)]) @ hs2\<rparr>,
       content_length := if map_of hs2 ''content-length'' = None then content_length ?p else n\<rparr>) (CR # LF # rest)"
  proof (rule Cons.IH)
    have "k = ''content-length'' \<Longrightarrow> map_of hs2 ''content-length'' = None"
      using ok(7) by (auto simp: map_of_eq_None_iff)
    then show "map_of hs2 ''content-length'' \<in> {None, Some (to_string n)}"
      using Cons.prems(3) kv by (auto split: if_splits)
  qed (use Cons.prems kv in auto)
  finally show ?case by (auto simp: kv)
qed

lemma aparse_render:
  assumes "renderable r"
  shows "aparse HttpParser_new (render r @ rest) =
    (OK, \<lparr>pstate = COMPLETE, request = r, content_length = length (req_body r)\<rparr>, rest)"
proof -
  let ?p1 = "\<lparr>pstate = HEADERS, request = r\<lparr>req_headers := [], req_body := []\<rparr>, content_length = 0\<rparr>"
  let ?n = "length (req_body r)"
  let ?p2 = "\<lparr>pstate = HEADERS, request = r\<lparr>req_body := []\<rparr>, content_length = ?n\<rparr>"
  note wf = assms [unfolded renderable_def]
  have crlf: "aline (CR # LF # xs) = Some ([], xs)" for xs by (simp add: aline_def)
  have rl: "arequest_line HttpParser_new (render_line r @ CR # LF # ys) = (OK, ?p1, ys)" for ys
    using wf by (simp add: arequest_line_def aline_line requestLine_render [OF assms])
  have "aheaders ?p1 (concat (map header_line (req_headers r)) @ CR # LF # req_body r @ rest) =
        aheaders ?p2 (CR # LF # req_body r @ rest)"
    using wf aheaders_render [of "[]" "req_headers r" ?n ?p1 "req_body r @ rest"]
    by (auto split: if_splits)
  also have "\<dots> = (OK, ?p2\<lparr>pstate := if ?n = 0 then COMPLETE else BODY\<rparr>, req_body r @ rest)"
    using wf by (auto simp: aheaders_eqs(2) [OF crlf] headersEnd_def Let_def te_ok_def getHeader_def)
  finally show ?thesis
    using rl [of "concat (map header_line (req_headers r)) @ CR # LF # req_body r @ rest"]
    by (auto simp: aparse_def render_def HttpParser_new_def aparse_headers_def aparse_body_def abody_def)
qed

lemma aparse_error_state: "aparse p xs = (ERROR, p', rest) \<Longrightarrow> pstate p' = STATE_ERROR"
proof -
  have h: "pstate p' = STATE_ERROR" if "aheaders p xs = (ERROR, p', rest)" for p xs p' rest
    using that by (induction p xs rule: aheaders_induct)
      (auto simp: parse_simps ashort_def parser_error_def split: if_splits option.splits)
  have hh: "pstate p' = STATE_ERROR" if "aparse_headers p xs = (ERROR, p', rest)" for p xs p' rest
    using that h [of p xs]
    by (cases "aheaders p xs"; cases "fst (aheaders p xs)") (auto simp: aparse_headers_def)
  have l: "pstate p' = STATE_ERROR" if "arequest_line p xs = (ERROR, p', rest)" for p xs p' rest
    using that by (auto simp: arequest_line_def ashort_def parser_error_def split: if_splits option.splits)
  assume "aparse p xs = (ERROR, p', rest)"
  then show ?thesis
    using l hh aparse_body_no_error [of p xs]
    by (auto simp: aparse_def split: State.splits prod.splits Ret.splits)
qed

lemma fst_abs_res: "fst (abs_res res) = fst res"
  by (simp add: abs_res_def split: prod.splits)

lemma feed_refines:
  assumes "buf_inv b" "feed p b ds = (r, p', b', rest)" "r \<noteq> ERROR" "ds \<noteq> []"
  shows "buf_inv b' \<and> aparse p (contents b @ concat ds) = (r, p', contents b' @ concat rest)"
  using assms
proof (induction ds arbitrary: p b)
  case Nil
  then show ?case by simp
next
  case (Cons d ds)
  obtain r1 p1 b1 where run: "parse p (append_bytes b d) = (r1, p1, b1)" by (cases "parse p (append_bytes b d)")
  have ref: "buf_inv b1" "aparse p (contents b @ d) = (r1, p1, contents b1)"
    using parse_refines [OF _ run] Cons.prems(1) by (simp_all add: buf_simps)
  show ?case
  proof (cases r1)
    case OK
    with run Cons.prems ref show ?thesis
      using aparse_append [of p "contents b @ d" p1 "contents b1" "concat ds"] by simp
  next
    case INCOMPLETE
    note step = aparse_incomplete [OF ref(2) [unfolded INCOMPLETE], of "concat ds"]
    with run INCOMPLETE Cons.prems ref Cons.IH [of b1 p1] show ?thesis
      by (cases "ds = []") auto
  next
    case ERROR
    with run Cons.prems show ?thesis by simp
  qed
qed

section \<open>Properties\<close>

text \<open>
  C29: the parser on a buffer is the parser on the list of unread bytes. For every state and every
  well-formed buffer the answer, the new parser state and the bytes left unread are those of the
  list-level machine, which has neither indices nor a loop; the buffer stays well-formed. In
  particular every call returns: the loop over the states terminates.
\<close>

theorem parse_is_list_parser:
  assumes "buf_inv b"
  shows "abs_res (parse p b) = aparse p (contents b) \<and> buf_inv (snd (snd (parse p b)))"
  using parse_abs [OF assms] parse_inv [OF assms] by blast

theorem parse_is_list_parser_witness:
  "buf_inv (append_bytes (Buffer_new 16) (''GARBAGE'' @ CRLF)) \<and>
   fst (parse HttpParser_new (append_bytes (Buffer_new 16) (''GARBAGE'' @ CRLF))) = ERROR"
proof -
  let ?b = "append_bytes (Buffer_new 16) (''GARBAGE'' @ CRLF)"
  have inv: "buf_inv ?b" and c: "contents ?b = ''GARBAGE'' @ CRLF" by (simp_all add: buf_simps)
  have "fst (aparse HttpParser_new (''GARBAGE'' @ CRLF)) = ERROR" by code_simp
  with parse_is_list_parser [OF inv, of HttpParser_new] inv show ?thesis
    unfolding c by (metis fst_abs_res)
qed

text \<open>
  C8: it does not matter how the network cuts a request. If feeding the pieces one after the
  other, each through its own call of \<open>parse\<close>, ends with OK or is still INCOMPLETE, then one call
  on all the bytes gives the same answer and the same request, and leaves unread what the last
  call left together with the pieces that were not fed.
\<close>

theorem parse_pieces:
  assumes "buf_inv b" "feed p b ds = (r, p', b', rest)" "r \<noteq> ERROR" "ds \<noteq> []"
  shows "\<exists>b''. parse p (append_bytes b (concat ds)) = (r, p', b'') \<and> contents b'' = contents b' @ concat rest"
proof -
  obtain r1 p1 b1 where run: "parse p (append_bytes b (concat ds)) = (r1, p1, b1)"
    by (cases "parse p (append_bytes b (concat ds))")
  with parse_refines [OF _ run] feed_refines [OF assms] assms(1) show ?thesis
    by (simp add: buf_simps)
qed

theorem parse_pieces_witness:
  "let ds = [''GET /a HT'', ''TP/1.1'' @ CRLF @ CRLF, ''GET''] in
   buf_inv (Buffer_new 8) \<and> fst (feed HttpParser_new (Buffer_new 8) ds) = OK \<and>
   fst (parse HttpParser_new (append_bytes (Buffer_new 8) (concat ds))) = OK"
proof -
  let ?ds = "[''GET /a HT'', ''TP/1.1'' @ CRLF @ CRLF, ''GET'']"
  have ok: "fst (feed HttpParser_new (Buffer_new 8) ?ds) = OK" by code_simp
  then obtain p' b' rest where f: "feed HttpParser_new (Buffer_new 8) ?ds = (OK, p', b', rest)"
    by (metis prod.collapse)
  from parse_pieces [OF buf_inv_new f] ok show ?thesis by (auto simp: Let_def)
qed

text \<open>
  C37: the only way in which cutting can matter. If the parser rejects the first piece although it
  would not reject all the bytes together, then it stopped on an unfinished line that was already
  longer than \<open>kMaxRequestLine\<close>.
\<close>

theorem pieces_rejected_only_overlong:
  assumes "buf_inv b" "parse p (append_bytes b d1) = (ERROR, p1, b1)"
    "parse p (append_bytes b (d1 @ d2)) = (r, p2, b2)" "r \<noteq> ERROR"
  shows "kMaxRequestLine < readableBytes b1 \<and> findCRLF b1 0 = None"
proof -
  have a: "buf_inv b1" "aparse p (contents b @ d1) = (ERROR, p1, contents b1)"
    using parse_refines [OF _ assms(2)] assms(1) by (simp_all add: buf_simps)
  have "aparse p ((contents b @ d1) @ d2) = (r, p2, contents b2)"
    using parse_refines [OF _ assms(3)] assms(1) by (simp_all add: buf_simps)
  with aparse_error [OF a(2), of d2] assms(4)
  have "kMaxRequestLine < length (contents b1)" "aline (contents b1) = None" by auto
  with a(1) show ?thesis
    by (auto simp: readableBytes_contents conn_buffer.find_line_eq aline_def split: option.splits)
qed

text \<open>The request of the next two results: one header line of 9003 bytes.\<close>

definition long_header_request :: HttpRequest where
  "long_header_request = \<lparr>req_method = ''GET'', req_path = ''/'', req_query = [],
     req_version = ''HTTP/1.1'', req_headers = [(''x'', replicate 9000 CHR ''a'')], req_body = []\<rparr>"

definition long_header_cut :: "bytes list" where
  "long_header_cut = [render_line long_header_request @ CRLF @ ''x: '' @ replicate 9000 CHR ''a'', CRLF @ CRLF]"

lemma trim_replicate_a: "trim (replicate n CHR ''a'') = replicate n CHR ''a''"
proof -
  have "dropWhile isspace (replicate n CHR ''a'') = replicate n CHR ''a''"
    by (cases n) (simp_all add: isspace_def)
  then show ?thesis by (simp add: trim_def)
qed

lemma renderable_long: "renderable long_header_request"
proof -
  have "CR \<notin> set (''x: '' @ replicate 9000 CHR ''a'')" by simp
  then have "no_crlf (''x: '' @ replicate 9000 CHR ''a'')" unfolding no_crlf_def by (rule search_CRLF_no_CR)
  moreover have "toLower ''x'' = ''x''" "trim ''x'' = ''x''"
    "no_crlf ''GET / HTTP/1.1''" by code_simp+
  ultimately show ?thesis
    by (simp add: renderable_def long_header_request_def line_ok_def te_ok_def getHeader_def headers_ok_def
        map_ok_def kMaxHeaderCount_def kMaxBody_def kMaxRequestLine_def render_line_def target_of_def
        trim_replicate_a)
qed

lemma aparse_overlong:
  assumes "renderable r" "CR \<notin> set h" "kMaxRequestLine < length h"
  shows "fst (aparse HttpParser_new (render_line r @ CR # LF # h)) = ERROR"
proof -
  let ?p1 = "\<lparr>pstate = HEADERS, request = r\<lparr>req_headers := [], req_body := []\<rparr>, content_length = 0\<rparr>"
  have "no_crlf (render_line r)" using assms(1) by (simp add: renderable_def)
  then have l: "arequest_line HttpParser_new (render_line r @ CR # LF # h) = (OK, ?p1, h)"
    by (simp add: arequest_line_def aline_line requestLine_render [OF assms(1)])
  have "aline h = None" using search_CRLF_no_CR [OF assms(2)] by (simp add: aline_def)
  then have "aparse_headers ?p1 h = (ERROR, parser_error ?p1, h)"
    using assms(3) by (simp add: aparse_headers_def aheaders_eqs(1) ashort_def)
  with l show ?thesis by (simp add: aparse_def HttpParser_new_def)
qed

lemma parse_long:
  "fst (parse HttpParser_new (append_bytes (Buffer_new 1024) (hd long_header_cut))) = ERROR"
  "fst (parse HttpParser_new (append_bytes (Buffer_new 1024) (hd long_header_cut @ CRLF @ CRLF))) = OK"
proof -
  define a where "a = replicate 9000 CHR ''a''"
  have cr: "CR \<notin> set (''x: '' @ a)" and len: "kMaxRequestLine < length (''x: '' @ a)"
    by (simp_all add: a_def kMaxRequestLine_def)
  have hd: "hd long_header_cut = render_line long_header_request @ CR # LF # ''x: '' @ a"
    by (simp add: long_header_cut_def a_def)
  have whole: "hd long_header_cut @ CRLF @ CRLF = render long_header_request @ []"
    by (simp add: hd render_def header_line_def long_header_request_def a_def)
  have abs: "fst (parse HttpParser_new (append_bytes (Buffer_new 1024) d)) = fst (aparse HttpParser_new d)" for d
    using parse_abs [of "append_bytes (Buffer_new 1024) d" HttpParser_new]
    by (metis append_Nil append_bytes_inv buf_inv_new contents_append_bytes contents_new fst_abs_res)
  show "fst (parse HttpParser_new (append_bytes (Buffer_new 1024) (hd long_header_cut))) = ERROR"
    unfolding abs hd by (rule aparse_overlong [OF renderable_long cr len])
  show "fst (parse HttpParser_new (append_bytes (Buffer_new 1024) (hd long_header_cut @ CRLF @ CRLF))) = OK"
    unfolding abs whole aparse_render [OF renderable_long] by simp
qed

theorem pieces_rejected_only_overlong_witness:
  "\<exists>p1 b1. buf_inv (Buffer_new 1024) \<and>
     parse HttpParser_new (append_bytes (Buffer_new 1024) (hd long_header_cut)) = (ERROR, p1, b1) \<and>
     kMaxRequestLine < readableBytes b1 \<and> findCRLF b1 0 = None"
proof -
  obtain p1 b1 p2 b2 where
    a: "parse HttpParser_new (append_bytes (Buffer_new 1024) (hd long_header_cut)) = (ERROR, p1, b1)" and
    b: "parse HttpParser_new (append_bytes (Buffer_new 1024) (hd long_header_cut @ CRLF @ CRLF)) = (OK, p2, b2)"
    using parse_long by (metis prod.collapse)
  show ?thesis
    using pieces_rejected_only_overlong [OF buf_inv_new a b] a by (intro exI [of _ p1] exI [of _ b1]) simp
qed

text \<open>
  The length limit is applied to an unfinished header line but not to a finished one, so the
  same request is accepted when it arrives in one piece and rejected when a long header line is cut:
  a request with one header line of 9003 bytes gets OK in one call, and ERROR if the line end comes
  in a second piece.
\<close>

lemma long_header_depends_on_cut:
  "fst (parse HttpParser_new (append_bytes (Buffer_new 1024) (concat long_header_cut))) = OK \<and>
   fst (feed HttpParser_new (Buffer_new 1024) long_header_cut) = ERROR"
proof -
  obtain A where cut: "long_header_cut = [A, CRLF @ CRLF]" by (simp add: long_header_cut_def)
  show ?thesis using parse_long unfolding cut by (auto split: prod.splits)
qed

text \<open>
  C10: parsing undoes rendering. For every request that can be written down (a method and a target
  without blanks, a version \<open>HTTP/1.x\<close>, at most 100 lower-case trimmed header lines without CR LF,
  a body announced by its Content-Length and within the limits) a fresh parser that finds its
  bytes at the front of the buffer answers OK with exactly that request, and leaves exactly the
  bytes that follow, the next pipelined request, unread.
\<close>

theorem parse_render_roundtrip:
  assumes "renderable r" "buf_inv b" "contents b = render r @ rest"
  shows "\<exists>b'. parse HttpParser_new b =
      (OK, \<lparr>pstate = COMPLETE, request = r, content_length = length (req_body r)\<rparr>, b') \<and>
    buf_inv b' \<and> contents b' = rest"
proof -
  obtain r1 p1 b1 where run: "parse HttpParser_new b = (r1, p1, b1)" by (cases "parse HttpParser_new b")
  with parse_refines [OF assms(2) run] aparse_render [OF assms(1), of rest] assms(3) show ?thesis by simp
qed

definition sample_post :: HttpRequest where
  "sample_post = \<lparr>req_method = ''POST'', req_path = ''/echo'', req_query = ''a=1'',
     req_version = ''HTTP/1.1'', req_headers = [(''content-length'', ''5''), (''host'', ''h'')],
     req_body = ''hello''\<rparr>"

lemma renderable_sample_post: "renderable sample_post"
  by code_simp

theorem parse_render_roundtrip_witness:
  "let b = append_bytes (Buffer_new 8) (render sample_post @ ''GET'') in
   renderable sample_post \<and> buf_inv b \<and>
   (\<exists>b'. parse HttpParser_new b =
      (OK, \<lparr>pstate = COMPLETE, request = sample_post, content_length = length (req_body sample_post)\<rparr>, b') \<and>
    buf_inv b' \<and> contents b' = ''GET'')"
proof -
  let ?b = "append_bytes (Buffer_new 8) (render sample_post @ ''GET'')"
  have inv: "buf_inv ?b" and c: "contents ?b = render sample_post @ ''GET''" by (simp_all add: buf_simps)
  show ?thesis using parse_render_roundtrip [OF renderable_sample_post inv c] inv renderable_sample_post
    unfolding Let_def by blast
qed

text \<open>
  C28: the parser's state is always consistent. From a fresh or reset parser every call keeps the
  invariant: at most 100 headers with distinct, non-empty, lower-case, trimmed names, the expected
  body length is the one the Content-Length header announces, and the request parts that the state
  says are complete are well-formed. When the answer is OK the request is complete: method, path and
  \<open>HTTP/1.x\<close> version are present, no transfer coding other than identity was asked for, and the
  body has exactly the announced length, at most 8 MB.
\<close>

theorem parse_keeps_parser_ok:
  assumes "parser_ok p" "buf_inv b" "parse p b = (r, p', b')"
  shows "parser_ok p' \<and> parser_ok (parser_reset p') \<and>
    (r = OK \<longrightarrow> pstate p' = COMPLETE \<and> line_ok (request p') \<and> te_ok (request p') \<and>
       length (req_headers (request p')) \<le> 100 \<and>
       length (req_body (request p')) = announced_length (req_headers (request p')) \<and>
       length (req_body (request p')) \<le> 8388608)"
proof -
  have "aparse p (contents b) = (r, p', contents b')" using parse_refines [OF assms(2,3)] by simp
  from parser_ok_aparse [OF assms(1) this] parser_ok_complete [of p'] show ?thesis
    using parser_ok_new parser_reset_new [of p'] by metis
qed

theorem parse_keeps_parser_ok_witness:
  "let b = append_bytes (Buffer_new 8) (render sample_post) in
   parser_ok HttpParser_new \<and> buf_inv b \<and> fst (parse HttpParser_new b) = OK \<and>
   parser_ok (fst (snd (parse HttpParser_new b)))"
proof -
  let ?b = "append_bytes (Buffer_new 8) (render sample_post)"
  have inv: "buf_inv ?b" by simp
  have ok: "fst (parse HttpParser_new ?b) = OK" by code_simp
  then obtain p' b' where run: "parse HttpParser_new ?b = (OK, p', b')" by (metis prod.collapse)
  show ?thesis using parse_keeps_parser_ok [OF parser_ok_new inv run] run inv ok by (simp add: Let_def)
qed

text \<open>
  C36: an unfinished request cannot make the server hold unlimited input. When \<open>parse\<close> answers
  INCOMPLETE, the unread bytes it leaves in the buffer are at most \<open>kMaxRequestLine\<close> (8192) while the
  request line or a header line is unfinished, and fewer than the announced body length, itself at
  most 8 MB, while the body is.
\<close>

theorem incomplete_keeps_little:
  assumes "parser_ok p" "buf_inv b" "parse p b = (INCOMPLETE, p', b')"
  shows "if pstate p' = BODY then readableBytes b' < content_length p' \<and> content_length p' \<le> 8388608
         else readableBytes b' \<le> 8192"
proof -
  have r: "buf_inv b'" "aparse p (contents b) = (INCOMPLETE, p', contents b')"
    using parse_refines [OF assms(2,3)] by simp_all
  from parser_ok_aparse [OF assms(1) r(2)] show ?thesis
    by (auto simp: kept_bound_def readableBytes_contents [OF r(1)] kMaxBody_def kMaxRequestLine_def)
qed

theorem incomplete_keeps_little_witness:
  "let b = append_bytes (Buffer_new 8) (take 40 (render sample_post)) in
   parser_ok HttpParser_new \<and> buf_inv b \<and> fst (parse HttpParser_new b) = INCOMPLETE \<and>
   pstate (fst (snd (parse HttpParser_new b))) = HEADERS \<and>
   readableBytes (snd (snd (parse HttpParser_new b))) \<le> 8192"
proof -
  let ?b = "append_bytes (Buffer_new 8) (take 40 (render sample_post))"
  have inv: "buf_inv ?b" by simp
  have ok: "fst (parse HttpParser_new ?b) = INCOMPLETE"
    "pstate (fst (snd (parse HttpParser_new ?b))) = HEADERS" by code_simp+
  from ok(1) obtain p' b' where run: "parse HttpParser_new ?b = (INCOMPLETE, p', b')" by (metis prod.collapse)
  show ?thesis using incomplete_keeps_little [OF parser_ok_new inv run] run inv ok by (simp add: Let_def)
qed

text \<open>
  An error is final. After ERROR every further call, whatever arrives, answers ERROR again and
  touches neither the parser nor the buffer, until \<open>reset\<close> puts the parser back to its fresh state.
\<close>

lemma parse_error_final:
  assumes "buf_inv b" "parse p b = (ERROR, p', b')"
  shows "parse p' c = (ERROR, p', c) \<and> parser_reset p' = HttpParser_new"
proof -
  have "aparse p (contents b) = (ERROR, p', contents b')" using parse_refines [OF assms] by simp
  then have "pstate p' = STATE_ERROR" by (rule aparse_error_state)
  then show ?thesis by (simp add: parse.simps parse_turn_def parser_reset_new)
qed

lemma parse_error_final_witness:
  "let b = append_bytes (Buffer_new 8) (''GET / HTTP/9.9'' @ CRLF); p' = fst (snd (parse HttpParser_new b)) in
   buf_inv b \<and> fst (parse HttpParser_new b) = ERROR \<and>
   parse p' (append_bytes (Buffer_new 8) (render sample_post)) =
     (ERROR, p', append_bytes (Buffer_new 8) (render sample_post))"
proof -
  let ?b = "append_bytes (Buffer_new 8) (''GET / HTTP/9.9'' @ CRLF)"
  have inv: "buf_inv ?b" by simp
  have ok: "fst (parse HttpParser_new ?b) = ERROR" by code_simp
  then obtain p' b' where run: "parse HttpParser_new ?b = (ERROR, p', b')" by (metis prod.collapse)
  show ?thesis
    using parse_error_final [OF inv run, of "append_bytes (Buffer_new 8) (render sample_post)"] run inv ok
    by (simp add: Let_def)
qed

end
