(* ===== verification/Connection.thy ===== *)
theory Connection
  imports Loop_State Http_Parser_Props
begin

text \<open>
  One TCP connection, \<open>include/ws/connection.h\<close> and \<open>src/connection.cpp\<close>. Every member function is a
  function from the connection and its environment to both. The request handler is an argument, as in
  the code: it reads the environment (the server's handler reports the counters) and the request and
  fills in the response. The draining loop of \<open>handleRead\<close> is a function of its own, \<open>drain\<close>, and
  ends because every turn uses up part of what the socket has to offer; the loop of \<open>handleRequest\<close>
  ends because every accepted request uses up part of the input buffer.
\<close>

unbundle bit_operations_syntax

section \<open>Definitions\<close>

record sockaddr_in =
  sin_addr :: u32
  sin_port :: u16

text \<open>\<open>ntohs\<close> on a little-endian machine; \<open>inet_ntop\<close> belongs to the C library and is an argument.\<close>

definition ntohs :: "u16 \<Rightarrow> u16" where
  "ntohs w = push_bit 8 w OR drop_bit 8 w"

definition ipToString :: "(u32 \<Rightarrow> string option) \<Rightarrow> sockaddr_in \<Rightarrow> string" where
  "ipToString inet_ntop a = (case inet_ntop (sin_addr a) of None \<Rightarrow> ''?'' | Some s \<Rightarrow> s)"

definition kConnBaseEvents :: u32 where
  "kConnBaseEvents = EPOLLIN OR EPOLLET OR EPOLLRDHUP"

record Connection =
  oid :: nat
  shared :: bool
  c_fd :: int
  peer_ip :: string
  peer_port :: u16
  inbuf :: Buffer
  outbuf :: Buffer
  parser :: HttpParser
  idle_timeout_s :: int
  idle_timer :: nat
  last_activity :: int
  is_closed :: bool
  writing :: bool
  close_after_write :: bool
  keep_alive :: bool

type_synonym 'task handler = "'task env \<Rightarrow> HttpRequest \<Rightarrow> HttpResponse \<Rightarrow> HttpResponse"

definition Connection_new ::
  "(u32 \<Rightarrow> string option) \<Rightarrow> nat \<Rightarrow> int \<Rightarrow> sockaddr_in \<Rightarrow> int \<Rightarrow> 'task env \<Rightarrow> Connection \<times> 'task env" where
  "Connection_new inet_ntop i fd peer timeout e =
     (let (t, e') = env_now e in
      (\<lparr>oid = i, shared = False, c_fd = fd, peer_ip = ipToString inet_ntop peer, peer_port = ntohs (sin_port peer),
        inbuf = ensureWritableBytes (Buffer_new kInitialSize) 2048, outbuf = Buffer_new kInitialSize,
        parser = HttpParser_new, idle_timeout_s = timeout, idle_timer = 0, last_activity = t,
        is_closed = False, writing = False, close_after_write = False, keep_alive = True\<rparr>, e'))"

definition Connection_destroy :: "Connection \<Rightarrow> 'task env \<Rightarrow> Connection \<times> 'task env" where
  "Connection_destroy c e =
     (if 0 \<le> c_fd c
      then (c\<lparr>c_fd := - 1\<rparr>, fd_close (c_fd c) (on_poller (Epoller_del (c_fd c)) e))
      else (c, e))"

definition conn_close :: "Connection \<Rightarrow> 'task env \<Rightarrow> Connection \<times> 'task env" where
  "conn_close c e =
     (if is_closed c then (c, e)
      else
        let c = c\<lparr>is_closed := True\<rparr>;
            fd = c_fd c;
            (c, e) = (if idle_timer c \<noteq> 0
                      then (c\<lparr>idle_timer := 0\<rparr>, on_timers (cancel (idle_timer c)) e) else (c, e));
            e = (if 0 \<le> fd then fd_close fd (on_poller (Epoller_del fd) e) else e);
            c = c\<lparr>c_fd := - 1\<rparr>;
            e = e\<lparr>loop := removeConnection fd (loop e)\<rparr>
        in (c, bump (closed_update (\<lambda>n. n + 1)) e))"

definition armIdleTimer :: "Connection \<Rightarrow> 'task env \<Rightarrow> Connection \<times> 'task env" where
  "armIdleTimer c e =
     (if is_closed c \<or> idle_timeout_s c \<le> 0 then (c, e)
      else if \<not> shared c then (c, e)
      else
        let (tid, k, h) = addAfter (idle_timeout_s c * 1000) (Some (IdleCheck (oid c))) (clk (sys e)) (timers (loop e))
        in (c\<lparr>idle_timer := tid\<rparr>, e\<lparr>loop := (loop e)\<lparr>timers := h\<rparr>, sys := (sys e)\<lparr>clk := k\<rparr>\<rparr>))"

text \<open>The body of the timer's closure once \<open>weak.lock()\<close> has succeeded.\<close>

definition idleCheck :: "Connection \<Rightarrow> 'task env \<Rightarrow> Connection \<times> 'task env" where
  "idleCheck c e =
     (let (t, e) = env_now e;
          idle = t - last_activity c
      in if idle_timeout_s c * 1000000000 \<le> idle
         then conn_close (c\<lparr>idle_timer := 0\<rparr>) (bump (timeouts_closed_update (\<lambda>n. n + 1)) e)
         else armIdleTimer c e)"

definition touch :: "Connection \<Rightarrow> 'task env \<Rightarrow> Connection \<times> 'task env" where
  "touch c e = (let (t, e) = env_now e in (c\<lparr>last_activity := t\<rparr>, e))"

definition handleError :: "Connection \<Rightarrow> 'task env \<Rightarrow> Connection \<times> 'task env" where
  "handleError c e = conn_close c (bump (errors_update (\<lambda>n. n + 1)) e)"

definition enableWriting :: "bool \<Rightarrow> Connection \<Rightarrow> 'task env \<Rightarrow> Connection \<times> 'task env" where
  "enableWriting on c e =
     (if is_closed c then (c, e)
      else let ev = (if on then kConnBaseEvents OR EPOLLOUT else kConnBaseEvents)
           in (c\<lparr>writing := on\<rparr>, on_poller (Epoller_mod (c_fd c) ev) e))"

text \<open>\<open>handleWrite\<close> up to the test of what is left: \<open>Inl\<close> where the code returns early.\<close>

definition writeSome ::
  "Connection \<Rightarrow> 'task env \<Rightarrow> (Connection \<times> 'task env) + (Connection \<times> 'task env)" where
  "writeSome c e =
     (if 0 < readableBytes (outbuf c) then
        (case env_write (c_fd c) (peek_n (outbuf c) (readableBytes (outbuf c))) e of
           (Inr n, e1) \<Rightarrow>
             if 0 < n then Inr (c\<lparr>outbuf := retrieve (outbuf c) n\<rparr>, bump (bytes_written_update (\<lambda>k. k + of_nat n)) e1)
             else Inr (c, e1)
         | (Inl er, e1) \<Rightarrow>
             if er = EINTR then Inl (c, e1)
             else if er \<noteq> EAGAIN \<and> er \<noteq> EWOULDBLOCK then Inl (handleError c e1)
             else Inr (c, e1))
      else Inr (c, e))"

definition handleWrite :: "Connection \<Rightarrow> 'task env \<Rightarrow> Connection \<times> 'task env" where
  "handleWrite c e =
     (if is_closed c then (c, e)
      else case writeSome c e of
        Inl r \<Rightarrow> r
      | Inr (c, e) \<Rightarrow>
          if readableBytes (outbuf c) = 0 then
            let (c, e) = (if writing c then enableWriting False c e else (c, e))
            in if close_after_write c then conn_close c e else (c, e)
          else if \<not> writing c then enableWriting True c e
          else (c, e))"

definition conn_send :: "string \<Rightarrow> Connection \<Rightarrow> 'task env \<Rightarrow> Connection \<times> 'task env" where
  "conn_send data c e =
     (if is_closed c \<or> data = [] then (c, e)
      else handleWrite (c\<lparr>outbuf := append_bytes (outbuf c) data\<rparr>) e)"

definition bad_request :: string where
  "bad_request = toString (setHeader (HttpResponse_make 400 (''400 Bad Request'' @ [LF]) text_plain) ''Connection'' ''close'')"

text \<open>The three outcomes of one turn of \<open>handleRequest\<close>.\<close>

definition rejectRequest :: "Connection \<Rightarrow> 'task env \<Rightarrow> Connection \<times> 'task env" where
  "rejectRequest c e =
     conn_send bad_request (c\<lparr>close_after_write := True, keep_alive := False\<rparr>)
       (bump (errors_update (\<lambda>n. n + 1)) e)"

definition answerRequest :: "'task handler \<Rightarrow> Connection \<Rightarrow> 'task env \<Rightarrow> Connection \<times> 'task env" where
  "answerRequest handler c e =
     (let e = bump (requests_update (\<lambda>n. n + 1)) e;
          req = request (parser c);
          resp = handler e req HttpResponse_new;
          ka = (keepAlive req \<and> \<not> close_connection resp);
          c = c\<lparr>keep_alive := ka\<rparr>;
          (resp, c) = (if ka then (resp, c)
                       else (setHeader resp ''Connection'' ''close'', c\<lparr>close_after_write := True\<rparr>));
          (c, e) = conn_send (toString resp) c e;
          e = bump (responses_update (\<lambda>n. n + 1)) e
      in (c\<lparr>parser := parser_reset (parser c)\<rparr>, e))"

subsection \<open>Why the loops end\<close>

lemma conn_close_frame [frame_simps]:
  "inbuf (fst (conn_close c e)) = inbuf c" "outbuf (fst (conn_close c e)) = outbuf c"
  "parser (fst (conn_close c e)) = parser c" "keep_alive (fst (conn_close c e)) = keep_alive c"
  "close_after_write (fst (conn_close c e)) = close_after_write c" "oid (fst (conn_close c e)) = oid c"
  "idle_timeout_s (fst (conn_close c e)) = idle_timeout_s c" "shared (fst (conn_close c e)) = shared c"
  by (simp_all add: conn_close_def Let_def)

lemma handleError_frame [frame_simps]:
  "inbuf (fst (handleError c e)) = inbuf c" "outbuf (fst (handleError c e)) = outbuf c"
  "parser (fst (handleError c e)) = parser c" "keep_alive (fst (handleError c e)) = keep_alive c"
  by (simp_all add: handleError_def frame_simps)

lemma enableWriting_frame [frame_simps]:
  "inbuf (fst (enableWriting on c e)) = inbuf c" "outbuf (fst (enableWriting on c e)) = outbuf c"
  "parser (fst (enableWriting on c e)) = parser c" "keep_alive (fst (enableWriting on c e)) = keep_alive c"
  "close_after_write (fst (enableWriting on c e)) = close_after_write c"
  by (simp_all add: enableWriting_def Let_def)

lemma writeSome_frame:
  "writeSome c e = Inl r \<or> writeSome c e = Inr r \<Longrightarrow>
   inbuf (fst r) = inbuf c \<and> parser (fst r) = parser c \<and> keep_alive (fst r) = keep_alive c"
  by (auto simp: writeSome_def frame_simps split: if_splits sum.splits prod.splits)

lemma handleWrite_frame [frame_simps]:
  "inbuf (fst (handleWrite c e)) = inbuf c" "parser (fst (handleWrite c e)) = parser c"
  "keep_alive (fst (handleWrite c e)) = keep_alive c"
  using writeSome_frame [of c e]
  by (auto simp: handleWrite_def frame_simps Let_def case_prod_beta split: sum.split)

lemma conn_send_frame [frame_simps]:
  "inbuf (fst (conn_send d c e)) = inbuf c" "parser (fst (conn_send d c e)) = parser c"
  "keep_alive (fst (conn_send d c e)) = keep_alive c"
  by (simp_all add: conn_send_def frame_simps)

lemma answerRequest_frame [frame_simps]:
  "inbuf (fst (answerRequest h c e)) = inbuf c" "parser (fst (answerRequest h c e)) = HttpParser_new"
  by (auto simp: answerRequest_def frame_simps Let_def parser_reset_new case_prod_beta)

lemma retrieve_readable: "readableBytes (retrieve b n) \<le> readableBytes b"
  by (auto simp: retrieve_def retrieveAll_def readableBytes_def)

lemma peekLine_readable:
  "peekLine b = Some (line, n) \<Longrightarrow> readableBytes (retrieve b n) < readableBytes b"
  by (auto simp: peekLine_def findCRLF_def Let_def retrieve_def retrieveAll_def readableBytes_def
      split: option.splits if_splits)

lemma parseHeaders_readable: "readableBytes (snd (snd (parseHeaders p b))) \<le> readableBytes b"
proof (induction p b rule: parseHeaders.induct)
  case (1 p b)
  show ?case
  proof (cases "peekLine b")
    case None
    then show ?thesis by (simp add: parse_simps)
  next
    case (Some lc)
    obtain line n where lc: "lc = (line, n)" by (cases lc)
    note s = Some [unfolded lc]
    consider "line = []" | "line \<noteq> []" "headerLine p line = None"
      | q where "line \<noteq> []" "headerLine p line = Some q" by fastforce
    then show ?thesis
    proof cases
      case 1
      with s show ?thesis using retrieve_readable by (simp add: parse_simps split: option.split)
    next
      case 2
      with s show ?thesis using retrieve_readable by (simp add: parse_simps)
    next
      case (3 q)
      with s "1.IH" [OF s refl refl, of q] retrieve_readable [of b n] show ?thesis
        by (simp add: parse_simps)
    qed
  qed
qed

lemma parse_turn_readable: "readableBytes (snd (snd (parse_turn p b))) \<le> readableBytes b"
  using parseHeaders_readable retrieve_readable
  by (auto simp: parse_turn_def parseRequestLine_def parseBody_def retrieveAsString_def Let_def
      split: State.split option.split prod.split)

lemma parse_turn_fresh:
  "parse_turn p b = (OK, p', b') \<Longrightarrow> pstate p = REQUEST_LINE \<Longrightarrow> readableBytes b' < readableBytes b"
  using peekLine_readable
  by (auto simp: parse_turn_def parseRequestLine_def split: option.splits if_splits)

lemma parse_readable: "readableBytes (snd (snd (parse p b))) \<le> readableBytes b"
proof (induction p b rule: parse.induct)
  case (1 p b)
  then show ?case
    using parse_turn_readable [of p b]
    by (subst parse.simps) (fastforce split: prod.split Ret.split)
qed

lemma parse_fresh:
  assumes "parse p b = (OK, p', b')" "pstate p = REQUEST_LINE"
  shows "readableBytes b' < readableBytes b"
proof -
  obtain q c where t: "parse_turn p b = (OK, q, c)" "parse q c = (OK, p', b')"
    using assms by (subst (asm) parse.simps) (auto split: prod.splits Ret.splits)
  with parse_turn_fresh [OF t(1) assms(2)] parse_readable [of q c] show ?thesis by simp
qed

subsection \<open>The loops\<close>

text \<open>\<open>input_.readFd(fd_, &saved)\<close>; a negative descriptor answers EBADF.\<close>

definition conn_readFd :: "Connection \<Rightarrow> 'task env \<Rightarrow> (errno + nat) \<times> Connection \<times> 'task env" where
  "conn_readFd c e =
     (if c_fd c < 0 then (Inl (EOther 9), c, e)
      else case readFd (inbuf c) (rxs (sys e) (c_fd c)) of (r, b, s) \<Rightarrow>
        (r, c\<lparr>inbuf := b\<rparr>, e\<lparr>sys := (sys e)\<lparr>rxs := (rxs (sys e))(c_fd c := s)\<rparr>\<rparr>))"

datatype drain_end = DrainAgain | DrainEof | DrainError

function drain :: "Connection \<Rightarrow> 'task env \<Rightarrow> drain_end \<times> Connection \<times> 'task env" where
  "drain c e =
     (case conn_readFd c e of
        (Inr n, c, e) \<Rightarrow>
          if 0 < n then drain c (bump (bytes_read_update (\<lambda>k. k + of_nat n)) e) else (DrainEof, c, e)
      | (Inl er, c, e) \<Rightarrow>
          if er = EAGAIN \<or> er = EWOULDBLOCK then (DrainAgain, c, e)
          else if er = EINTR then drain c e
          else (DrainError, c, e))"
  by pat_completeness auto

lemma readFd_progress:
  "readFd b s = (Inr n, b', s') \<Longrightarrow> 0 < n \<Longrightarrow> rx_size s' < rx_size s"
  "readFd b s = (Inl e, b', s') \<Longrightarrow> e \<noteq> EAGAIN \<Longrightarrow> rx_size s' < rx_size s"
  using readv_progress [of "iov_room b" s] readv_error_progress [of "iov_room b" s]
  by (force simp: readFd_def Let_def split: prod.splits sum.splits if_splits)+

lemma conn_readFd_progress:
  "conn_readFd c e = (Inr n, c', e') \<Longrightarrow> 0 < n \<Longrightarrow>
     rx_size (rxs (sys e') (c_fd c')) < rx_size (rxs (sys e) (c_fd c))"
  "conn_readFd c e = (Inl EINTR, c', e') \<Longrightarrow> rx_size (rxs (sys e') (c_fd c')) < rx_size (rxs (sys e) (c_fd c))"
  using readFd_progress
  by (force simp: conn_readFd_def split: prod.splits if_splits)+

termination drain
proof (relation "measure (\<lambda>(c, e). rx_size (rxs (sys e) (c_fd c)))", goal_cases)
  case 1
  then show ?case by simp
next
  case (2 c e r rest er c' e')
  then show ?case using conn_readFd_progress(2) [of c e c' e'] by auto
next
  case (3 c e r rest n c' e')
  then show ?case using conn_readFd_progress(1) [of c e n c' e'] by (auto simp: bump_def)
qed

declare drain.simps [simp del]

function handleRequest :: "'task handler \<Rightarrow> Connection \<Rightarrow> 'task env \<Rightarrow> Connection \<times> 'task env" where
  "handleRequest handler c e =
     (case parse (parser c) (inbuf c) of (r, p, b) \<Rightarrow>
        let c = c\<lparr>parser := p, inbuf := b\<rparr> in
        case r of
          INCOMPLETE \<Rightarrow> (c, e)
        | ERROR \<Rightarrow> rejectRequest c e
        | OK \<Rightarrow>
            (case answerRequest handler c e of (c, e) \<Rightarrow>
               if \<not> keep_alive c then (c, e)
               else if readableBytes (inbuf c) = 0 then (c, e)
               else handleRequest handler c e))"
  by pat_completeness auto
termination
proof (relation "measure (\<lambda>(h, c, e). 2 * readableBytes (inbuf c) + (if pstate (parser c) = REQUEST_LINE then 0 else 1))",
    goal_cases)
  case 1
  then show ?case by simp
next
  case (2 h c e r rest p b c1 c2 e2)
  have f: "inbuf c2 = b" "parser c2 = HttpParser_new"
    using 2 answerRequest_frame [of h c1 e] by (auto dest!: arg_cong [where f = fst])
  have "parse (parser c) (inbuf c) = (OK, p, b)" using 2 by simp
  with parse_readable [of "parser c" "inbuf c"] parse_fresh [of "parser c" "inbuf c" p b] f show ?case
    by (simp add: HttpParser_new_def)
qed

declare handleRequest.simps [simp del]

definition handleRead :: "'task handler \<Rightarrow> Connection \<Rightarrow> 'task env \<Rightarrow> Connection \<times> 'task env" where
  "handleRead handler c e =
     (case drain c e of
        (DrainEof, c, e) \<Rightarrow> conn_close c e
      | (DrainError, c, e) \<Rightarrow> handleError c e
      | (DrainAgain, c, e) \<Rightarrow> (case touch c e of (c, e) \<Rightarrow> handleRequest handler c e))"

section \<open>What every operation on a connection keeps\<close>

definition conn_events :: "Connection \<Rightarrow> u32" where
  "conn_events c = (if writing c then kConnBaseEvents OR EPOLLOUT else kConnBaseEvents)"

definition loop_ok :: "'task env \<Rightarrow> bool" where
  "loop_ok e \<longleftrightarrow> 0 \<le> epfd (poller (loop e)) \<and> timer_inv (timers (loop e))"

text \<open>
  An open connection is in the loop's table under its descriptor and registered for exactly the events
  its \<open>writing_\<close> flag says; a closed one has given up its descriptor and its timer.
\<close>

definition conn_ok :: "Connection \<Rightarrow> 'task env \<Rightarrow> bool" where
  "conn_ok c e \<longleftrightarrow> buf_inv (inbuf c) \<and> buf_inv (outbuf c) \<and> parser_ok (parser c) \<and> loop_ok e \<and>
     (if is_closed c then c_fd c = - 1 \<and> idle_timer c = 0
      else 0 \<le> c_fd c \<and> connections (loop e) (c_fd c) = Some (oid c) \<and>
        interest (poller (loop e)) (c_fd c) = Some (conn_events c) \<and> idle_timer c < next_id (timers (loop e)))"

text \<open>Nothing that belongs to another descriptor changes.\<close>

definition others_same :: "int \<Rightarrow> 'task env \<Rightarrow> 'task env \<Rightarrow> bool" where
  "others_same fd e e' \<longleftrightarrow> (\<forall>f. 0 \<le> f \<and> f \<noteq> fd \<longrightarrow>
     connections (loop e') f = connections (loop e) f \<and>
     interest (poller (loop e')) f = interest (poller (loop e)) f \<and>
     wire (sys e') f = wire (sys e) f \<and> rxs (sys e') f = rxs (sys e) f \<and> txs (sys e') f = txs (sys e) f)"

text \<open>What belongs to the loop as a whole and to the server: no operation on a connection touches it.\<close>

definition loop_frame :: "'task env \<Rightarrow> 'task env \<Rightarrow> bool" where
  "loop_frame e e' \<longleftrightarrow>
     wakeup_fd (loop e') = wakeup_fd (loop e) \<and> acceptor_fd (loop e') = acceptor_fd (loop e) \<and>
     has_acceptor (loop e') = has_acceptor (loop e) \<and> epfd (poller (loop e')) = epfd (poller (loop e)) \<and>
     quit_flag (loop e') = quit_flag (loop e) \<and> looping (loop e') = looping (loop e) \<and>
     pending (loop e') = pending (loop e) \<and> calling_pending (loop e') = calling_pending (loop e) \<and>
     opened (counters e') = opened (counters e) \<and> accepted (counters e') = accepted (counters e) \<and>
     eventfd (sys e') = eventfd (sys e) \<and> eps (sys e') = eps (sys e)"

lemma loop_frame_refl [simp]: "loop_frame e e"
  by (simp add: loop_frame_def)

lemma loop_frame_trans: "loop_frame e e1 \<Longrightarrow> loop_frame e1 e2 \<Longrightarrow> loop_frame e e2"
  by (simp add: loop_frame_def)

text \<open>
  The step from \<open>(c, e)\<close> to \<open>(c', e')\<close>: what one or several operations on a connection may do. A
  connection closes at most once, and then its descriptor is closed, unregistered and forgotten.
\<close>

definition conn_step :: "Connection \<Rightarrow> 'task env \<Rightarrow> Connection \<times> 'task env \<Rightarrow> bool" where
  "conn_step c e r \<longleftrightarrow> (case r of (c', e') \<Rightarrow>
     conn_ok c' e' \<and> oid c' = oid c \<and> shared c' = shared c \<and> idle_timeout_s c' = idle_timeout_s c \<and>
     others_same (c_fd c) e e' \<and> loop_frame e e' \<and> connections (loop e') \<subseteq>\<^sub>m connections (loop e) \<and>
     (is_closed c \<longrightarrow> is_closed c') \<and> (\<not> is_closed c' \<longrightarrow> c_fd c' = c_fd c) \<and>
     (if is_closed c' \<and> \<not> is_closed c
      then closed (counters e') = closed (counters e) + 1 \<and> closed_fds (sys e') = closed_fds (sys e) @ [c_fd c] \<and>
        connections (loop e') (c_fd c) = None \<and> interest (poller (loop e')) (c_fd c) = None
      else closed (counters e') = closed (counters e) \<and> closed_fds (sys e') = closed_fds (sys e)) \<and>
     clk_now (clk (sys e)) \<le> clk_now (clk (sys e')) \<and> next_id (timers (loop e)) \<le> next_id (timers (loop e')))"

lemma conn_step_refl [simp]: "conn_ok c e \<Longrightarrow> conn_step c e (c, e)"
  by (simp add: conn_step_def others_same_def)

lemma others_same_trans:
  "others_same fd e e1 \<Longrightarrow> others_same fd' e1 e2 \<Longrightarrow> fd' = fd \<or> fd' = - 1 \<Longrightarrow> others_same fd e e2"
  by (auto simp: others_same_def)

lemma conn_step_trans:
  assumes "conn_ok c e" "conn_step c e (c1, e1)" "conn_step c1 e1 r"
  shows "conn_step c e r"
proof -
  obtain c2 e2 where r: "r = (c2, e2)" by (cases r)
  have fd: "c_fd c1 = c_fd c \<or> c_fd c1 = - 1" using assms by (auto simp: conn_step_def conn_ok_def)
  have os: "others_same (c_fd c) e e2"
    using assms fd others_same_trans [of "c_fd c" e e1 "c_fd c1" e2] by (simp add: conn_step_def r)
  have tb: "connections (loop e2) \<subseteq>\<^sub>m connections (loop e)"
    using assms(2,3) map_le_trans by (auto simp: conn_step_def r)
  have lf: "loop_frame e e2"
    using assms(2,3) loop_frame_trans by (auto simp: conn_step_def r)
  show ?thesis
  proof (cases "is_closed c1 \<and> \<not> is_closed c")
    case True
    then have a: "is_closed c2" "c_fd c1 = - 1" "0 \<le> c_fd c"
      using assms by (auto simp: conn_step_def conn_ok_def r)
    then have "connections (loop e2) (c_fd c) = None" "interest (poller (loop e2)) (c_fd c) = None"
      using True assms(2,3) by (simp_all add: conn_step_def r others_same_def)
    with True a os tb lf assms(2,3) show ?thesis by (simp add: conn_step_def r)
  next
    case False
    then have "c_fd c1 = c_fd c" "is_closed c1 = is_closed c" using assms by (auto simp: conn_step_def conn_ok_def)
    with os tb lf assms(2,3) show ?thesis by (cases "is_closed c"; cases "is_closed c2") (simp_all add: conn_step_def r)
  qed
qed

lemma conn_step_ok: "conn_step c e (c', e') \<Longrightarrow> conn_ok c' e'"
  by (simp add: conn_step_def)

text \<open>Changes that a step may make at any time: the counters of requests and bytes, the bookkeeping fields.\<close>

lemma conn_step_bump:
  assumes "conn_step c e (c', e')" "\<And>ct. closed (f ct) = closed ct \<and> opened (f ct) = opened ct \<and> accepted (f ct) = accepted ct"
  shows "conn_step c e (c', bump f e')"
proof -
  have "conn_ok c' (bump f e') = conn_ok c' e'" "others_same (c_fd c) e (bump f e') = others_same (c_fd c) e e'"
      "loop_frame e (bump f e') = loop_frame e e'" "closed (counters (bump f e')) = closed (counters e')"
      "loop (bump f e') = loop e'" "sys (bump f e') = sys e'"
    using assms(2) by (simp_all add: bump_def conn_ok_def loop_ok_def others_same_def loop_frame_def)
  with assms(1) show ?thesis by (simp add: conn_step_def)
qed

lemma close_step:
  assumes "conn_ok c e"
  shows "conn_step c e (conn_close c e)"
proof (cases "is_closed c")
  case True
  with assms show ?thesis by (simp add: conn_close_def)
next
  case False
  let ?P = "poller (loop e)" and ?T = "timers (loop e)"
  have ok: "0 \<le> epfd ?P" "timer_inv ?T" "0 \<le> c_fd c" using assms False by (auto simp: conn_ok_def loop_ok_def)
  have del: "interest (snd (Epoller_del (c_fd c) ?P)) = (interest ?P)(c_fd c := None)"
    by (rule epoll.del_known) (use ok in auto)
  have T: "timer_inv (cancel (idle_timer c) ?T)" "next_id (cancel (idle_timer c) ?T) = next_id ?T"
    using ok by (auto simp: timer_inv_cancel) (simp add: cancel_def)
  show ?thesis
    using assms False ok del T
    by (auto simp: conn_close_def Let_def conn_step_def conn_ok_def loop_ok_def others_same_def loop_frame_def bump_def
        fd_close_def on_poller_def on_timers_def removeConnection_def frame_simps)
qed

lemma handleError_step:
  assumes "conn_ok c e"
  shows "conn_step c e (handleError c e)"
proof -
  have b: "conn_step c e (c, bump (errors_update (\<lambda>n. n + 1)) e)"
    by (rule conn_step_bump) (simp_all add: assms)
  show ?thesis
    unfolding handleError_def by (rule conn_step_trans [OF assms b close_step]) (rule conn_step_ok [OF b])
qed

lemma enableWriting_step:
  assumes "conn_ok c e"
  shows "conn_step c e (enableWriting on c e)"
proof (cases "is_closed c")
  case True
  with assms show ?thesis by (simp add: enableWriting_def)
next
  case False
  let ?P = "poller (loop e)"
  have ok: "0 \<le> epfd ?P" "0 \<le> c_fd c" "interest ?P (c_fd c) \<noteq> None"
    using assms False by (auto simp: conn_ok_def loop_ok_def)
  have m: "interest (snd (Epoller_mod (c_fd c) ev ?P)) = (interest ?P)(c_fd c \<mapsto> ev)" for ev
    using epoll.modify_known [OF ok] by simp
  show ?thesis
    using assms False ok m
    by (simp add: enableWriting_def conn_step_def conn_ok_def loop_ok_def others_same_def loop_frame_def conn_events_def
        on_poller_def frame_simps)
qed

lemma env_now_facts:
  "env_now e = (t, e') \<Longrightarrow> t = clk_now (clk (sys e)) \<and> loop e' = loop e \<and> counters e' = counters e \<and>
   rxs (sys e') = rxs (sys e) \<and> txs (sys e') = txs (sys e) \<and> wire (sys e') = wire (sys e) \<and>
   closed_fds (sys e') = closed_fds (sys e) \<and> clk_now (clk (sys e)) \<le> clk_now (clk (sys e')) \<and>
   eventfd (sys e') = eventfd (sys e) \<and> eps (sys e') = eps (sys e)"
  using clk_read_mono [of "clk (sys e)"] by (auto simp: env_now_def Let_def split: prod.splits)

lemma now_step:
  assumes "conn_step c e (c', e')" "env_now e' = (t, e'')"
  shows "conn_step c e (c', e'')"
proof -
  note f = env_now_facts [OF assms(2)]
  have "conn_ok c' e'' = conn_ok c' e'" "others_same (c_fd c) e e'' = others_same (c_fd c) e e'" "loop_frame e e'' = loop_frame e e'"
    using f by (simp_all add: conn_ok_def loop_ok_def others_same_def loop_frame_def)
  with assms(1) f show ?thesis by (simp add: conn_step_def)
qed

lemma conn_step_fields:
  assumes "conn_step c e (c', e')"
  shows "conn_step c e (c'\<lparr>last_activity := t\<rparr>, e')" "conn_step c e (c'\<lparr>keep_alive := b\<rparr>, e')"
    "conn_step c e (c'\<lparr>close_after_write := b\<rparr>, e')"
    "parser_ok p \<Longrightarrow> conn_step c e (c'\<lparr>parser := p\<rparr>, e')"
    "buf_inv x \<Longrightarrow> conn_step c e (c'\<lparr>inbuf := x\<rparr>, e')"
    "buf_inv x \<Longrightarrow> conn_step c e (c'\<lparr>outbuf := x\<rparr>, e')"
  using assms by (auto simp: conn_step_def conn_ok_def conn_events_def)

lemma touch_step: "conn_ok c e \<Longrightarrow> conn_step c e (touch c e)"
  by (auto simp: touch_def split: prod.split intro: conn_step_fields now_step [OF conn_step_refl])

lemma addAfter_facts:
  assumes "addAfter ms cb k h = (tid, k', h')" "timer_inv h"
  shows "timer_inv h' \<and> tid = next_id h \<and> next_id h' = next_id h + 1 \<and> clk_now k \<le> clk_now k'"
proof -
  obtain t where r: "clk_read k = (t, k')" "timer_add (t + ms * ns_per_ms) cb h = (tid, h')"
    using assms(1) by (auto simp: addAfter_def Let_def split: prod.splits)
  then have "next_id h' = next_id h + 1" by (auto simp: timer_add_def Let_def)
  with timer_inv_add [OF assms(2) r(2)] clk_read_mono [OF r(1)] show ?thesis by auto
qed

lemma armIdleTimer_step:
  assumes "conn_ok c e"
  shows "conn_step c e (armIdleTimer c e)"
proof (cases "is_closed c \<or> idle_timeout_s c \<le> 0 \<or> \<not> shared c")
  case True
  with assms show ?thesis by (auto simp: armIdleTimer_def)
next
  case False
  obtain tid k h where a: "addAfter (idle_timeout_s c * 1000) (Some (IdleCheck (oid c))) (clk (sys e)) (timers (loop e)) = (tid, k, h)"
    by (metis prod_cases3)
  with assms have "timer_inv h \<and> tid = next_id (timers (loop e)) \<and> next_id h = next_id (timers (loop e)) + 1 \<and>
      clk_now (clk (sys e)) \<le> clk_now k"
    by (intro addAfter_facts) (auto simp: conn_ok_def loop_ok_def)
  with False assms a show ?thesis
    by (auto simp: armIdleTimer_def conn_step_def conn_ok_def loop_ok_def others_same_def loop_frame_def conn_events_def)
qed

lemma idleCheck_step:
  assumes "conn_ok c e"
  shows "conn_step c e (idleCheck c e)"
proof -
  obtain t e1 where n: "env_now e = (t, e1)" by fastforce
  have s: "conn_step c e (c, e1)" by (rule now_step [OF conn_step_refl [OF assms] n])
  show ?thesis
  proof (cases "idle_timeout_s c * 1000000000 \<le> t - last_activity c")
    case True
    let ?e = "bump (timeouts_closed_update (\<lambda>n. n + 1)) e1"
    have "conn_step c e (c, ?e)" by (rule conn_step_bump [OF s]) simp
    then have z: "conn_step c e (c\<lparr>idle_timer := 0\<rparr>, ?e)"
      by (auto simp: conn_step_def conn_ok_def conn_events_def loop_ok_def timer_inv_def)
    with True n show ?thesis
      using conn_step_trans [OF assms z close_step [OF conn_step_ok [OF z]]] by (simp add: idleCheck_def)
  next
    case False
    with n show ?thesis
      using conn_step_trans [OF assms s armIdleTimer_step [OF conn_step_ok [OF s]]] by (simp add: idleCheck_def)
  qed
qed

lemma env_write_facts:
  assumes "env_write fd d e = (r, e')"
  shows "loop e' = loop e \<and> counters e' = counters e \<and> rxs (sys e') = rxs (sys e) \<and> clk (sys e') = clk (sys e) \<and>
    closed_fds (sys e') = closed_fds (sys e) \<and> eventfd (sys e') = eventfd (sys e) \<and> eps (sys e') = eps (sys e) \<and> (\<forall>f. f \<noteq> fd \<longrightarrow> wire (sys e') f = wire (sys e) f \<and> txs (sys e') f = txs (sys e) f) \<and>
    wire (sys e') fd = wire (sys e) fd @ (case r of Inl _ \<Rightarrow> [] | Inr n \<Rightarrow> take n d) \<and>
    (\<forall>n. r = Inr n \<longrightarrow> n \<le> length d)"
proof -
  have "n \<le> length d" if "sys_write d s = (Inr n, s')" for n s s'
    using that by (cases "(d, s)" rule: sys_write.cases) auto
  with assms show ?thesis by (auto simp: env_write_def split: prod.splits sum.splits)
qed

lemma write_step:
  assumes "conn_ok c e" "env_write (c_fd c) d e = (r, e')"
  shows "conn_step c e (c, e')"
  using assms(1) env_write_facts [OF assms(2)]
  by (auto simp: conn_step_def conn_ok_def loop_ok_def others_same_def loop_frame_def)

lemma writeSome_step:
  assumes "conn_ok c e" "writeSome c e = Inl r \<or> writeSome c e = Inr r"
  shows "conn_step c e r"
proof (cases "0 < readableBytes (outbuf c)")
  case False
  with assms show ?thesis by (auto simp: writeSome_def)
next
  case True
  obtain w e1 where w: "env_write (c_fd c) (peek_n (outbuf c) (readableBytes (outbuf c))) e = (w, e1)" by fastforce
  note s = write_step [OF assms(1) w] and ok = conn_step_ok [OF write_step [OF assms(1) w]]
  show ?thesis
  proof (cases w)
    case (Inl er)
    with True w s assms(2) conn_step_trans [OF assms(1) s handleError_step [OF ok]] show ?thesis
      by (auto simp: writeSome_def split: if_splits)
  next
    case (Inr n)
    have "conn_step c e (c\<lparr>outbuf := retrieve (outbuf c) n\<rparr>, bump (bytes_written_update (\<lambda>k. k + of_nat n)) e1)"
      by (rule conn_step_bump [OF conn_step_fields(6) [OF s]]) (use assms(1) in \<open>auto simp: conn_ok_def\<close>)
    with Inr True w s assms(2) show ?thesis by (auto simp: writeSome_def split: if_splits)
  qed
qed

lemma handleWrite_step:
  assumes "conn_ok c e"
  shows "conn_step c e (handleWrite c e)"
proof (cases "is_closed c")
  case True
  with assms show ?thesis by (simp add: handleWrite_def)
next
  case op: False
  show ?thesis
  proof (cases "writeSome c e")
    case (Inl r)
    with writeSome_step [OF assms, of r] op show ?thesis by (simp add: handleWrite_def)
  next
    case (Inr r)
    obtain c1 e1 where r: "r = (c1, e1)" by (cases r)
    note s = writeSome_step [OF assms, of r, unfolded r]
    have s1: "conn_step c e (c1, e1)" using Inr r s by simp
    have sw: "conn_step c e (enableWriting on c1 e1)" for on
      using conn_step_trans [OF assms s1 enableWriting_step [OF conn_step_ok [OF s1]]] .
    have sc: "conn_step c e (conn_close c2 e2)" if "conn_step c e (c2, e2)" for c2 e2
      using conn_step_trans [OF assms that close_step [OF conn_step_ok [OF that]]] .
    obtain c2 e2 where en: "enableWriting False c1 e1 = (c2, e2)" by fastforce
    show ?thesis
      using op Inr r s1 sw [of False] sw [of True] sc [of c1 e1] sc [of c2 e2] en
      by (auto simp: handleWrite_def Let_def)
  qed
qed

lemma send_step:
  assumes "conn_ok c e"
  shows "conn_step c e (conn_send d c e)"
proof -
  have s: "conn_step c e (c\<lparr>outbuf := append_bytes (outbuf c) d\<rparr>, e)"
    using assms conn_step_fields(6) [OF conn_step_refl [OF assms], of "append_bytes (outbuf c) d"]
    by (simp add: conn_ok_def)
  show ?thesis
    using assms conn_step_trans [OF assms s handleWrite_step [OF conn_step_ok [OF s]]] by (simp add: conn_send_def)
qed

lemma rejectRequest_step:
  assumes "conn_ok c e"
  shows "conn_step c e (rejectRequest c e)"
proof -
  have s: "conn_step c e (c\<lparr>close_after_write := True, keep_alive := False\<rparr>, bump (errors_update (\<lambda>n. n + 1)) e)"
    by (rule conn_step_bump [OF conn_step_fields(2) [OF conn_step_fields(3) [OF conn_step_refl [OF assms]]]]) simp
  show ?thesis
    unfolding rejectRequest_def by (rule conn_step_trans [OF assms s send_step [OF conn_step_ok [OF s]]])
qed

lemma answerRequest_step:
  assumes "conn_ok c e"
  shows "conn_step c e (answerRequest h c e)"
proof -
  let ?e = "bump (requests_update (\<lambda>n. n + 1)) e"
  have s0: "conn_step c e (c, ?e)" by (rule conn_step_bump [OF conn_step_refl [OF assms]]) simp
  have s1: "conn_step c e (c\<lparr>keep_alive := b\<rparr>, ?e)" "conn_step c e (c\<lparr>keep_alive := b, close_after_write := True\<rparr>, ?e)" for b
    by (intro conn_step_fields s0)+
  have fin: "conn_step c e (c2\<lparr>parser := parser_reset (parser c2)\<rparr>, bump (responses_update (\<lambda>n. n + 1)) e2)"
    if "conn_step c e (c1, ?e)" "conn_send d c1 ?e = (c2, e2)" for c1 d c2 e2
  proof -
    have "conn_step c e (c2, e2)"
      using conn_step_trans [OF assms that(1) send_step [OF conn_step_ok [OF that(1)]]] that(2) by metis
    then show ?thesis
      by (intro conn_step_bump conn_step_fields) (simp_all add: parser_reset_new)
  qed
  show ?thesis
    using fin [OF s1(1)] fin [OF s1(2)]
    by (auto simp: answerRequest_def Let_def split: prod.split)
qed

lemma parse_step:
  assumes "conn_ok c e" "parse (parser c) (inbuf c) = (r, p, b)"
  shows "conn_step c e (c\<lparr>parser := p, inbuf := b\<rparr>, e)"
proof -
  have ok: "buf_inv (inbuf c)" "parser_ok (parser c)" using assms(1) by (auto simp: conn_ok_def)
  have "aparse (parser c) (contents (inbuf c)) = (r, p, contents b)" "buf_inv b"
    using parse_refines [OF ok(1) assms(2)] by auto
  with parser_ok_aparse [OF ok(2)] have "parser_ok p" "buf_inv b" by auto
  then show ?thesis by (intro conn_step_fields conn_step_refl assms)
qed

lemma handleRequest_step:
  "conn_ok c e \<Longrightarrow> conn_step c e (handleRequest h c e)"
proof (induction h c e rule: handleRequest.induct)
  case (1 h c e)
  obtain r p b where p: "parse (parser c) (inbuf c) = (r, p, b)" by (metis prod_cases3)
  let ?c = "c\<lparr>parser := p, inbuf := b\<rparr>"
  have s: "conn_step c e (?c, e)" by (rule parse_step [OF 1(2) p])
  note ok = conn_step_ok [OF s]
  obtain c2 e2 where a: "answerRequest h ?c e = (c2, e2)" by fastforce
  have sa: "conn_step c e (c2, e2)" using conn_step_trans [OF 1(2) s answerRequest_step [OF ok, of h]] a by simp
  have sr: "conn_step c e (rejectRequest ?c e)" by (rule conn_step_trans [OF 1(2) s rejectRequest_step [OF ok]])
  show ?case
  proof (cases "r = OK \<and> keep_alive c2 \<and> readableBytes (inbuf c2) \<noteq> 0")
    case True
    have "conn_step c2 e2 (handleRequest h c2 e2)"
      by (rule 1(1) [OF p [symmetric] refl refl _ a [symmetric]]) (use True conn_step_ok [OF sa] in auto)
    then show ?thesis
      using conn_step_trans [OF 1(2) sa] True p a by (simp add: handleRequest.simps [of h c e])
  next
    case False
    then show ?thesis
      using p s sa sr a by (cases r) (auto simp: handleRequest.simps [of h c e])
  qed
qed

text \<open>What a receive script delivers until it blocks, ends or fails.\<close>

fun rx_drain :: "rx list \<Rightarrow> bytes \<times> drain_end" where
  "rx_drain [] = ([], DrainAgain)"
| "rx_drain (Rx bs # s) = (bs @ fst (rx_drain s), snd (rx_drain s))"
| "rx_drain (RxEof # s) = ([], DrainEof)"
| "rx_drain (RxErr er # s) =
     (if er = EAGAIN then ([], DrainAgain) else if er = EINTR then rx_drain s else ([], DrainError))"

lemma readv_drain:
  "0 < cap \<Longrightarrow> readv cap s = (Inr d, s') \<Longrightarrow>
     rx_drain s = (if d = [] then ([], DrainEof) else (d @ fst (rx_drain s'), snd (rx_drain s')))"
  "readv cap s = (Inl er, s') \<Longrightarrow>
     rx_drain s = (if er = EAGAIN then ([], DrainAgain) else if er = EINTR then rx_drain s' else ([], DrainError))"
  by (induction cap s rule: readv.induct) (auto split: if_splits)

lemma iov_room_pos: "0 < iov_room b"
  by (simp add: iov_room_def Let_def)

lemma conn_readFd_open:
  assumes "conn_ok c e" "\<not> is_closed c" "readv (iov_room (inbuf c)) (rxs (sys e) (c_fd c)) = (r, s')"
  shows "\<exists>b'. conn_readFd c e = ((case r of Inl er \<Rightarrow> Inl er | Inr d \<Rightarrow> Inr (length d)), c\<lparr>inbuf := b'\<rparr>,
      e\<lparr>sys := (sys e)\<lparr>rxs := (rxs (sys e))(c_fd c := s')\<rparr>\<rparr>) \<and> buf_inv b' \<and>
    contents b' = contents (inbuf c) @ (case r of Inl er \<Rightarrow> [] | Inr d \<Rightarrow> d)"
proof -
  have ok: "buf_inv (inbuf c)" "0 \<le> c_fd c" using assms(1,2) by (auto simp: conn_ok_def)
  show ?thesis
  proof (cases r)
    case (Inl er)
    with assms(3) have "readFd (inbuf c) (rxs (sys e) (c_fd c)) = (Inl er, inbuf c, s')" by (simp add: readFd_Inl)
    with Inl ok show ?thesis by (intro exI [of _ "inbuf c"]) (simp add: conn_readFd_def)
  next
    case (Inr d)
    with assms(3) readFd_Inr [OF ok(1)] obtain b' where
      "readFd (inbuf c) (rxs (sys e) (c_fd c)) = (Inr (length d), b', s')" "buf_inv b'" "contents b' = contents (inbuf c) @ d"
      by blast
    with Inr ok show ?thesis by (intro exI [of _ b']) (simp add: conn_readFd_def)
  qed
qed

lemma rxs_step:
  "conn_ok c e \<Longrightarrow> conn_step c e (c, e\<lparr>sys := (sys e)\<lparr>rxs := (rxs (sys e))(c_fd c := s)\<rparr>\<rparr>)"
  by (simp add: conn_step_def conn_ok_def loop_ok_def others_same_def loop_frame_def)

lemma drain_spec:
  assumes "conn_ok c e" "\<not> is_closed c" "drain c e = (d, c', e')"
  shows "conn_step c e (c', e') \<and> (\<exists>b. c' = c\<lparr>inbuf := b\<rparr>) \<and>
    contents (inbuf c') = contents (inbuf c) @ fst (rx_drain (rxs (sys e) (c_fd c))) \<and>
    d = snd (rx_drain (rxs (sys e) (c_fd c))) \<and> loop e' = loop e \<and>
    counters e' = (counters e)\<lparr>bytes_read := bytes_read (counters e) + of_nat (length (fst (rx_drain (rxs (sys e) (c_fd c)))))\<rparr> \<and>
    wire (sys e') = wire (sys e) \<and> txs (sys e') = txs (sys e) \<and> clk (sys e') = clk (sys e)"
  using assms
proof (induction c e rule: drain.induct)
  case (1 c e)
  obtain r s' where rd: "readv (iov_room (inbuf c)) (rxs (sys e) (c_fd c)) = (r, s')" by fastforce
  let ?e = "e\<lparr>sys := (sys e)\<lparr>rxs := (rxs (sys e))(c_fd c := s')\<rparr>\<rparr>"
  obtain b where b: "conn_readFd c e = ((case r of Inl er \<Rightarrow> Inl er | Inr d \<Rightarrow> Inr (length d)), c\<lparr>inbuf := b\<rparr>, ?e)"
      "buf_inv b" "contents b = contents (inbuf c) @ (case r of Inl er \<Rightarrow> [] | Inr d \<Rightarrow> d)"
    using conn_readFd_open [OF 1(3,4) rd] by blast
  have s: "conn_step c e (c\<lparr>inbuf := b\<rparr>, ?e)"
    using conn_step_fields(5) [OF rxs_step [OF 1(3)] b(2)] .
  show ?case
  proof (cases r)
    case (Inl er)
    note dr = readv_drain(2) [OF rd [unfolded Inl]]
    show ?thesis
    proof (cases "er = EINTR")
      case True
      have step: "drain c e = drain (c\<lparr>inbuf := b\<rparr>) ?e" using b Inl True by (simp add: drain.simps [of c e])
      have ok2: "conn_ok (c\<lparr>inbuf := b\<rparr>) ?e" "\<not> is_closed (c\<lparr>inbuf := b\<rparr>)"
        using conn_step_ok [OF s] 1(4) by auto
      have "conn_readFd c e = (Inl er, c\<lparr>inbuf := b\<rparr>, ?e)" using b Inl by simp
      note IH = 1(1) [OF this [symmetric] refl refl _ True ok2 1(5) [unfolded step]]
      show ?thesis using IH conn_step_trans [OF 1(3) s] True b(3) dr Inl by auto
    next
      case False
      then show ?thesis using 1(5) b Inl dr s by (auto simp: drain.simps [of c e])
    qed
  next
    case (Inr dd)
    note dr = readv_drain(1) [OF iov_room_pos rd [unfolded Inr]]
    show ?thesis
    proof (cases "dd = []")
      case True
      then show ?thesis using 1(5) b Inr dr s by (auto simp: drain.simps [of c e])
    next
      case False
      let ?e2 = "bump (bytes_read_update (\<lambda>k. k + of_nat (length dd))) ?e"
      have step: "drain c e = drain (c\<lparr>inbuf := b\<rparr>) ?e2" using b Inr False by (simp add: drain.simps [of c e])
      have s2: "conn_step c e (c\<lparr>inbuf := b\<rparr>, ?e2)" by (rule conn_step_bump [OF s]) simp
      have ok2: "conn_ok (c\<lparr>inbuf := b\<rparr>) ?e2" "\<not> is_closed (c\<lparr>inbuf := b\<rparr>)"
        using conn_step_ok [OF s2] 1(4) by auto
      have "conn_readFd c e = (Inr (length dd), c\<lparr>inbuf := b\<rparr>, ?e)" using b Inr by simp
      note IH = 1(2) [OF this [symmetric] refl refl _ ok2 1(5) [unfolded step]]
      show ?thesis using IH conn_step_trans [OF 1(3) s2] False b(3) dr Inr by (auto simp: bump_def)
    qed
  qed
qed

lemma handleRead_closed:
  assumes "conn_ok c e" "is_closed c"
  shows "handleRead h c e = handleError c e"
  using assms by (simp add: handleRead_def drain.simps conn_readFd_def conn_ok_def)

lemma handleRead_step:
  assumes "conn_ok c e"
  shows "conn_step c e (handleRead h c e)"
proof (cases "is_closed c")
  case True
  with assms show ?thesis by (simp add: handleRead_closed handleError_step)
next
  case False
  obtain d c1 e1 where d: "drain c e = (d, c1, e1)" by (metis prod_cases3)
  have s: "conn_step c e (c1, e1)" using drain_spec [OF assms False d] by blast
  note ok = conn_step_ok [OF s]
  obtain c2 e2 where t: "touch c1 e1 = (c2, e2)" by fastforce
  have s2: "conn_step c e (c2, e2)" using conn_step_trans [OF assms s touch_step [OF ok]] t by simp
  show ?thesis
    using d t conn_step_trans [OF assms s close_step [OF ok]] conn_step_trans [OF assms s handleError_step [OF ok]]
      conn_step_trans [OF assms s2 handleRequest_step [OF conn_step_ok [OF s2], of h]]
    by (cases d) (simp_all add: handleRead_def)
qed

section \<open>The interface a connection offers to its loop\<close>

locale conn_action =
  fixes act :: "Connection \<Rightarrow> 'task env \<Rightarrow> Connection \<times> 'task env"
  assumes act_step: "conn_ok c e \<Longrightarrow> conn_step c e (act c e)"
begin

lemma act_ok: "conn_ok c e \<Longrightarrow> act c e = (c', e') \<Longrightarrow> conn_ok c' e'"
  using act_step [of c e] by (simp add: conn_step_def)

lemma act_after: "conn_ok c0 e0 \<Longrightarrow> conn_step c0 e0 (c, e) \<Longrightarrow> conn_step c0 e0 (act c e)"
  by (metis act_step conn_step_ok conn_step_trans)

lemma other_conn_ok:
  assumes "conn_ok c e" "act c e = (c', e')" "conn_ok d e" "\<not> is_closed d" "c_fd d \<noteq> c_fd c"
  shows "conn_ok d e'"
  using act_step [OF assms(1)] assms(2-)
  by (auto simp: conn_step_def conn_ok_def others_same_def)

end

interpretation read_act: conn_action "handleRead h" for h by unfold_locales (rule handleRead_step)
interpretation write_act: conn_action handleWrite by unfold_locales (rule handleWrite_step)
interpretation error_act: conn_action handleError by unfold_locales (rule handleError_step)
interpretation close_act: conn_action conn_close by unfold_locales (rule close_step)
interpretation idle_act: conn_action idleCheck by unfold_locales (rule idleCheck_step)
interpretation arm_act: conn_action armIdleTimer by unfold_locales (rule armIdleTimer_step)
interpretation send_act: conn_action "conn_send d" for d by unfold_locales (rule send_step)

text \<open>Any sequence of calls on one connection.\<close>

datatype conn_op = DoRead | DoWrite | DoError | DoClose | DoIdleCheck | DoArm | DoSend string

fun conn_op_run :: "'task handler \<Rightarrow> conn_op \<Rightarrow> Connection \<Rightarrow> 'task env \<Rightarrow> Connection \<times> 'task env" where
  "conn_op_run h DoRead = handleRead h"
| "conn_op_run h DoWrite = handleWrite"
| "conn_op_run h DoError = handleError"
| "conn_op_run h DoClose = conn_close"
| "conn_op_run h DoIdleCheck = idleCheck"
| "conn_op_run h DoArm = armIdleTimer"
| "conn_op_run h (DoSend d) = conn_send d"

fun conn_run :: "'task handler \<Rightarrow> conn_op list \<Rightarrow> Connection \<Rightarrow> 'task env \<Rightarrow> Connection \<times> 'task env" where
  "conn_run h [] c e = (c, e)"
| "conn_run h (op # ops) c e = (case conn_op_run h op c e of (c', e') \<Rightarrow> conn_run h ops c' e')"

lemma conn_op_step: "conn_ok c e \<Longrightarrow> conn_step c e (conn_op_run h op c e)"
  by (cases op) (simp_all add: read_act.act_step write_act.act_step error_act.act_step close_act.act_step
      idle_act.act_step arm_act.act_step send_act.act_step)

lemma conn_run_step: "conn_ok c e \<Longrightarrow> conn_step c e (conn_run h ops c e)"
proof (induction ops arbitrary: c e)
  case (Cons op ops)
  obtain c1 e1 where o: "conn_op_run h op c e = (c1, e1)" by fastforce
  have s: "conn_step c e (c1, e1)" using conn_op_step [OF Cons.prems, of h op] o by simp
  with Cons.IH [OF conn_step_ok [OF s]] conn_step_trans [OF Cons.prems s] o show ?case by simp
qed simp

section \<open>The stream of responses\<close>

text \<open>What has gone out and what is still to go.\<close>

definition stream :: "int \<Rightarrow> Connection \<Rightarrow> 'task env \<Rightarrow> bytes" where
  "stream fd c e = wire (sys e) fd @ contents (outbuf c)"

lemma close_sys: "wire (sys (snd (conn_close c e))) = wire (sys e)"
  by (simp add: conn_close_def Let_def bump_def fd_close_def on_poller_def on_timers_def)

lemma close_stream [simp]: "stream fd (fst (conn_close c e)) (snd (conn_close c e)) = stream fd c e"
  by (simp add: stream_def frame_simps close_sys)

lemma handleError_stream [simp]: "stream fd (fst (handleError c e)) (snd (handleError c e)) = stream fd c e"
  by (simp add: handleError_def) (simp add: stream_def bump_def)

lemma enableWriting_stream [simp]:
  "stream fd (fst (enableWriting on c e)) (snd (enableWriting on c e)) = stream fd c e"
  by (simp add: enableWriting_def stream_def on_poller_def Let_def)

lemma writeSome_stream:
  assumes "buf_inv (outbuf c)" "writeSome c e = Inl r \<or> writeSome c e = Inr r"
  shows "stream (c_fd c) (fst r) (snd r) = stream (c_fd c) c e"
proof (cases "0 < readableBytes (outbuf c)")
  case False
  with assms show ?thesis by (auto simp: writeSome_def)
next
  case True
  obtain w e1 where w: "env_write (c_fd c) (peek_n (outbuf c) (readableBytes (outbuf c))) e = (w, e1)" by fastforce
  note f = env_write_facts [OF w]
  have pk: "peek_n (outbuf c) (readableBytes (outbuf c)) = contents (outbuf c)" by (simp add: contents_def)
  show ?thesis
  proof (cases w)
    case (Inl er)
    then have "stream (c_fd c) c e1 = stream (c_fd c) c e" using f by (simp add: stream_def)
    with Inl True w assms(2) show ?thesis by (auto simp: writeSome_def split: if_splits)
  next
    case (Inr n)
    with f pk assms(1) have "stream (c_fd c) (c\<lparr>outbuf := retrieve (outbuf c) n\<rparr>) e1 = stream (c_fd c) c e"
      by (simp add: stream_def buf_simps)
    moreover have "n = 0 \<Longrightarrow> stream (c_fd c) c e1 = stream (c_fd c) c e" using f Inr by (simp add: stream_def)
    ultimately show ?thesis using Inr True w assms(2) by (auto simp: writeSome_def stream_def bump_def split: if_splits)
  qed
qed

lemma handleWrite_stream:
  assumes "buf_inv (outbuf c)"
  shows "stream (c_fd c) (fst (handleWrite c e)) (snd (handleWrite c e)) = stream (c_fd c) c e"
  using writeSome_stream [OF assms, of e]
  by (auto simp: handleWrite_def Let_def case_prod_beta split: sum.split)

lemma send_stream:
  assumes "buf_inv (outbuf c)"
  shows "stream (c_fd c) (fst (conn_send d c e)) (snd (conn_send d c e)) =
    (if is_closed c then stream (c_fd c) c e else stream (c_fd c) c e @ d)"
  using handleWrite_stream [of "c\<lparr>outbuf := append_bytes (outbuf c) d\<rparr>" e] assms
  by (auto simp: conn_send_def) (simp add: stream_def buf_simps)

end
