(* ===== verification/Connection_Props.thy ===== *)
theory Connection_Props
  imports Connection
begin

text \<open>
  What a connection does as a whole. \<open>replies\<close> is the specification of \<open>Connection::handleRequest\<close>: the
  list of response texts that a piece of input calls for, computed on byte lists with the list-level
  parser. The properties relate the stream of bytes a connection emits to it, for every behaviour of
  the socket, and say when a connection closes, what is registered with epoll and what the idle timer
  does.
\<close>

section \<open>The responses that an input calls for\<close>

definition reply_keeps :: "(HttpRequest \<Rightarrow> HttpResponse) \<Rightarrow> HttpRequest \<Rightarrow> bool" where
  "reply_keeps h r \<longleftrightarrow> keepAlive r \<and> \<not> close_connection (h r)"

definition reply_text :: "(HttpRequest \<Rightarrow> HttpResponse) \<Rightarrow> HttpRequest \<Rightarrow> string" where
  "reply_text h r = toString (if reply_keeps h r then h r else setHeader (h r) ''Connection'' ''close'')"

lemma aparse_fresh:
  assumes "aparse p xs = (OK, p', rest)" "pstate p = REQUEST_LINE"
  shows "length rest < length xs"
proof -
  let ?b = "append_bytes (Buffer_new 0) xs"
  have b: "buf_inv ?b" "contents ?b = xs" by (simp_all add: buf_simps)
  obtain r q b' where p: "parse p ?b = (r, q, b')" by (metis prod_cases3)
  with parse_refines [OF b(1) p] b(2) assms(1) have "r = OK" "q = p'" "contents b' = rest" "buf_inv b'" by auto
  with parse_fresh [of p ?b p' b'] p assms(2) b show ?thesis by (simp add: readableBytes_contents)
qed

function replies :: "(HttpRequest \<Rightarrow> HttpResponse) \<Rightarrow> HttpParser \<Rightarrow> bytes \<Rightarrow> string list" where
  "replies h p xs =
     (case aparse p xs of (r, p', rest) \<Rightarrow>
        (case r of
           INCOMPLETE \<Rightarrow> []
         | ERROR \<Rightarrow> [bad_request]
         | OK \<Rightarrow> reply_text h (request p') #
             (if reply_keeps h (request p') \<and> rest \<noteq> [] then replies h HttpParser_new rest else [])))"
  by pat_completeness auto

lemma aparse_shorter: "aparse p xs = (r, p', rest) \<Longrightarrow> length rest \<le> length xs"
proof -
  assume a: "aparse p xs = (r, p', rest)"
  let ?b = "append_bytes (Buffer_new 0) xs"
  have b: "buf_inv ?b" "contents ?b = xs" by (simp_all add: buf_simps)
  obtain r1 q b' where p: "parse p ?b = (r1, q, b')" by (metis prod_cases3)
  with parse_refines [OF b(1) p] b(2) a have "contents b' = rest" "buf_inv b'" by auto
  with parse_readable [of p ?b] p b show ?thesis by (simp add: readableBytes_contents)
qed

termination replies
proof (relation "measure (\<lambda>(h, p, xs). 2 * length xs + (if pstate p = REQUEST_LINE then 0 else 1))", goal_cases)
  case 1
  then show ?case by simp
next
  case (2 h p xs r rest0 p' rest)
  then have a: "aparse p xs = (OK, p', rest)" by simp
  with aparse_shorter [OF a] aparse_fresh [OF a] show ?case by (simp add: HttpParser_new_def)
qed

declare replies.simps [simp del]

section \<open>The stream is made of whole responses, in order\<close>

lemma answer_facts:
  assumes "conn_ok c e" "answerRequest (\<lambda>_ r _. h r) c e = (c', e')"
  shows "stream (c_fd c) c' e' = stream (c_fd c) c e @ (if is_closed c then [] else reply_text h (request (parser c))) \<and>
    keep_alive c' = reply_keeps h (request (parser c))"
proof -
  let ?r = "request (parser c)"
  let ?c = "if reply_keeps h ?r then c\<lparr>keep_alive := True\<rparr> else c\<lparr>keep_alive := False, close_after_write := True\<rparr>"
  let ?e = "bump (requests_update (\<lambda>n. n + 1)) e"
  obtain c1 e1 where s: "conn_send (reply_text h ?r) ?c ?e = (c1, e1)" by fastforce
  have eq: "c' = c1\<lparr>parser := parser_reset (parser c1)\<rparr>" "e' = bump (responses_update (\<lambda>n. n + 1)) e1"
    using assms(2) s by (auto simp: answerRequest_def Let_def reply_text_def reply_keeps_def split: prod.splits if_splits)
  have "buf_inv (outbuf ?c)" using assms(1) by (simp add: conn_ok_def)
  from send_stream [OF this, of "reply_text h ?r" ?e] s
  have "stream (c_fd c) c1 e1 = stream (c_fd c) c e @ (if is_closed c then [] else reply_text h ?r)"
    by (auto simp: stream_def bump_def split: if_splits)
  moreover have "keep_alive c1 = reply_keeps h ?r"
    using conn_send_frame(3) [of "reply_text h ?r" ?c ?e] s by auto
  ultimately show ?thesis by (simp add: eq stream_def bump_def)
qed

lemma send_closed: "is_closed c \<Longrightarrow> conn_send d c e = (c, e)"
  by (simp add: conn_send_def)

lemma answer_closed:
  assumes "is_closed c" "answerRequest h c e = (c', e')"
  shows "is_closed c' \<and> stream fd c' e' = stream fd c e"
  using assms by (auto simp: answerRequest_def Let_def send_closed stream_def bump_def split: if_splits)

lemma handleRequest_closed_stream:
  "is_closed c \<Longrightarrow> stream fd (fst (handleRequest h c e)) (snd (handleRequest h c e)) = stream fd c e"
proof (induction h c e rule: handleRequest.induct)
  case (1 h c e)
  obtain r p b where p: "parse (parser c) (inbuf c) = (r, p, b)" by (metis prod_cases3)
  let ?c = "c\<lparr>parser := p, inbuf := b\<rparr>"
  obtain c2 e2 where a: "answerRequest h ?c e = (c2, e2)" by fastforce
  have f: "is_closed c2" "stream fd c2 e2 = stream fd c e"
    using answer_closed [of ?c h e c2 e2 fd] a 1(2) by (auto simp: stream_def)
  show ?case
  proof (cases "r = OK \<and> keep_alive c2 \<and> readableBytes (inbuf c2) \<noteq> 0")
    case True
    have "stream fd (fst (handleRequest h c2 e2)) (snd (handleRequest h c2 e2)) = stream fd c2 e2"
      by (rule 1(1) [OF p [symmetric] refl refl _ a [symmetric]]) (use True f in auto)
    with True p a f show ?thesis by (simp add: handleRequest.simps [of h c e])
  next
    case False
    then show ?thesis
      using p a f 1(2) by (cases r) (auto simp: handleRequest.simps [of h c e] rejectRequest_def send_closed stream_def bump_def)
  qed
qed

lemma handleRequest_answered:
  assumes ok: "conn_ok c e" and p: "parse (parser c) (inbuf c) = (OK, p, b)"
    and a: "answerRequest handler (c\<lparr>parser := p, inbuf := b\<rparr>) e = (c2, e2)"
  shows "conn_step c e (c2, e2)" "inbuf c2 = b" "parser c2 = HttpParser_new"
    "handleRequest handler c e = (if keep_alive c2 \<and> contents b \<noteq> [] then handleRequest handler c2 e2 else (c2, e2))"
proof -
  let ?c = "c\<lparr>parser := p, inbuf := b\<rparr>"
  have b: "buf_inv b" using parse_refines [OF _ p] ok by (simp add: conn_ok_def)
  have s: "conn_step c e (?c, e)" by (rule parse_step [OF ok p])
  show "conn_step c e (c2, e2)"
    using conn_step_trans [OF ok s answerRequest_step [OF conn_step_ok [OF s], of handler]] a by simp
  show i: "inbuf c2 = b" and "parser c2 = HttpParser_new" using answerRequest_frame [of handler ?c e] a by auto
  show "handleRequest handler c e = (if keep_alive c2 \<and> contents b \<noteq> [] then handleRequest handler c2 e2 else (c2, e2))"
    using p a i readableBytes_contents [OF b] by (auto simp: handleRequest.simps [of _ c e])
qed

lemma rejectRequest_stream:
  assumes "buf_inv (outbuf c)" "\<not> is_closed c" "rejectRequest c e = (c', e')"
  shows "stream (c_fd c) c' e' = stream (c_fd c) c e @ bad_request"
  using send_stream [of "c\<lparr>close_after_write := True, keep_alive := False\<rparr>" bad_request
    "bump (errors_update (\<lambda>n. n + 1)) e"] assms
  by (simp add: rejectRequest_def) (simp add: stream_def bump_def)

lemma handleRequest_stream:
  assumes "conn_ok c e" "\<not> is_closed c" "handleRequest (\<lambda>_ r _. h r) c e = (c', e')"
  shows "\<exists>n. stream (c_fd c) c' e' = stream (c_fd c) c e @ concat (take n (replies h (parser c) (contents (inbuf c)))) \<and>
    (\<not> is_closed c' \<longrightarrow> length (replies h (parser c) (contents (inbuf c))) \<le> n)"
  using assms
proof (induction "\<lambda>_ :: 'a env. \<lambda>r. \<lambda>_ :: HttpResponse. h r" c e arbitrary: c' e' rule: handleRequest.induct)
  case (1 c e)
  let ?h = "\<lambda>_ :: 'a env. \<lambda>r. \<lambda>_ :: HttpResponse. h r"
  let ?R = "replies h (parser c) (contents (inbuf c))"
  obtain r p b where p: "parse (parser c) (inbuf c) = (r, p, b)" by (metis prod_cases3)
  let ?c = "c\<lparr>parser := p, inbuf := b\<rparr>"
  have inv: "buf_inv (inbuf c)" "buf_inv (outbuf c)" using 1(2) by (auto simp: conn_ok_def)
  have b: "buf_inv b" "aparse (parser c) (contents (inbuf c)) = (r, p, contents b)"
    using parse_refines [OF inv(1) p] by auto
  have str: "stream fd ?c e = stream fd c e" for fd by (simp add: stream_def)
  show ?case
  proof (cases r)
    case INCOMPLETE
    with p b 1(4) have "c' = ?c" "e' = e" "?R = []" by (auto simp: handleRequest.simps replies.simps)
    with str show ?thesis by simp
  next
    case ERROR
    have "rejectRequest ?c e = (c', e')" "?R = [bad_request]"
      using ERROR p b 1(4) by (auto simp: handleRequest.simps [of _ c e] replies.simps)
    with rejectRequest_stream [of ?c e c' e'] inv(2) 1(3) str show ?thesis by (intro exI [of _ 1]) simp
  next
    case OK
    obtain c2 e2 where a: "answerRequest ?h ?c e = (c2, e2)" by fastforce
    note step = handleRequest_answered [OF 1(2) p [unfolded OK] a]
    have f: "stream (c_fd c) c2 e2 = stream (c_fd c) c e @ reply_text h (request p)" "keep_alive c2 = reply_keeps h (request p)"
      using answer_facts [OF conn_step_ok [OF parse_step [OF 1(2) p]] a] 1(3) str by auto
    have R: "?R = reply_text h (request p) #
        (if keep_alive c2 \<and> contents b \<noteq> [] then replies h HttpParser_new (contents b) else [])"
      using b OK f(2) by (subst replies.simps) simp
    consider "\<not> (keep_alive c2 \<and> contents b \<noteq> [])" | "keep_alive c2" "contents b \<noteq> []" "is_closed c2" |
      "keep_alive c2" "contents b \<noteq> []" "\<not> is_closed c2" by blast
    then show ?thesis
    proof cases
      case 1
      with step(4) R f(1) "1.prems"(3) show ?thesis by (intro exI [of _ 1]) simp
    next
      case 2
      then have rec: "handleRequest ?h c2 e2 = (c', e')" using step(4) "1.prems"(3) by simp
      with handleRequest_step [OF conn_step_ok [OF step(1)], of ?h] handleRequest_closed_stream [OF 2(3), of "c_fd c" ?h e2]
        2 R f(1) show ?thesis by (intro exI [of _ 1]) (simp add: conn_step_def)
    next
      case 3
      then have rec: "handleRequest ?h c2 e2 = (c', e')" using step(4) "1.prems"(3) by simp
      have fd: "c_fd c2 = c_fd c" using step(1) 3(3) by (simp add: conn_step_def)
      obtain n where "stream (c_fd c2) c' e' = stream (c_fd c2) c2 e2 @ concat (take n (replies h (parser c2) (contents (inbuf c2))))"
          "\<not> is_closed c' \<longrightarrow> length (replies h (parser c2) (contents (inbuf c2))) \<le> n"
        using "1.hyps" [OF p [symmetric] refl refl OK a [symmetric] _ _ conn_step_ok [OF step(1)] 3(3) rec] 3 step(2)
          readableBytes_contents [OF b(1)] by auto
      with f(1) R fd step(2,3) 3 show ?thesis by (intro exI [of _ "Suc n"]) simp
    qed
  qed
qed

section \<open>A socket that takes everything\<close>

lemma send_all:
  assumes "conn_ok c e" "\<not> is_closed c" "txs (sys e) (c_fd c) = []" "\<not> close_after_write c" "conn_send d c e = (c', e')"
  shows "\<not> is_closed c' \<and> c_fd c' = c_fd c \<and> (contents (outbuf c) = [] \<or> d \<noteq> [] \<longrightarrow> contents (outbuf c') = []) \<and>
    \<not> close_after_write c' \<and> txs (sys e') (c_fd c) = [] \<and> requests (counters e') = requests (counters e) \<and>
    responses (counters e') = responses (counters e)"
proof (cases "d = []")
  case True
  with assms show ?thesis by (auto simp: conn_send_def)
next
  case False
  let ?o = "append_bytes (outbuf c) d" and ?c = "c\<lparr>outbuf := append_bytes (outbuf c) d\<rparr>"
  have o: "buf_inv ?o" "contents ?o = contents (outbuf c) @ d"
    using assms(1) by (auto simp: conn_ok_def buf_simps)
  then have n: "0 < readableBytes ?o" using False by (simp add: readableBytes_contents)
  have pk: "peek_n ?o (readableBytes ?o) = contents ?o" by (simp only: contents_def)
  obtain e1 where w: "env_write (c_fd c) (contents ?o) e = (Inr (length (contents ?o)), e1)"
      "txs (sys e1) (c_fd c) = []" "counters e1 = counters e"
    using assms(3) by (simp add: env_write_def)
  let ?c1 = "c\<lparr>outbuf := retrieve ?o (length (contents ?o))\<rparr>"
  let ?e1 = "bump (bytes_written_update (\<lambda>k. k + of_nat (length (contents ?o)))) e1"
  have ws: "writeSome ?c e = Inr (?c1, ?e1)"
    using n pk w o(2) False by (simp add: writeSome_def)
  have "contents (retrieve ?o (length (contents ?o))) = []" "buf_inv (retrieve ?o (length (contents ?o)))"
    using o(1) by (simp_all add: buf_simps)
  then have e0: "readableBytes (retrieve ?o (length (contents ?o))) = 0" by (simp add: readableBytes_contents)
  show ?thesis
    using assms(2,4,5) ws e0 w(2,3) False \<open>contents (retrieve ?o (length (contents ?o))) = []\<close>
    by (auto simp: conn_send_def handleWrite_def enableWriting_def Let_def on_poller_def bump_def split: if_splits)
qed

lemma answer_all:
  assumes "conn_ok c e" "\<not> is_closed c" "txs (sys e) (c_fd c) = []" "\<not> close_after_write c"
    "contents (outbuf c) = []" "reply_keeps h (request (parser c))" "answerRequest (\<lambda>_ r _. h r) c e = (c', e')"
  shows "\<not> is_closed c' \<and> c_fd c' = c_fd c \<and> contents (outbuf c') = [] \<and> \<not> close_after_write c' \<and> keep_alive c' \<and>
    txs (sys e') (c_fd c) = [] \<and> requests (counters e') = requests (counters e) + 1 \<and>
    responses (counters e') = responses (counters e) + 1 \<and>
    wire (sys e') (c_fd c) = wire (sys e) (c_fd c) @ toString (h (request (parser c)))"
proof -
  let ?r = "request (parser c)" and ?c = "c\<lparr>keep_alive := True\<rparr>"
  let ?e = "bump (requests_update (\<lambda>n. n + 1)) e"
  obtain c1 e1 where s: "conn_send (toString (h ?r)) ?c ?e = (c1, e1)" by fastforce
  have eq: "c' = c1\<lparr>parser := parser_reset (parser c1)\<rparr>" "e' = bump (responses_update (\<lambda>n. n + 1)) e1"
    using assms(6,7) s by (auto simp: answerRequest_def Let_def reply_keeps_def split: prod.splits if_splits)
  have "conn_ok ?c ?e"
    using conn_step_ok [OF conn_step_bump [OF conn_step_fields(2) [OF conn_step_refl [OF assms(1)]]]] by simp
  note sd = send_all [OF this _ _ _ s] and f = answer_facts [OF assms(1,7)]
  have a: "\<not> is_closed c1 \<and> c_fd c1 = c_fd c \<and> contents (outbuf c1) = [] \<and> \<not> close_after_write c1 \<and>
      txs (sys e1) (c_fd c) = [] \<and> requests (counters e1) = requests (counters e) + 1 \<and>
      responses (counters e1) = responses (counters e)"
    using sd assms by (simp add: bump_def)
  with f assms show ?thesis
    by (simp add: eq stream_def bump_def reply_text_def)
qed

lemma handleRequest_pipeline:
  assumes "\<forall>r \<in> set rs. renderable r \<and> reply_keeps h r \<and> (\<forall>e. handler e r HttpResponse_new = h r)"
    and "conn_ok c e" "\<not> is_closed c" "txs (sys e) (c_fd c) = []" "\<not> close_after_write c" "contents (outbuf c) = []"
    and "parser c = HttpParser_new" "contents (inbuf c) = concat (map render rs)"
    and "handleRequest handler c e = (c', e')"
  shows "\<not> is_closed c' \<and> wire (sys e') (c_fd c) = wire (sys e) (c_fd c) @ concat (map (toString \<circ> h) rs) \<and>
    requests (counters e') = requests (counters e) + of_nat (length rs) \<and>
    responses (counters e') = responses (counters e) + of_nat (length rs) \<and>
    contents (inbuf c') = [] \<and> contents (outbuf c') = [] \<and> parser c' = HttpParser_new"
  using assms
proof (induction rs arbitrary: c e)
  case Nil
  then have i: "buf_inv (inbuf c)" by (simp add: conn_ok_def)
  obtain r p b where p: "parse (parser c) (inbuf c) = (r, p, b)" by (metis prod_cases3)
  have "aparse HttpParser_new [] = (INCOMPLETE, HttpParser_new, [])"
    by (simp add: aparse_def HttpParser_new_def arequest_line_def aline_def ashort_def)
  with parse_refines [OF i p] Nil have "r = INCOMPLETE" "p = HttpParser_new" "contents b = []" by auto
  with Nil p show ?case by (auto simp: handleRequest.simps [of _ c e])
next
  case (Cons q rs)
  let ?h = "\<lambda>_ :: 'a env. \<lambda>r. \<lambda>_ :: HttpResponse. h r"
  have i: "buf_inv (inbuf c)" using Cons.prems by (simp add: conn_ok_def)
  obtain r p b where p: "parse (parser c) (inbuf c) = (r, p, b)" by (metis prod_cases3)
  have "aparse HttpParser_new (render q @ concat (map render rs)) =
      (OK, \<lparr>pstate = COMPLETE, request = q, content_length = length (req_body q)\<rparr>, concat (map render rs))"
    by (rule aparse_render) (use Cons.prems in auto)
  with parse_refines [OF i p] Cons.prems
  have b: "r = OK" "request p = q" "contents b = concat (map render rs)" "buf_inv b" by auto
  let ?c = "c\<lparr>parser := p, inbuf := b\<rparr>"
  have ok: "conn_ok ?c e" by (rule conn_step_ok [OF parse_step [OF Cons.prems(2) p]])
  obtain c2 e2 where a: "answerRequest handler ?c e = (c2, e2)" by fastforce
  have "answerRequest ?h ?c e = answerRequest handler ?c e"
    using Cons.prems(1) b(2) by (simp add: answerRequest_def Let_def)
  then have a': "answerRequest ?h ?c e = (c2, e2)" using a by simp
  have f: "\<not> is_closed c2 \<and> c_fd c2 = c_fd c \<and> contents (outbuf c2) = [] \<and> \<not> close_after_write c2 \<and> keep_alive c2 \<and>
      txs (sys e2) (c_fd c) = [] \<and> requests (counters e2) = requests (counters e) + 1 \<and>
      responses (counters e2) = responses (counters e) + 1 \<and> wire (sys e2) (c_fd c) = wire (sys e) (c_fd c) @ toString (h q)"
    using answer_all [OF ok _ _ _ _ _ a'] Cons.prems b(2) by simp
  note step = handleRequest_answered [OF Cons.prems(2) p [unfolded b(1)] a]
  show ?case
  proof (cases "contents b = []")
    case True
    then have "rs = []" using b(3) by (auto simp: render_def)
    moreover have "c' = c2" "e' = e2" using Cons.prems(9) step(4) True by simp_all
    ultimately show ?thesis using f step(2,3) True by simp
  next
    case False
    have rec: "handleRequest handler c2 e2 = (c', e')" using Cons.prems(9) step(4) False f by simp
    have "\<not> is_closed c' \<and> wire (sys e') (c_fd c2) = wire (sys e2) (c_fd c2) @ concat (map (toString \<circ> h) rs) \<and>
        requests (counters e') = requests (counters e2) + of_nat (length rs) \<and>
        responses (counters e') = responses (counters e2) + of_nat (length rs) \<and>
        contents (inbuf c') = [] \<and> contents (outbuf c') = [] \<and> parser c' = HttpParser_new"
      by (rule Cons.IH [OF _ conn_step_ok [OF step(1)] _ _ _ _ _ _ rec]) (use Cons.prems(1) f step(2,3) b in auto)
    with f show ?thesis by (simp add: add.assoc comp_def)
  qed
qed

text \<open>Reading everything that has come, up to the point where the requests are looked at.\<close>

lemma handleRead_input:
  assumes "conn_ok c e" "\<not> is_closed c" "rxs (sys e) (c_fd c) = map Rx segs"
  obtains b t e2 where "\<And>handler. handleRead handler c e = handleRequest handler (c\<lparr>inbuf := b, last_activity := t\<rparr>) e2"
    "conn_ok (c\<lparr>inbuf := b, last_activity := t\<rparr>) e2" "contents b = contents (inbuf c) @ concat segs"
    "wire (sys e2) = wire (sys e)" "txs (sys e2) = txs (sys e)"
    "requests (counters e2) = requests (counters e)" "responses (counters e2) = responses (counters e)"
proof -
  have rd: "rx_drain (map Rx segs) = (concat segs, DrainAgain)" by (induction segs) auto
  obtain d c1 e1 where d: "drain c e = (d, c1, e1)" by (metis prod_cases3)
  obtain b where s: "conn_step c e (c1, e1)" "c1 = c\<lparr>inbuf := b\<rparr>" "contents (inbuf c1) = contents (inbuf c) @ concat segs"
      "d = DrainAgain" "requests (counters e1) = requests (counters e)" "responses (counters e1) = responses (counters e)"
      "wire (sys e1) = wire (sys e)" "txs (sys e1) = txs (sys e)"
    using drain_spec [OF assms(1,2) d] assms(3) rd by auto
  obtain c2 e2 where t: "touch c1 e1 = (c2, e2)" by fastforce
  have ok2: "conn_ok c2 e2" using touch_step [OF conn_step_ok [OF s(1)]] t conn_step_ok by metis
  obtain t' where f: "c2 = c1\<lparr>last_activity := t'\<rparr>" "counters e2 = counters e1" "wire (sys e2) = wire (sys e1)"
      "txs (sys e2) = txs (sys e1)"
    using t env_now_facts [of e1] by (auto simp: touch_def split: prod.splits)
  have r: "handleRead handler c e = handleRequest handler c2 e2" for handler using d t s(4) by (simp add: handleRead_def)
  show ?thesis by (rule that [of t' b e2]) (use ok2 f s r in simp_all)
qed

lemma read_pipeline:
  assumes "conn_ok c e" "\<not> is_closed c" "parser c = HttpParser_new" "\<not> close_after_write c"
    and "contents (inbuf c) = []" "contents (outbuf c) = []"
    and "rxs (sys e) (c_fd c) = map Rx segs" "concat segs = concat (map render rs)"
    and "\<forall>r \<in> set rs. renderable r \<and> reply_keeps h r \<and> (\<forall>e. handler e r HttpResponse_new = h r)"
    and "txs (sys e) (c_fd c) = []"
    and "handleRead handler c e = (c', e')"
  shows "\<not> is_closed c' \<and> wire (sys e') (c_fd c) = wire (sys e) (c_fd c) @ concat (map (toString \<circ> h) rs) \<and>
    requests (counters e') = requests (counters e) + of_nat (length rs) \<and>
    responses (counters e') = responses (counters e) + of_nat (length rs) \<and>
    contents (inbuf c') = [] \<and> contents (outbuf c') = [] \<and> parser c' = HttpParser_new"
proof -
  obtain b t e2 where r: "\<And>handler. handleRead handler c e = handleRequest handler (c\<lparr>inbuf := b, last_activity := t\<rparr>) e2"
      "conn_ok (c\<lparr>inbuf := b, last_activity := t\<rparr>) e2" "contents b = contents (inbuf c) @ concat segs"
      "wire (sys e2) = wire (sys e)" "txs (sys e2) = txs (sys e)"
      "requests (counters e2) = requests (counters e)" "responses (counters e2) = responses (counters e)"
    by (rule handleRead_input [OF assms(1,2,7)]) blast
  have "handleRequest handler (c\<lparr>inbuf := b, last_activity := t\<rparr>) e2 = (c', e')" using assms(11) r(1) by simp
  from handleRequest_pipeline [OF _ r(2) _ _ _ _ _ _ this, of rs h] show ?thesis using assms r by simp
qed

section \<open>Properties\<close>

text \<open>
  C7: Pipelined requests are answered one by one and in order: when the bytes of any number of
  well-formed keep-alive requests arrive on an idle connection, cut into segments in any way, and the socket
  takes every write in full (\<open>txs = []\<close>: no short write, no \<open>EAGAIN\<close>, no error; C9 holds for every socket), one
  \<open>handleRead\<close> puts exactly the serialised responses of the handler on the wire, in the order of the
  requests and with nothing in between, counts every request and response, keeps the connection open
  and leaves nothing behind in either buffer.
\<close>

theorem read_answers_pipelined:
  assumes "conn_ok c e" "\<not> is_closed c" "parser c = HttpParser_new" "\<not> close_after_write c"
    and "contents (inbuf c) = []" "contents (outbuf c) = []"
    and "rxs (sys e) (c_fd c) = map Rx segs" "concat segs = concat (map render rs)"
    and "\<forall>r \<in> set rs. renderable r \<and> keepAlive r \<and> \<not> close_connection (h r)"
    and "txs (sys e) (c_fd c) = []"
    and "handleRead (\<lambda>_ r _. h r) c e = (c', e')"
  shows "\<not> is_closed c' \<and> wire (sys e') (c_fd c) = wire (sys e) (c_fd c) @ concat (map (toString \<circ> h) rs) \<and>
    requests (counters e') = requests (counters e) + of_nat (length rs) \<and>
    responses (counters e') = responses (counters e) + of_nat (length rs) \<and>
    contents (inbuf c') = [] \<and> contents (outbuf c') = [] \<and> parser c' = HttpParser_new"
  by (rule read_pipeline [OF assms(1-8) _ assms(10,11)]) (use assms(9) in \<open>simp add: reply_keeps_def\<close>)

text \<open>A connection on descriptor 5 of a loop, to instantiate the properties.\<close>

definition sample_env :: "rx list \<Rightarrow> tx list \<Rightarrow> unit env" where
  "sample_env rx tx =
     \<lparr>loop = \<lparr>wakeup_fd = 3, acceptor_fd = - 1, has_acceptor = False, pending_timers = 0,
        poller = \<lparr>epfd = 4, interest = [5 \<mapsto> kConnBaseEvents], max_events = 1024, events = [], num_events = 0\<rparr>,
        timers = TimerHeap_new [], quit_flag = False, looping = True, pending = [], calling_pending = False,
        connections = [5 \<mapsto> 7]\<rparr>,
      counters = ServerCounters_new,
      sys = \<lparr>clk = \<lparr>clk_now = 0, clk_ticks = []\<rparr>, rxs = (\<lambda>_. rx), txs = (\<lambda>_. tx), wire = (\<lambda>_. []),
        closed_fds = [], eventfd = 0, eps = [], tie_script = []\<rparr>\<rparr>"

definition sample_conn :: Connection where
  "sample_conn = \<lparr>oid = 7, shared = True, c_fd = 5, peer_ip = ''127.0.0.1'', peer_port = 4242,
     inbuf = Buffer_new 16, outbuf = Buffer_new 16, parser = HttpParser_new, idle_timeout_s = 60, idle_timer = 0,
     last_activity = 0, is_closed = False, writing = False, close_after_write = False, keep_alive = True\<rparr>"

lemma sample_ok: "conn_ok sample_conn (sample_env rx tx)"
  by (simp add: conn_ok_def sample_conn_def sample_env_def loop_ok_def conn_events_def)
    (simp add: timer_inv_def TimerHeap_new_def)

lemma sample_facts [simp]:
  "\<not> is_closed sample_conn" "parser sample_conn = HttpParser_new" "\<not> close_after_write sample_conn"
  "contents (inbuf sample_conn) = []" "contents (outbuf sample_conn) = []" "c_fd sample_conn = 5"
  "rxs (sys (sample_env rx tx)) fd = rx" "txs (sys (sample_env rx tx)) fd = tx" "wire (sys (sample_env rx tx)) fd = []"
  "requests (counters (sample_env rx tx)) = 0" "responses (counters (sample_env rx tx)) = 0"
  by (simp_all add: sample_conn_def sample_env_def ServerCounters_new_def)

definition sample_h :: "HttpRequest \<Rightarrow> HttpResponse" where
  "sample_h r = HttpResponse_make 200 (req_body r) text_plain"

theorem read_answers_pipelined_witness:
  "let segs = [take 10 (render sample_post), drop 10 (render sample_post @ render sample_post)];
       e' = snd (handleRead (\<lambda>_ r _. sample_h r) sample_conn (sample_env (map Rx segs) []))
   in wire (sys e') 5 = toString (sample_h sample_post) @ toString (sample_h sample_post) \<and> requests (counters e') = 2"
proof -
  let ?segs = "[take 10 (render sample_post), drop 10 (render sample_post @ render sample_post)]"
  obtain c' e' where r: "handleRead (\<lambda>_ r _. sample_h r) sample_conn (sample_env (map Rx ?segs) []) = (c', e')"
    by fastforce
  have len: "10 \<le> length (render sample_post)" by code_simp
  then have segs: "concat ?segs = concat (map render [sample_post, sample_post])" by simp
  have ka: "keepAlive sample_post" by code_simp
  have all: "\<forall>r \<in> set [sample_post, sample_post]. renderable r \<and> keepAlive r \<and> \<not> close_connection (sample_h r)"
    using renderable_sample_post ka by (simp add: sample_h_def HttpResponse_make_def HttpResponse_new_def)
  from read_answers_pipelined [OF sample_ok _ _ _ _ _ _ segs all _ r] show ?thesis
    unfolding Let_def r by simp
qed

text \<open>
  C9: Whatever the socket does (short writes, a full send buffer, interruptions, errors), what a
  connection has sent and still has to send after \<open>handleRequest\<close> is what it had before followed by
  whole responses, in the order of the requests, none left out: all responses the buffered input calls
  for if the connection stays open, the first ones of them if it closed on the way.
\<close>

theorem responses_whole_and_in_order:
  assumes "conn_ok c e" "\<not> is_closed c" "handleRequest (\<lambda>_ r _. h r) c e = (c', e')"
  shows "\<exists>n. wire (sys e') (c_fd c) @ contents (outbuf c') =
      wire (sys e) (c_fd c) @ contents (outbuf c) @ concat (take n (replies h (parser c) (contents (inbuf c)))) \<and>
    (\<not> is_closed c' \<longrightarrow> length (replies h (parser c) (contents (inbuf c))) \<le> n)"
  using handleRequest_stream [OF assms] by (simp add: stream_def)

theorem responses_whole_and_in_order_witness:
  "\<exists>n c' e'. handleRequest (\<lambda>_ r _. sample_h r) sample_conn (sample_env [] [TxAccept 3, TxErr EAGAIN]) = (c', e') \<and>
     wire (sys e') 5 @ contents (outbuf c') = concat (take n (replies sample_h HttpParser_new []))"
proof -
  obtain c' e' where r: "handleRequest (\<lambda>_ r _. sample_h r) sample_conn (sample_env [] [TxAccept 3, TxErr EAGAIN]) = (c', e')"
    by fastforce
  from responses_whole_and_in_order [OF sample_ok _ r] r show ?thesis by auto
qed

text \<open>
  C11: Whatever is called on a connection in whatever order, its state stays consistent with the loop's
  (an open connection is in the table and registered with epoll for reading, and for writing exactly
  while \<open>writing_\<close> is set; its buffers and parser are well-formed), nothing that belongs to another
  descriptor is touched, and the connection closes at most once: then its descriptor is closed exactly
  once, gone from the table and from epoll, and counted once.
\<close>

theorem conn_closes_once:
  assumes "conn_ok c e" "\<not> is_closed c" "conn_run h ops c e = (c', e')"
  shows "conn_ok c' e' \<and> others_same (c_fd c) e e' \<and>
    (if is_closed c'
     then closed (counters e') = closed (counters e) + 1 \<and> closed_fds (sys e') = closed_fds (sys e) @ [c_fd c] \<and>
       connections (loop e') (c_fd c) = None \<and> interest (poller (loop e')) (c_fd c) = None
     else closed (counters e') = closed (counters e) \<and> closed_fds (sys e') = closed_fds (sys e) \<and>
       connections (loop e') (c_fd c) = Some (oid c) \<and> interest (poller (loop e')) (c_fd c) = Some (conn_events c'))"
  using conn_run_step [OF assms(1), of h ops] assms(2,3)
  by (auto simp: conn_step_def conn_ok_def)

theorem conn_closes_once_witness:
  "\<exists>c' e'. conn_run (\<lambda>_ r _. sample_h r) [DoRead, DoClose, DoError, DoClose] sample_conn (sample_env [RxErr EINTR, RxEof] []) = (c', e') \<and>
     conn_ok c' e' \<and> others_same 5 (sample_env [RxErr EINTR, RxEof] []) e'"
proof -
  obtain c' e' where r: "conn_run (\<lambda>_ r _. sample_h r) [DoRead, DoClose, DoError, DoClose] sample_conn (sample_env [RxErr EINTR, RxEof] []) = (c', e')"
    by fastforce
  from conn_closes_once [OF sample_ok _ r] r show ?thesis by auto
qed

lemma conn_events_EPOLLOUT: "(conn_events c AND EPOLLOUT \<noteq> 0) = writing c"
  by (simp add: conn_events_def kConnBaseEvents_def)

lemma conn_send_writing:
  assumes "conn_ok c e" "handleWrite c e = (c', e')" "\<not> is_closed c'" "readableBytes (outbuf c') \<noteq> 0"
    "\<forall>s. txs (sys e) (c_fd c) \<noteq> TxErr EINTR # s"
  shows "writing c'"
proof -
  have op: "\<not> is_closed c" using handleWrite_step [OF assms(1)] assms(2,3) by (simp add: conn_step_def)
  have noint: "fst (sys_write d (txs (sys e) (c_fd c))) \<noteq> Inl EINTR" for d
    using assms(5) by (cases "(d, txs (sys e) (c_fd c))" rule: sys_write.cases) auto
  show ?thesis
  proof (cases "writeSome c e")
    case (Inl r)
    have "is_closed (fst (handleError c1 e1))" for c1 :: Connection and e1 :: "'a env"
      by (simp add: handleError_def conn_close_def Let_def)
    with Inl op assms(2,3) noint have False
      by (auto simp: handleWrite_def writeSome_def env_write_def split: if_splits sum.splits prod.splits
          dest!: arg_cong [where f = fst]) metis
    then show ?thesis ..
  next
    case (Inr r)
    with op assms(2-4) show ?thesis
      by (auto simp: handleWrite_def Let_def enableWriting_def frame_simps split: if_splits prod.splits
          dest: arg_cong [where f = "\<lambda>x. outbuf (fst x)"])
  qed
qed

text \<open>
  C32: No output is forgotten: after a call of \<open>handleWrite\<close> that the kernel did not interrupt, if the
  connection is still open and something is left to send, then epoll is watching the descriptor for
  EPOLLOUT, so the rest goes out when the socket has room.
\<close>

theorem pending_output_is_watched:
  assumes "conn_ok c e" "handleWrite c e = (c', e')" "\<not> is_closed c'" "contents (outbuf c') \<noteq> []"
    "\<forall>s. txs (sys e) (c_fd c) \<noteq> TxErr EINTR # s"
  shows "\<exists>ev. interest (poller (loop e')) (c_fd c) = Some ev \<and> ev AND EPOLLOUT \<noteq> 0 \<and> ev AND EPOLLIN \<noteq> 0"
proof -
  have ok: "conn_ok c' e'" "c_fd c' = c_fd c"
    using handleWrite_step [OF assms(1)] assms(2,3) by (auto simp: conn_step_def)
  then have "readableBytes (outbuf c') \<noteq> 0" using assms(4) by (simp add: conn_ok_def readableBytes_contents)
  with conn_send_writing [OF assms(1-3) _ assms(5)] have w: "writing c'" by simp
  have "interest (poller (loop e')) (c_fd c) = Some (conn_events c')" using ok assms(3) by (simp add: conn_ok_def)
  moreover have "conn_events c' AND EPOLLOUT \<noteq> 0" "conn_events c' AND EPOLLIN \<noteq> 0"
    using w by (simp_all add: conn_events_def kConnBaseEvents_def)
  ultimately show ?thesis by blast
qed

definition sample_busy :: Connection where
  "sample_busy = sample_conn\<lparr>outbuf := append_bytes (Buffer_new 16) ''abc''\<rparr>"

lemma sample_busy_ok: "conn_ok sample_busy (sample_env rx tx)"
  using conn_step_ok [OF conn_step_fields(6) [OF conn_step_refl [OF sample_ok], of "append_bytes (Buffer_new 16) ''abc''"]]
  by (simp add: sample_busy_def)

lemma sample_busy_facts [simp]:
  "contents (outbuf sample_busy) = ''abc''" "c_fd sample_busy = 5" "\<not> is_closed sample_busy" "\<not> writing sample_busy"
  "\<not> close_after_write sample_busy"
  by (simp_all add: sample_busy_def buf_simps) (simp_all add: sample_conn_def)

lemma sample_busy_len: "readableBytes (outbuf sample_busy) = 3"
  using sample_busy_ok [of "[]" "[]"] by (simp add: conn_ok_def readableBytes_contents)

lemma sample_busy_blocked:
  "handleWrite sample_busy (sample_env [] [TxErr EAGAIN]) = (c', e') \<Longrightarrow>
   \<not> is_closed c' \<and> contents (outbuf c') = ''abc''"
  by (auto simp: handleWrite_def writeSome_def sample_busy_len env_write_def enableWriting_def)

theorem pending_output_is_watched_witness:
  "\<exists>c' e' ev. handleWrite sample_busy (sample_env [] [TxErr EAGAIN]) = (c', e') \<and>
     interest (poller (loop e')) 5 = Some ev \<and> ev AND EPOLLOUT \<noteq> 0"
proof -
  obtain c' e' where r: "handleWrite sample_busy (sample_env [] [TxErr EAGAIN]) = (c', e')" by fastforce
  note b = sample_busy_blocked [OF r]
  from pending_output_is_watched [OF sample_busy_ok r] b r show ?thesis by auto
qed

text \<open>
  An interrupted write is forgotten: when \<open>write\<close> fails with EINTR before anything was registered,
  \<open>handleWrite\<close> returns with the output still in the buffer and epoll not watching for EPOLLOUT. With
  edge-triggered reading and a peer that waits for the response nothing makes the loop try again.
\<close>

lemma interrupted_write_not_watched:
  assumes "conn_ok c e" "\<not> is_closed c" "\<not> writing c" "contents (outbuf c) \<noteq> []" "txs (sys e) (c_fd c) = TxErr EINTR # s"
  shows "\<exists>e' ev. handleWrite c e = (c, e') \<and> wire (sys e') = wire (sys e) \<and>
    interest (poller (loop e')) (c_fd c) = Some ev \<and> ev AND EPOLLOUT = 0"
proof -
  have "0 < readableBytes (outbuf c)" using assms(1,4) by (simp add: conn_ok_def readableBytes_contents)
  then have "\<exists>e'. handleWrite c e = (c, e') \<and> wire (sys e') = wire (sys e) \<and> loop e' = loop e"
    using assms(2,5) by (simp add: handleWrite_def writeSome_def env_write_def)
  moreover have "interest (poller (loop e)) (c_fd c) = Some (conn_events c)" using assms(1,2) by (simp add: conn_ok_def)
  ultimately show ?thesis using conn_events_EPOLLOUT [of c] assms(3) by metis
qed

lemma interrupted_write_not_watched_witness:
  "\<exists>e'. handleWrite sample_busy (sample_env [] [TxErr EINTR]) = (sample_busy, e')"
  using interrupted_write_not_watched [OF sample_busy_ok, of "[]" "[TxErr EINTR]" "[]"] by auto

text \<open>
  Requests that arrive together with the end of the stream are not answered: if the data is
  followed by the peer's FIN before the socket is drained, \<open>handleRead\<close> closes the connection without
  parsing what it just read; nothing is sent and no request is counted, whatever the data was.
\<close>

lemma data_before_eof_unanswered:
  assumes "conn_ok c e" "\<not> is_closed c" "rxs (sys e) (c_fd c) = Rx d # RxEof # s" "handleRead h c e = (c', e')"
  shows "is_closed c' \<and> wire (sys e') = wire (sys e) \<and> requests (counters e') = requests (counters e) \<and>
    bytes_read (counters e') = bytes_read (counters e) + of_nat (length d)"
proof -
  obtain dd c1 e1 where dr: "drain c e = (dd, c1, e1)" by (metis prod_cases3)
  have s: "dd = DrainEof" "is_closed c1 = is_closed c" "wire (sys e1) = wire (sys e)"
      "counters e1 = (counters e)\<lparr>bytes_read := bytes_read (counters e) + of_nat (length d)\<rparr>"
    using drain_spec [OF assms(1,2) dr] assms(3) by auto
  with assms(4) dr have cl: "conn_close c1 e1 = (c', e')" by (simp add: handleRead_def)
  with close_sys [of c1 e1] s assms(2) show ?thesis
    by (auto simp: conn_close_def Let_def bump_def fd_close_def on_poller_def on_timers_def split: if_splits)
qed

lemma data_before_eof_unanswered_witness:
  "\<exists>c' e'. handleRead (\<lambda>_ r _. sample_h r) sample_conn (sample_env [Rx (render sample_post), RxEof] []) = (c', e') \<and>
     is_closed c' \<and> wire (sys e') 5 = [] \<and> requests (counters e') = 0"
proof -
  obtain c' e' where r: "handleRead (\<lambda>_ r _. sample_h r) sample_conn (sample_env [Rx (render sample_post), RxEof] []) = (c', e')"
    by fastforce
  from data_before_eof_unanswered [OF sample_ok _ _ r] r show ?thesis by auto
qed

text \<open>
  C33: The idle timer closes a connection exactly when it has been idle for the configured time at the
  moment the timer runs. Otherwise the connection stays open with a new timer, not cancelled, due one
  full period after the check and hence less than two periods after the last activity (plus the time
  the check itself takes): an idle connection is gone within twice the configured time.
\<close>

theorem idle_check_rule:
  assumes "conn_ok c e" "\<not> is_closed c" "shared c" "0 < idle_timeout_s c" "idleCheck c e = (c', e')"
    and "period = idle_timeout_s c * 1000000000" "clk_read (clk (sys e)) = (t, k)"
  shows "(is_closed c' \<longleftrightarrow> period \<le> t - last_activity c) \<and>
    (is_closed c' \<longrightarrow> timeouts_closed (counters e') = timeouts_closed (counters e) + 1) \<and>
    (\<not> is_closed c' \<longrightarrow> idle_timer c' \<notin> cancelled (timers (loop e')) \<and>
       (\<exists>x \<in> set (heap (timers (loop e'))). e_id x = idle_timer c' \<and> e_cb x = Some (IdleCheck (oid c)) \<and>
          e_when x = clk_now k + period \<and> e_when x < last_activity c + 2 * period + (clk_now k - t)))"
proof -
  obtain e1 where n: "env_now e = (t, e1)" "loop e1 = loop e" "counters e1 = counters e" "clk (sys e1) = k"
    using assms(7) by (simp add: env_now_def)
  show ?thesis
  proof (cases "period \<le> t - last_activity c")
    case True
    with assms(5,6) n(1) have "conn_close (c\<lparr>idle_timer := 0\<rparr>) (bump (timeouts_closed_update (\<lambda>n. n + 1)) e1) = (c', e')"
      by (simp add: idleCheck_def)
    with assms(2) n True show ?thesis
      by (auto simp: conn_close_def Let_def bump_def fd_close_def on_poller_def split: if_splits)
  next
    case False
    with assms(2-6) n(1) have "armIdleTimer c e1 = (c', e')" by (simp add: idleCheck_def)
    then obtain tid k2 hp where a: "addAfter (idle_timeout_s c * 1000) (Some (IdleCheck (oid c))) k (timers (loop e)) = (tid, k2, hp)"
        "c' = c\<lparr>idle_timer := tid\<rparr>" "timers (loop e') = hp"
      using assms(2-4) n by (auto simp: armIdleTimer_def split: prod.splits)
    have w: "timer_add (clk_now k + period) (Some (IdleCheck (oid c))) (timers (loop e)) = (tid, hp)"
      using a(1) assms(6) by (auto simp: addAfter_def clk_read_def Let_def mult.commute split: prod.splits)
    have inv: "timer_inv (timers (loop e))" using assms(1) by (simp add: conn_ok_def loop_ok_def)
    have "tid \<notin> cancelled hp"
      using timer_inv_add [OF inv w] w by (auto simp: timer_add_def Let_def)
    moreover have "\<lparr>e_when = clk_now k + period, e_cb = Some (IdleCheck (oid c)), e_id = tid\<rparr> \<in> set (heap hp)"
      using w by (auto simp: timer_add_def Let_def set_heap_push)
    ultimately show ?thesis
      using False assms(2) a by (auto intro!: bexI)
  qed
qed

theorem idle_check_rule_witness:
  "\<exists>c' e'. idleCheck sample_conn (sample_env [] []) = (c', e') \<and> \<not> is_closed c' \<and>
     (\<exists>x \<in> set (heap (timers (loop e'))). e_id x = idle_timer c' \<and> e_when x = 60000000000)"
proof -
  obtain c' e' where r: "idleCheck sample_conn (sample_env [] []) = (c', e')" by fastforce
  have s: "shared sample_conn" "0 < idle_timeout_s sample_conn" "idle_timeout_s sample_conn = 60" "last_activity sample_conn = 0"
    by (simp_all add: sample_conn_def)
  have k: "clk_read (clk (sys (sample_env [] []))) = (0, \<lparr>clk_now = 0, clk_ticks = []\<rparr>)"
    by (simp add: sample_env_def clk_read_def)
  from idle_check_rule [OF sample_ok _ s(1,2) r refl k] s r show ?thesis by auto
qed

end
