(* ===== verification/Idle_Timers.thy ===== *)
theory Idle_Timers
  imports Connection_Props
begin

text \<open>
  The idle timers of a loop's connections (\<open>Connection::armIdleTimer\<close>, \<open>src/connection.cpp\<close>, with the heap
  of \<open>src/timer.cpp\<close>). Two contracts: \<open>timer_kept\<close> is what every operation but the idle check does to the
  timers, namely nothing, except that closing cancels the connection's own one; \<open>covered\<close> is the
  relation between the connections of a loop and its timer heap: the timers that are not cancelled and the
  connections with an idle timeout correspond one to one, and no cancellation outlives its entry.
\<close>

section \<open>Operations that leave the timers alone\<close>

definition timer_kept :: "Connection \<Rightarrow> 'task env \<Rightarrow> Connection \<times> 'task env \<Rightarrow> bool" where
  "timer_kept c e r \<longleftrightarrow> (case r of (c', e') \<Rightarrow> (is_closed c \<longrightarrow> is_closed c') \<and> idle_timeout_s c' = idle_timeout_s c \<and>
     (if is_closed c' \<and> \<not> is_closed c then timers (loop e') = cancel (idle_timer c) (timers (loop e))
      else timers (loop e') = timers (loop e) \<and> idle_timer c' = idle_timer c))"

named_theorems kept

lemma timer_kept_refl [simp]: "timer_kept c e (c, e)"
  by (simp add: timer_kept_def)

lemma timer_kept_trans: "timer_kept c e (c1, e1) \<Longrightarrow> timer_kept c1 e1 r \<Longrightarrow> timer_kept c e r"
  by (cases r; cases "is_closed c"; cases "is_closed c1") (simp_all add: timer_kept_def split: if_splits)

lemma timer_kept_same:
  "timers (loop e') = timers (loop e) \<Longrightarrow> idle_timer c' = idle_timer c \<Longrightarrow> idle_timeout_s c' = idle_timeout_s c \<Longrightarrow>
   is_closed c' = is_closed c \<Longrightarrow> timer_kept c e (c', e')"
  by (simp add: timer_kept_def)

lemma kept_close [kept]: "timer_kept c e (conn_close c e)"
  by (auto simp: timer_kept_def conn_close_def Let_def bump_def fd_close_def on_poller_def on_timers_def
      removeConnection_def cancel_def)

lemma kept_error [kept]: "timer_kept c e (handleError c e)"
  unfolding handleError_def by (rule timer_kept_trans [OF timer_kept_same kept_close]) (simp_all add: bump_def)

lemma kept_enableWriting [kept]: "timer_kept c e (enableWriting on c e)"
  by (simp add: enableWriting_def timer_kept_def on_poller_def)

lemma kept_touch [kept]: "timer_kept c e (touch c e)"
proof -
  obtain t e' where n: "env_now e = (t, e')" by fastforce
  with env_now_facts [OF n] show ?thesis by (simp add: touch_def timer_kept_def)
qed

lemma kept_writeSome: "writeSome c e = Inl r \<or> writeSome c e = Inr r \<Longrightarrow> timer_kept c e r"
proof -
  assume w: "writeSome c e = Inl r \<or> writeSome c e = Inr r"
  obtain x e1 where x: "env_write (c_fd c) (peek_n (outbuf c) (readableBytes (outbuf c))) e = (x, e1)" by fastforce
  have s: "timer_kept c e (c, e1)" by (rule timer_kept_same) (use env_write_facts [OF x] in simp_all)
  have "timer_kept c e (c\<lparr>outbuf := b\<rparr>, bump f e1)" for b f
    by (rule timer_kept_same) (use env_write_facts [OF x] in \<open>simp_all add: bump_def\<close>)
  with w x s timer_kept_trans [OF s kept_error] show ?thesis
    by (auto simp: writeSome_def split: if_splits sum.splits)
qed

lemma kept_write [kept]: "timer_kept c e (handleWrite c e)"
proof (cases "writeSome c e")
  case (Inl r)
  with kept_writeSome [of c e r] show ?thesis by (simp add: handleWrite_def)
next
  case (Inr r)
  obtain c1 e1 where r: "r = (c1, e1)" by (cases r)
  have 1: "timer_kept c e (c1, e1)" using kept_writeSome [of c e r] Inr r by simp
  obtain c2 e2 where w: "enableWriting False c1 e1 = (c2, e2)" by fastforce
  have 2: "timer_kept c e (c2, e2)" using timer_kept_trans [OF 1 kept_enableWriting [of c1 e1 False]] w by simp
  show ?thesis
    using Inr r w 1 2 timer_kept_trans [OF 1 kept_close] timer_kept_trans [OF 2 kept_close]
      timer_kept_trans [OF 1 kept_enableWriting [of c1 e1 True]]
    by (simp add: handleWrite_def Let_def)
qed

lemma kept_send [kept]: "timer_kept c e (conn_send d c e)"
proof -
  have "timer_kept c e (c\<lparr>outbuf := append_bytes (outbuf c) d\<rparr>, e)" by (rule timer_kept_same) simp_all
  with timer_kept_trans [OF this kept_write] show ?thesis by (simp add: conn_send_def)
qed

lemma kept_reject [kept]: "timer_kept c e (rejectRequest c e)"
  unfolding rejectRequest_def by (rule timer_kept_trans [OF timer_kept_same kept_send]) (simp_all add: bump_def)

lemma kept_answer [kept]: "timer_kept c e (answerRequest h c e)"
proof -
  have fin: "timer_kept c e (c2\<lparr>parser := q\<rparr>, bump g e2)"
    if "conn_send d c1 (bump f e) = (c2, e2)" "idle_timer c1 = idle_timer c" "idle_timeout_s c1 = idle_timeout_s c" "is_closed c1 = is_closed c"
    for d c1 c2 e2 q f g
  proof -
    have "timer_kept c e (c1, bump f e)" by (rule timer_kept_same) (use that in \<open>simp_all add: bump_def\<close>)
    with kept_send [of c1 "bump f e" d] that(1) have s: "timer_kept c e (c2, e2)" by (metis timer_kept_trans)
    show ?thesis by (rule timer_kept_trans [OF s timer_kept_same]) (simp_all add: bump_def)
  qed
  show ?thesis by (auto simp: answerRequest_def Let_def split: prod.split intro!: fin)
qed

lemma kept_request [kept]: "timer_kept c e (handleRequest h c e)"
proof (induction h c e rule: handleRequest.induct)
  case (1 h c e)
  obtain r p b where p: "parse (parser c) (inbuf c) = (r, p, b)" by (metis prod_cases3)
  let ?c = "c\<lparr>parser := p, inbuf := b\<rparr>"
  have s: "timer_kept c e (?c, e)" by (rule timer_kept_same) simp_all
  obtain c2 e2 where a: "answerRequest h ?c e = (c2, e2)" by fastforce
  have sa: "timer_kept c e (c2, e2)" using timer_kept_trans [OF s kept_answer [of ?c e h]] a by simp
  have "timer_kept c2 e2 (handleRequest h c2 e2)" if "r = OK" "keep_alive c2" "readableBytes (inbuf c2) \<noteq> 0"
    using 1 [OF p [symmetric] refl refl that(1) a [symmetric]] that by simp
  with timer_kept_trans [OF sa] timer_kept_trans [OF s kept_reject] s sa p a show ?case
    by (cases r) (auto simp: handleRequest.simps [of h c e])
qed

lemma kept_drain: "drain c e = (d, r) \<Longrightarrow> timer_kept c e r"
proof (induction c e arbitrary: d r rule: drain.induct)
  case (1 c e)
  obtain x c1 e1 where rd: "conn_readFd c e = (x, c1, e1)" by (metis prod_cases3)
  have s: "timer_kept c e (c1, e1)" by (rule timer_kept_same) (use rd in \<open>auto simp: conn_readFd_def split: if_splits prod.splits\<close>)
  show ?case
  proof (cases x)
    case (Inl er)
    show ?thesis
    proof (cases "er = EINTR")
      case True
      have "timer_kept c1 e1 r"
        by (rule 1(1) [OF rd [symmetric] Inl refl _ True]) (use 1(3) rd Inl True in \<open>simp_all add: drain.simps [of c e]\<close>)
      then show ?thesis by (rule timer_kept_trans [OF s])
    next
      case False
      with 1(3) rd Inl s show ?thesis by (auto simp: drain.simps [of c e] split: if_splits)
    qed
  next
    case (Inr n)
    let ?e2 = "bump (bytes_read_update (\<lambda>k. k + of_nat n)) e1"
    show ?thesis
    proof (cases "0 < n")
      case True
      have "timer_kept c1 ?e2 r"
        by (rule 1(2) [OF rd [symmetric] Inr refl True]) (use 1(3) rd Inr True in \<open>simp add: drain.simps [of c e]\<close>)
      moreover have "timer_kept c e (c1, ?e2)" by (rule timer_kept_trans [OF s timer_kept_same]) (simp_all add: bump_def)
      ultimately show ?thesis by (rule timer_kept_trans [rotated])
    next
      case False
      with 1(3) rd Inr s show ?thesis by (auto simp: drain.simps [of c e] split: if_splits)
    qed
  qed
qed

lemma kept_read [kept]: "timer_kept c e (handleRead h c e)"
proof -
  obtain d c1 e1 where d: "drain c e = (d, c1, e1)" by (metis prod_cases3)
  have s: "timer_kept c e (c1, e1)" by (rule kept_drain [OF d])
  obtain c2 e2 where t: "touch c1 e1 = (c2, e2)" by fastforce
  have "timer_kept c e (c2, e2)" using timer_kept_trans [OF s kept_touch] t by metis
  then show ?thesis
    using d t timer_kept_trans [OF s kept_close] timer_kept_trans [OF s kept_error] timer_kept_trans [OF _ kept_request [of c2 e2 h]]
    by (cases d) (simp_all add: handleRead_def)
qed

section \<open>The interface with timers\<close>

text \<open>An operation on a connection that a loop may run at any time: it also treats the timers with care.\<close>

locale timed_action = conn_action +
  assumes act_kept: "timer_kept c e (act c e)"
begin

lemma act_both: "conn_ok c e \<Longrightarrow> act c e = (c', e') \<Longrightarrow> conn_step c e (c', e') \<and> timer_kept c e (c', e')"
  using act_step [of c e] act_kept [of c e] by simp

end

interpretation read_timed: timed_action "handleRead h" for h by unfold_locales (rule kept_read)
interpretation write_timed: timed_action handleWrite by unfold_locales (rule kept_write)
interpretation error_timed: timed_action handleError by unfold_locales (rule kept_error)
interpretation close_timed: timed_action conn_close by unfold_locales (rule kept_close)
interpretation send_timed: timed_action "conn_send d" for d by unfold_locales (rule kept_send)

section \<open>Connections and their timers\<close>

definition covered :: "(nat \<Rightarrow> Connection option) \<Rightarrow> timer_cb TimerHeap \<Rightarrow> bool" where
  "covered f h \<longleftrightarrow> cancelled h \<subseteq> e_id ` set (heap h) \<and>
     (\<forall>x \<in> set (live h). \<exists>i c. e_cb x = Some (IdleCheck i) \<and> f i = Some c \<and> idle_timer c = e_id x) \<and>
     (\<forall>i c. f i = Some c \<longrightarrow>
        (if 0 < idle_timeout_s c then \<exists>x \<in> set (live h). e_id x = idle_timer c \<and> e_cb x = Some (IdleCheck i)
         else idle_timer c = 0))"

lemma covered_timer:
  assumes "covered f h" "x \<in> set (live h)"
  obtains i c where "e_cb x = Some (IdleCheck i)" "f i = Some c" "idle_timer c = e_id x"
  using assms unfolding covered_def by blast

lemma covered_conn:
  assumes "covered f h" "f i = Some c"
  shows "if 0 < idle_timeout_s c then \<exists>x \<in> set (live h). e_id x = idle_timer c \<and> e_cb x = Some (IdleCheck i) else idle_timer c = 0"
  using assms unfolding covered_def by blast

lemma covered_timeout: "covered f h \<Longrightarrow> f i = Some c \<Longrightarrow> 0 < idle_timer c \<Longrightarrow> 0 < idle_timeout_s c"
  using covered_conn [of f h i c] by (simp split: if_splits)

lemma live_subset: "set (live h) \<subseteq> set (heap h)"
  by (auto simp: live_def)

lemma live_unique: "timer_inv h \<Longrightarrow> x \<in> set (live h) \<Longrightarrow> y \<in> set (live h) \<Longrightarrow> e_id x = e_id y \<Longrightarrow> x = y"
  using live_subset [of h] by (auto simp: timer_inv_def distinct_map dest: inj_onD)

lemma live_id_pos: "timer_inv h \<Longrightarrow> x \<in> set (live h) \<Longrightarrow> 0 < e_id x"
  using live_subset [of h] by (auto simp: timer_inv_def)

lemma covered_empty [simp]: "covered (\<lambda>_. None) (TimerHeap_new ts)"
  by (simp add: covered_def TimerHeap_new_def live_def)

lemma covered_same:
  assumes "covered f h" "f i = Some c" "idle_timer c' = idle_timer c" "idle_timeout_s c' = idle_timeout_s c"
  shows "covered (f(i \<mapsto> c')) h"
proof -
  have "\<exists>j d. e_cb x = Some (IdleCheck j) \<and> (f(i \<mapsto> c')) j = Some d \<and> idle_timer d = e_id x" if x: "x \<in> set (live h)" for x
  proof -
    obtain j d where j: "e_cb x = Some (IdleCheck j)" "f j = Some d" "idle_timer d = e_id x" by (rule covered_timer [OF assms(1) x])
    show ?thesis
    proof (cases "j = i")
      case True
      with j assms(2,3) show ?thesis by simp
    next
      case False
      with j show ?thesis by simp
    qed
  qed
  with assms show ?thesis by (simp add: covered_def)
qed

text \<open>A connection that closes cancels its timer.\<close>

lemma covered_close:
  assumes cov: "covered f h" and inv: "timer_inv h" and i: "f i = Some c"
  shows "covered (f(i := None)) (cancel (idle_timer c) h)"
proof -
  let ?h = "cancel (idle_timer c) h"
  have live': "set (live ?h) = {x \<in> set (live h). e_id x \<noteq> idle_timer c}" by (simp add: live_cancel [OF inv])
  have own: "e_id x = idle_timer c \<longleftrightarrow> e_cb x = Some (IdleCheck i)" if x: "x \<in> set (live h)" for x
  proof
    assume id: "e_id x = idle_timer c"
    then have "0 < idle_timeout_s c" using covered_timeout [OF cov i] live_id_pos [OF inv x] by simp
    then obtain y where "y \<in> set (live h)" "e_id y = idle_timer c" "e_cb y = Some (IdleCheck i)" using covered_conn [OF cov i] by auto
    with live_unique [OF inv x] id show "e_cb x = Some (IdleCheck i)" by metis
  next
    assume "e_cb x = Some (IdleCheck i)"
    with covered_timer [OF cov x] i show "e_id x = idle_timer c" by (metis option.inject timer_cb.inject)
  qed
  have "cancelled ?h \<subseteq> e_id ` set (heap ?h)"
  proof (cases "0 < idle_timeout_s c")
    case True
    then obtain y where "y \<in> set (live h)" "e_id y = idle_timer c" using covered_conn [OF cov i] by auto
    then have "idle_timer c \<in> e_id ` set (heap h)" using live_subset [of h] by (metis image_eqI subsetD)
    with cov show ?thesis by (simp add: covered_def cancel_def)
  next
    case False
    with cov i show ?thesis by (simp add: covered_def cancel_def)
  qed
  moreover have "\<exists>j d. e_cb x = Some (IdleCheck j) \<and> (f(i := None)) j = Some d \<and> idle_timer d = e_id x" if x: "x \<in> set (live ?h)" for x
  proof -
    have x': "x \<in> set (live h)" "e_id x \<noteq> idle_timer c" using x live' by auto
    obtain j d where "e_cb x = Some (IdleCheck j)" "f j = Some d" "idle_timer d = e_id x" by (rule covered_timer [OF cov x'(1)])
    with own [OF x'(1)] x'(2) show ?thesis by auto
  qed
  moreover have "if 0 < idle_timeout_s d then \<exists>x \<in> set (live ?h). e_id x = idle_timer d \<and> e_cb x = Some (IdleCheck j) else idle_timer d = 0"
    if "(f(i := None)) j = Some d" for j d
  proof -
    have j: "j \<noteq> i" "f j = Some d" using that by (auto split: if_splits)
    show ?thesis
    proof (cases "0 < idle_timeout_s d")
      case True
      then obtain x where x: "x \<in> set (live h)" "e_id x = idle_timer d" "e_cb x = Some (IdleCheck j)" using covered_conn [OF cov j(2)] by auto
      with own [of x] j(1) True show ?thesis unfolding live' by auto
    next
      case False
      with cov j(2) show ?thesis by (simp add: covered_def)
    qed
  qed
  ultimately show ?thesis unfolding covered_def by blast
qed

text \<open>The loop of \<open>expire\<close>: a cancelled entry goes with its cancellation; a live one leaves its connection uncovered.\<close>

lemma live_skip:
  assumes "timer_inv h" "heap h = x # rest" "e_id x \<in> cancelled h"
  shows "live (h\<lparr>heap := rest, cancelled := cancelled h - {e_id x}\<rparr>) = live h" "\<forall>y \<in> set rest. e_id y \<noteq> e_id x"
proof -
  have "e_id x \<notin> e_id ` set rest" using assms(1,2) by (simp add: timer_inv_def)
  then have new: "e_id y \<noteq> e_id x" if "y \<in> set rest" for y using that by (metis image_eqI)
  with assms(2,3) show "live (h\<lparr>heap := rest, cancelled := cancelled h - {e_id x}\<rparr>) = live h"
    by (auto simp: live_def intro!: filter_cong)
  show "\<forall>y \<in> set rest. e_id y \<noteq> e_id x" using new by blast
qed

lemma covered_skip:
  assumes cov: "covered f h" and inv: "timer_inv h" and h: "heap h = x # rest" "e_id x \<in> cancelled h"
  shows "covered f (h\<lparr>heap := rest, cancelled := cancelled h - {e_id x}\<rparr>)"
  using cov h live_skip [OF inv h] by (auto simp: covered_def)

lemma covered_pop:
  assumes cov: "covered f h" and inv: "timer_inv h" and h: "heap h = x # rest" "e_id x \<notin> cancelled h" "e_cb x = Some (IdleCheck i)"
  obtains c where "f i = Some c" "0 < idle_timeout_s c" "covered (f(i := None)) (h\<lparr>heap := rest\<rparr>)"
proof -
  have lv: "live h = x # live (h\<lparr>heap := rest\<rparr>)" using h by (simp add: live_def)
  then have x: "x \<in> set (live h)" by simp
  obtain c where c: "f i = Some c" "idle_timer c = e_id x" using covered_timer [OF cov x] h(3) by (metis option.inject timer_cb.inject)
  have to: "0 < idle_timeout_s c" using covered_timeout [OF cov c(1)] c(2) live_id_pos [OF inv x] by simp
  have "e_id x \<notin> e_id ` set rest" using inv h(1) by (simp add: timer_inv_def)
  then have new: "e_id y \<noteq> e_id x" if "y \<in> set (live (h\<lparr>heap := rest\<rparr>))" for y
    using that live_subset [of "h\<lparr>heap := rest\<rparr>"] by (force intro: rev_image_eqI)
  have "cancelled (h\<lparr>heap := rest\<rparr>) \<subseteq> e_id ` set (heap (h\<lparr>heap := rest\<rparr>))" using cov h by (auto simp: covered_def)
  moreover have "\<exists>j d. e_cb y = Some (IdleCheck j) \<and> (f(i := None)) j = Some d \<and> idle_timer d = e_id y"
    if y: "y \<in> set (live (h\<lparr>heap := rest\<rparr>))" for y
  proof -
    have "y \<in> set (live h)" using y lv by simp
    then obtain j d where j: "e_cb y = Some (IdleCheck j)" "f j = Some d" "idle_timer d = e_id y" by (rule covered_timer [OF cov])
    with new [OF y] c have "j \<noteq> i" by auto
    with j show ?thesis by simp
  qed
  moreover have "if 0 < idle_timeout_s d then \<exists>y \<in> set (live (h\<lparr>heap := rest\<rparr>)). e_id y = idle_timer d \<and> e_cb y = Some (IdleCheck j)
      else idle_timer d = 0" if "(f(i := None)) j = Some d" for j d
    using that covered_conn [OF cov, of j d] h(3) lv by (auto split: if_splits)
  ultimately have "covered (f(i := None)) (h\<lparr>heap := rest\<rparr>)" unfolding covered_def by blast
  with c(1) to show ?thesis by (rule that)
qed

text \<open>Arming covers a connection that has no timer, and one without a timeout needs none.\<close>

lemma covered_add:
  assumes cov: "covered g h" and inv: "timer_inv h" and i: "g i = None" and a: "timer_add w (Some (IdleCheck i)) h = (tid, h')"
    and c: "idle_timer c = tid" "0 < idle_timeout_s c"
  shows "covered (g(i \<mapsto> c)) h'"
proof -
  let ?x = "\<lparr>e_when = w, e_cb = Some (IdleCheck i), e_id = next_id h\<rparr>"
  have t: "tid = next_id h" "h' = snd (timer_add w (Some (IdleCheck i)) h)" using a by (auto simp: timer_add_def Let_def)
  have lv: "set (live h') = insert ?x (set (live h))" using set_live_add [OF inv, of w "Some (IdleCheck i)"] by (simp add: t(2))
  have hp: "cancelled h' = cancelled h" "set (heap h') = insert ?x (set (heap h))"
    by (simp_all add: t(2) timer_add_def Let_def set_heap_push)
  have "\<exists>j d. e_cb y = Some (IdleCheck j) \<and> (g(i \<mapsto> c)) j = Some d \<and> idle_timer d = e_id y" if y: "y \<in> set (live h)" for y
  proof -
    obtain j d where "e_cb y = Some (IdleCheck j)" "g j = Some d" "idle_timer d = e_id y" by (rule covered_timer [OF cov y])
    with i show ?thesis by (cases "j = i") auto
  qed
  with cov c t(1) show ?thesis unfolding covered_def lv hp by (auto split: if_splits)
qed

lemma covered_without:
  assumes "covered g h" "g i = None" "\<not> 0 < idle_timeout_s c" "idle_timer c = 0"
  shows "covered (g(i \<mapsto> c)) h"
proof -
  have "\<exists>j d. e_cb y = Some (IdleCheck j) \<and> (g(i \<mapsto> c)) j = Some d \<and> idle_timer d = e_id y" if y: "y \<in> set (live h)" for y
  proof -
    obtain j d where "e_cb y = Some (IdleCheck j)" "g j = Some d" "idle_timer d = e_id y" by (rule covered_timer [OF assms(1) y])
    with assms(2) show ?thesis by (cases "j = i") auto
  qed
  with assms show ?thesis by (simp add: covered_def)
qed

lemma covered_kept:
  assumes "covered f (timers (loop e))" "timer_inv (timers (loop e))" "f i = Some c" "\<not> is_closed c" "timer_kept c e (c', e')"
  shows "covered (f(i := if is_closed c' then None else Some c')) (timers (loop e'))"
  using covered_close [OF assms(1-3)] covered_same [OF assms(1,3), of c'] assms(4,5) by (simp add: timer_kept_def)

lemma covered_arm:
  assumes "covered g (timers (loop e))" "timer_inv (timers (loop e))" "g i = None"
    and "oid c = i" "\<not> is_closed c" "shared c" "0 < idle_timeout_s c \<or> idle_timer c = 0" "armIdleTimer c e = (c', e')"
  shows "covered (g(i \<mapsto> c')) (timers (loop e'))"
proof (cases "0 < idle_timeout_s c")
  case True
  obtain tid k h where a: "addAfter (idle_timeout_s c * 1000) (Some (IdleCheck i)) (clk (sys e)) (timers (loop e)) = (tid, k, h)"
    by (metis prod_cases3)
  then obtain w where w: "timer_add w (Some (IdleCheck i)) (timers (loop e)) = (tid, h)"
    by (auto simp: addAfter_def Let_def split: prod.splits)
  have "c' = c\<lparr>idle_timer := tid\<rparr>" "timers (loop e') = h" using True a assms(4-8) by (auto simp: armIdleTimer_def)
  with covered_add [OF assms(1-3) w, of c'] True show ?thesis by simp
next
  case False
  with assms(8) have "c' = c" "e' = e" by (auto simp: armIdleTimer_def)
  with covered_without [OF assms(1,3) False] assms(7) False show ?thesis by simp
qed

lemma covered_idle:
  assumes "covered g (timers (loop e))" "timer_inv (timers (loop e))" "g i = None"
    and "oid c = i" "\<not> is_closed c" "shared c" "0 < idle_timeout_s c" "idleCheck c e = (c', e')"
  shows "covered (g(i := if is_closed c' then None else Some c')) (timers (loop e'))"
proof -
  obtain t e1 where n: "env_now e = (t, e1)" by fastforce
  have l: "loop e1 = loop e" using env_now_facts [OF n] by simp
  show ?thesis
  proof (cases "idle_timeout_s c * 1000000000 \<le> t - last_activity c")
    case True
    let ?c = "c\<lparr>idle_timer := 0\<rparr>" and ?e = "bump (timeouts_closed_update (\<lambda>n. n + 1)) e1"
    have cl: "conn_close ?c ?e = (c', e')" using True n assms(8) by (simp add: idleCheck_def)
    then have "is_closed c'" using assms(5) by (auto simp: conn_close_def Let_def)
    moreover have "timers (loop e') = timers (loop e)"
      using kept_close [of ?c ?e] cl assms(5) \<open>is_closed c'\<close> l by (simp add: timer_kept_def bump_def cancel_def)
    ultimately show ?thesis using assms(1,3) by (simp add: fun_upd_idem)
  next
    case False
    then have arm: "armIdleTimer c e1 = (c', e')" using n assms(8) by (simp add: idleCheck_def)
    then have "\<not> is_closed c'" using assms(5) by (auto simp: armIdleTimer_def split: if_splits prod.splits)
    with covered_arm [of g e1 i c, OF _ _ assms(3-6) _ arm] assms(1,2,7) l show ?thesis by simp
  qed
qed

text \<open>
  The correspondence in numbers: the heap holds one entry that is not cancelled for each connection with a
  timeout, and one for each cancellation that has not come up yet.
\<close>

lemma covered_count:
  assumes cov: "covered f h" and inv: "timer_inv h"
  shows "bij_betw (\<lambda>x. case e_cb x of Some (IdleCheck i) \<Rightarrow> i | None \<Rightarrow> 0) (set (live h)) {i. \<exists>c. f i = Some c \<and> 0 < idle_timeout_s c}"
    and "timer_size h = card {i. \<exists>c. f i = Some c \<and> 0 < idle_timeout_s c} + card (cancelled h)"
proof -
  let ?own = "\<lambda>x. case e_cb x of Some (IdleCheck i) \<Rightarrow> i | None \<Rightarrow> 0" and ?C = "{i. \<exists>c. f i = Some c \<and> 0 < idle_timeout_s c}"
  have own: "e_cb x = Some (IdleCheck (?own x)) \<and> (\<exists>c. f (?own x) = Some c \<and> idle_timer c = e_id x \<and> 0 < idle_timeout_s c)"
    if x: "x \<in> set (live h)" for x
  proof -
    obtain i c where "e_cb x = Some (IdleCheck i)" "f i = Some c" "idle_timer c = e_id x" by (rule covered_timer [OF cov x])
    with covered_timeout [OF cov] live_id_pos [OF inv x] show ?thesis by auto
  qed
  have "inj_on ?own (set (live h))"
  proof (rule inj_onI)
    fix x y assume x: "x \<in> set (live h)" and y: "y \<in> set (live h)" and eq: "?own x = ?own y"
    have "e_id x = e_id y" using own [OF x] own [OF y] unfolding eq by auto
    with live_unique [OF inv x y] show "x = y" by simp
  qed
  moreover have "?own ` set (live h) = ?C"
  proof
    show "?own ` set (live h) \<subseteq> ?C" using own by blast
    show "?C \<subseteq> ?own ` set (live h)"
    proof
      fix i assume "i \<in> ?C"
      then obtain c where "f i = Some c" "0 < idle_timeout_s c" by blast
      with covered_conn [OF cov] obtain x where "x \<in> set (live h)" "e_cb x = Some (IdleCheck i)" by fastforce
      then show "i \<in> ?own ` set (live h)" by (intro image_eqI [of _ _ x]) simp_all
    qed
  qed
  ultimately show b: "bij_betw ?own (set (live h)) ?C" by (simp add: bij_betw_def)
  have d: "distinct (map e_id (heap h))" using inv by (simp add: timer_inv_def)
  then have dl: "distinct (live h)" using distinct_filter [of "heap h"] by (simp add: live_def distinct_map)
  have "e_id ` set (filter (\<lambda>x. e_id x \<in> cancelled h) (heap h)) = cancelled h" using cov by (auto simp: covered_def)
  moreover have "distinct (map e_id (filter (\<lambda>x. e_id x \<in> cancelled h) (heap h)))" by (rule distinct_map_filter [OF d])
  ultimately have "length (filter (\<lambda>x. e_id x \<in> cancelled h) (heap h)) = card (cancelled h)"
    using distinct_card [of "map e_id (filter (\<lambda>x. e_id x \<in> cancelled h) (heap h))"] by simp
  with sum_length_filter_compl [of "\<lambda>x. e_id x \<in> cancelled h" "heap h"] bij_betw_same_card [OF b] distinct_card [OF dl]
  show "timer_size h = card ?C + card (cancelled h)" by (simp add: timer_size_def live_def)
qed

end
