(* ===== verification/Event_Loop.thy ===== *)
theory Event_Loop
  imports Idle_Timers
begin

text \<open>
  The event loop, \<open>include/ws/event_loop.h\<close> and \<open>src/event_loop.cpp\<close>. The connection objects live in a
  store; an object exists as long as some \<open>shared_ptr\<close> refers to it, that is while the loop's table has it
  or the code that handles one of its events runs, so it is released when that code returns and the
  table no longer has it. A weak pointer can be locked exactly while the object is in the store. The
  store is a list, an object's number its position: numbers are never used twice, as the control
  blocks that weak pointers hold on to are not. The acceptor callback, with the part of the server's
  state that it works on, and the effect of a queued task are arguments. An iteration of \<open>loop\<close> returns
  an option because \<open>TimerHeap::expire\<close> does; in the locale \<open>loop_client\<close> it is shown to return always.
\<close>

unbundle bit_operations_syntax

section \<open>Definitions\<close>

type_synonym objs = "Connection option list"
type_synonym 'task lstate = "objs \<times> 'task env"

definition obj :: "objs \<Rightarrow> nat \<Rightarrow> Connection option" where
  "obj objs i = (if i < length objs then objs ! i else None)"

definition EventLoop_new :: "int \<Rightarrow> int \<Rightarrow> nat list \<Rightarrow> 'task EventLoop" where
  "EventLoop_new ep wfd tie_order =
     \<lparr>wakeup_fd = wfd, acceptor_fd = - 1, has_acceptor = False, pending_timers = 0,
      poller = snd (Epoller_add wfd EPOLLIN (Epoller_new ep 1024)),
      timers = TimerHeap_new tie_order, quit_flag = False, looping = False, pending = [], calling_pending = False,
      connections = Map.empty\<rparr>"

definition setAcceptor :: "int \<Rightarrow> 'task EventLoop \<Rightarrow> 'task EventLoop" where
  "setAcceptor listen_fd l =
     l\<lparr>acceptor_fd := listen_fd, has_acceptor := True, poller := snd (Epoller_add listen_fd EPOLLIN (poller l))\<rparr>"

definition wakeup :: "'task env \<Rightarrow> 'task env" where
  "wakeup e = e\<lparr>sys := (sys e)\<lparr>eventfd := eventfd_write 1 (eventfd (sys e))\<rparr>\<rparr>"

definition quit :: "bool \<Rightarrow> 'task env \<Rightarrow> 'task env" where
  "quit isInLoopThread e =
     (let e = e\<lparr>loop := (loop e)\<lparr>quit_flag := True\<rparr>\<rparr> in if \<not> isInLoopThread then wakeup e else e)"

definition queueInLoop :: "bool \<Rightarrow> 'task \<Rightarrow> 'task env \<Rightarrow> 'task env" where
  "queueInLoop isInLoopThread cb e =
     (let e = e\<lparr>loop := (loop e)\<lparr>pending := pending (loop e) @ [cb]\<rparr>\<rparr>
      in if \<not> isInLoopThread \<or> calling_pending (loop e) then wakeup e else e)"

definition runInLoop :: "('task \<Rightarrow> 'task lstate \<Rightarrow> 'task lstate) \<Rightarrow> bool \<Rightarrow> 'task \<Rightarrow> 'task lstate \<Rightarrow> 'task lstate" where
  "runInLoop run isInLoopThread cb s =
     (if isInLoopThread \<and> looping (loop (snd s)) then run cb s
      else (fst s, queueInLoop isInLoopThread cb (snd s)))"

text \<open>\<open>read\<close> until it fails: the first read clears the counter, the second fails.\<close>

function handleWakeup :: "'task env \<Rightarrow> 'task env" where
  "handleWakeup e =
     (case eventfd_read (eventfd (sys e)) of (r, n) \<Rightarrow>
        let e = e\<lparr>sys := (sys e)\<lparr>eventfd := n\<rparr>\<rparr>
        in case r of Some v \<Rightarrow> handleWakeup e | None \<Rightarrow> e)"
  by pat_completeness auto
termination
  by (relation "measure (\<lambda>e. if eventfd (sys e) = 0 then 0 else 1)") (auto simp: eventfd_read_def split: if_splits)

declare handleWakeup.simps [simp del]

text \<open>The end of the scope that holds a \<open>shared_ptr\<close> to object \<open>i\<close>, found under \<open>fd\<close>.\<close>

definition release :: "int \<Rightarrow> nat \<Rightarrow> Connection \<Rightarrow> objs \<Rightarrow> 'task env \<Rightarrow> 'task lstate" where
  "release fd i c objs e =
     (if connections (loop e) fd = Some i then (objs[i := Some c], e)
      else (objs[i := None], snd (Connection_destroy c e)))"

definition connEvent :: "'task handler \<Rightarrow> u32 \<Rightarrow> Connection \<Rightarrow> 'task env \<Rightarrow> Connection \<times> 'task env" where
  "connEvent h ev c e =
     (if ev AND (EPOLLHUP OR EPOLLERR) \<noteq> 0 then handleError c e
      else
        let (c, e) = (if ev AND (EPOLLIN OR EPOLLRDHUP) \<noteq> 0 then handleRead h c e else (c, e))
        in if 0 \<le> c_fd c \<and> ev AND EPOLLOUT \<noteq> 0 then handleWrite c e else (c, e))"

definition dispatch ::
  "'task handler \<Rightarrow> ('x \<times> 'task lstate \<Rightarrow> 'x \<times> 'task lstate) \<Rightarrow> int \<times> u32 \<Rightarrow> 'x \<times> 'task lstate \<Rightarrow> 'x \<times> 'task lstate" where
  "dispatch h acceptor fe xs =
     (case (fe, xs) of ((fd, ev), (x, (objs, e))) \<Rightarrow>
        if fd = wakeup_fd (loop e) then (x, (objs, handleWakeup e))
        else if fd = acceptor_fd (loop e) then (if has_acceptor (loop e) then acceptor xs else xs)
        else case findConnection fd (loop e) of
            None \<Rightarrow> xs
          | Some i \<Rightarrow>
              (case obj objs i of
                 None \<Rightarrow> xs
               | Some c \<Rightarrow> (case connEvent h ev c e of (c, e) \<Rightarrow> (x, release fd i c objs e))))"

text \<open>The closure of a timer: \<open>weak.lock()\<close>, then the idle check.\<close>

definition fireTimer :: "timer_cb \<Rightarrow> 'task lstate \<Rightarrow> timer_cb TimerHeap \<Rightarrow> 'task lstate \<times> timer_cb TimerHeap" where
  "fireTimer cb s hp =
     (case (cb, s) of (IdleCheck i, (objs, e)) \<Rightarrow>
        let e = e\<lparr>loop := (loop e)\<lparr>timers := hp\<rparr>\<rparr>
        in case obj objs i of
             None \<Rightarrow> ((objs, e), hp)
           | Some c \<Rightarrow>
               (case idleCheck c e of (c', e') \<Rightarrow>
                  case release (c_fd c) i c' objs e' of (objs', e'') \<Rightarrow> ((objs', e''), timers (loop e''))))"

definition expireTimers :: "'task lstate \<Rightarrow> 'task lstate option" where
  "expireTimers s =
     (case s of (objs, e) \<Rightarrow>
        (case env_now e of (t, e) \<Rightarrow>
           (case expire fireTimer t (objs, e) (timers (loop e)) of
              None \<Rightarrow> None
            | Some (n, (objs, e), hp) \<Rightarrow> Some (objs, e\<lparr>loop := (loop e)\<lparr>timers := hp\<rparr>\<rparr>))))"

definition doPendingFunctors :: "('task \<Rightarrow> 'task lstate \<Rightarrow> 'task lstate) \<Rightarrow> 'task lstate \<Rightarrow> 'task lstate" where
  "doPendingFunctors run s =
     (case s of (objs, e) \<Rightarrow>
        let todo = pending (loop e);
            s1 = (objs, e\<lparr>loop := (loop e)\<lparr>calling_pending := True, pending := []\<rparr>\<rparr>);
            (objs2, e2) = fold run todo s1
        in (objs2, e2\<lparr>loop := (loop e2)\<lparr>calling_pending := False\<rparr>\<rparr>))"

text \<open>One turn of \<open>while (!quit_)\<close>; the first component is the timeout handed to \<open>epoll_wait\<close>.\<close>

definition iteration ::
  "'task handler \<Rightarrow> ('x \<times> 'task lstate \<Rightarrow> 'x \<times> 'task lstate) \<Rightarrow> ('task \<Rightarrow> 'task lstate \<Rightarrow> 'task lstate)
   \<Rightarrow> 'x \<times> 'task lstate \<Rightarrow> (int \<times> 'x \<times> 'task lstate) option" where
  "iteration h acceptor run xs =
     (case xs of (x, (objs, e)) \<Rightarrow>
        (case env_now e of (t, e) \<Rightarrow>
           let timeout = nextTimeoutMs t (timers (loop e));
               timeout = (if timeout < 0 then 200 else timeout)
           in case Epoller_wait (eps (sys e)) (poller (loop e)) of (r, p, rest) \<Rightarrow>
             let e = e\<lparr>loop := (loop e)\<lparr>poller := p\<rparr>, sys := (sys e)\<lparr>eps := rest\<rparr>\<rparr>
             in case r of
                  Inl er \<Rightarrow> Some (timeout, x, (objs, e))
                | Inr n \<Rightarrow>
                    (case fold (dispatch h acceptor) (map (\<lambda>i. (fdAt i p, eventsAt i p)) [0..<nat n]) (x, (objs, e)) of
                       (x, s) \<Rightarrow>
                         (case expireTimers s of
                            None \<Rightarrow> None
                          | Some (objs, e) \<Rightarrow>
                              let e = e\<lparr>loop := (loop e)\<lparr>pending_timers := timer_size (timers (loop e))\<rparr>\<rparr>
                              in Some (timeout, x, doPendingFunctors run (objs, e))))))"

text \<open>At most \<open>k\<close> turns of the loop.\<close>

fun loop_turns ::
  "'task handler \<Rightarrow> ('x \<times> 'task lstate \<Rightarrow> 'x \<times> 'task lstate) \<Rightarrow> ('task \<Rightarrow> 'task lstate \<Rightarrow> 'task lstate)
   \<Rightarrow> nat \<Rightarrow> 'x \<times> 'task lstate \<Rightarrow> ('x \<times> 'task lstate) option" where
  "loop_turns h acceptor run 0 xs = Some xs"
| "loop_turns h acceptor run (Suc k) xs =
     (if quit_flag (loop (snd (snd xs))) then Some xs
      else case iteration h acceptor run xs of None \<Rightarrow> None | Some (t, xs) \<Rightarrow> loop_turns h acceptor run k xs)"

definition loop_main ::
  "'task handler \<Rightarrow> ('x \<times> 'task lstate \<Rightarrow> 'x \<times> 'task lstate) \<Rightarrow> ('task \<Rightarrow> 'task lstate \<Rightarrow> 'task lstate)
   \<Rightarrow> nat \<Rightarrow> 'x \<times> 'task lstate \<Rightarrow> ('x \<times> 'task lstate) option" where
  "loop_main h acceptor run k xs =
     (case xs of (x, (objs, e)) \<Rightarrow>
        map_option (\<lambda>(x, (objs, e)). (x, (objs, if quit_flag (loop e) then e\<lparr>loop := (loop e)\<lparr>looping := False\<rparr>\<rparr> else e)))
          (loop_turns h acceptor run k (x, (objs, e\<lparr>loop := (loop e)\<lparr>looping := True\<rparr>\<rparr>))))"

section \<open>The invariant of a loop\<close>

fun open_fds :: "objs \<Rightarrow> int list" where
  "open_fds [] = []"
| "open_fds (None # os) = open_fds os"
| "open_fds (Some c # os) = c_fd c # open_fds os"

lemma obj_update [simp]: "i < length objs \<Longrightarrow> obj (objs[i := v]) = (obj objs)(i := v)"
  by (auto simp: obj_def fun_eq_iff)

lemma obj_SomeD: "obj objs i = Some c \<Longrightarrow> i < length objs \<and> objs ! i = Some c"
  by (simp add: obj_def split: if_splits)

lemma obj_append: "obj (objs @ [v]) = (obj objs)(length objs := v)"
  by (auto simp: obj_def fun_eq_iff nth_append)

lemma obj_simps [simp]: "obj [] i = None" "obj (x # xs) 0 = x" "obj (x # xs) (Suc i) = obj xs i"
  by (simp_all add: obj_def)

lemma open_fds_append [simp]: "open_fds (xs @ ys) = open_fds xs @ open_fds ys"
  by (induction xs rule: open_fds.induct) simp_all

lemma set_open_fds: "set (open_fds objs) = {c_fd c |c i. obj objs i = Some c}"
proof (induction objs rule: rev_induct)
  case (snoc o' objs)
  have new: "obj objs (length objs) = None" by (simp add: obj_def)
  show ?case
  proof (cases o')
    case None
    with snoc new show ?thesis by (auto simp: obj_append) (metis option.distinct(1))
  next
    case (Some c)
    with snoc new show ?thesis by (auto simp: obj_append split: if_splits) (metis option.distinct(1))
  qed
qed simp

lemma open_fds_remove:
  "obj objs i = Some c \<Longrightarrow> mset (open_fds objs) = add_mset (c_fd c) (mset (open_fds (objs[i := None])))"
proof (induction objs arbitrary: i rule: open_fds.induct)
  case (2 os)
  then show ?case by (cases i) auto
next
  case (3 d os)
  then show ?case by (cases i) auto
qed simp

lemma open_fds_replace: "obj objs i = Some c \<Longrightarrow> c_fd c' = c_fd c \<Longrightarrow> open_fds (objs[i := Some c']) = open_fds objs"
proof (induction objs arbitrary: i rule: open_fds.induct)
  case (2 os)
  then show ?case by (cases i) auto
next
  case (3 d os)
  then show ?case by (cases i) auto
qed simp

text \<open>
  The table and the object store name the same connections, each open, consistent with the loop and
  under its own descriptor; besides them only the eventfd and the listening socket are registered.
\<close>

definition loop_inv :: "'task lstate \<Rightarrow> bool" where
  "loop_inv s \<longleftrightarrow> (case s of (objs, e) \<Rightarrow> loop_ok e \<and>
     (\<forall>fd i. connections (loop e) fd = Some i \<longrightarrow> (\<exists>c. obj objs i = Some c \<and> c_fd c = fd)) \<and>
     (\<forall>i c. obj objs i = Some c \<longrightarrow> connections (loop e) (c_fd c) = Some i \<and> conn_ok c e \<and>
        oid c = i \<and> \<not> is_closed c \<and> shared c) \<and>
     (\<forall>fd. 0 \<le> fd \<and> interest (poller (loop e)) fd \<noteq> None \<longrightarrow>
        fd = wakeup_fd (loop e) \<or> fd = acceptor_fd (loop e) \<or> connections (loop e) fd \<noteq> None))"

lemma loop_invD:
  assumes "loop_inv (objs, e)" "obj objs i = Some c"
  shows "conn_ok c e" "connections (loop e) (c_fd c) = Some i" "oid c = i" "\<not> is_closed c" "shared c" "0 \<le> c_fd c"
proof -
  show 1: "conn_ok c e" "connections (loop e) (c_fd c) = Some i" "oid c = i" "\<not> is_closed c" "shared c"
    using assms unfolding loop_inv_def by auto
  then show "0 \<le> c_fd c" by (simp add: conn_ok_def)
qed

lemma loop_inv_table:
  assumes "loop_inv (objs, e)"
  shows "connections (loop e) fd \<noteq> None \<longleftrightarrow> fd \<in> set (open_fds objs)"
proof
  assume "connections (loop e) fd \<noteq> None"
  then obtain i where "connections (loop e) fd = Some i" by auto
  with assms obtain c where "obj objs i = Some c \<and> c_fd c = fd" unfolding loop_inv_def prod.case by blast
  then show "fd \<in> set (open_fds objs)" unfolding set_open_fds by blast
next
  assume "fd \<in> set (open_fds objs)"
  then obtain c i where "obj objs i = Some c" "c_fd c = fd" unfolding set_open_fds by blast
  with loop_invD(2) [OF assms] show "connections (loop e) fd \<noteq> None" by auto
qed

text \<open>
  A step inside one loop: its connections can only go away, each of them counted and its descriptor
  closed, and what the server shares with the loop stays as it is. \<open>loop_move\<close> is such a step while the
  timers are being expired, when the timer that has just come up is out of the heap; \<open>loop_step\<close> also keeps
  the correspondence of timers and connections.
\<close>

definition loop_same :: "'task env \<Rightarrow> 'task env \<Rightarrow> bool" where
  "loop_same e e' \<longleftrightarrow>
     wakeup_fd (loop e') = wakeup_fd (loop e) \<and> acceptor_fd (loop e') = acceptor_fd (loop e) \<and>
     has_acceptor (loop e') = has_acceptor (loop e) \<and> epfd (poller (loop e')) = epfd (poller (loop e)) \<and>
     quit_flag (loop e') = quit_flag (loop e) \<and> looping (loop e') = looping (loop e) \<and>
     pending (loop e') = pending (loop e) \<and>
     opened (counters e') = opened (counters e) \<and> accepted (counters e') = accepted (counters e)"

lemma loop_frame_same: "loop_frame e e' \<Longrightarrow> loop_same e e'"
  by (simp add: loop_frame_def loop_same_def)

definition idle_cover :: "'task lstate \<Rightarrow> bool" where
  "idle_cover s \<longleftrightarrow> covered (obj (fst s)) (timers (loop (snd s)))"

definition loop_move :: "'task lstate \<Rightarrow> 'task lstate \<Rightarrow> bool" where
  "loop_move s s' \<longleftrightarrow> (case (s, s') of ((objs, e), (objs', e')) \<Rightarrow>
     loop_inv s' \<and> loop_same e e' \<and>
     mset (closed_fds (sys e')) + mset (open_fds objs') = mset (closed_fds (sys e)) + mset (open_fds objs) \<and>
     mset (open_fds objs') \<subseteq># mset (open_fds objs) \<and>
     closed (counters e') + of_nat (length (open_fds objs')) = closed (counters e) + of_nat (length (open_fds objs)))"

definition loop_step :: "'task lstate \<Rightarrow> 'task lstate \<Rightarrow> bool" where
  "loop_step s s' \<longleftrightarrow> loop_move s s' \<and> (idle_cover s \<longrightarrow> idle_cover s')"

lemma loop_move_refl [simp]: "loop_inv s \<Longrightarrow> loop_move s s"
  by (cases s) (simp add: loop_move_def loop_same_def)

lemma loop_move_trans: "loop_move s s1 \<Longrightarrow> loop_move s1 s2 \<Longrightarrow> loop_move s s2"
  by (cases s; cases s1; cases s2) (auto simp: loop_move_def loop_same_def intro: subset_mset.order_trans)

lemma loop_move_inv: "loop_move s s' \<Longrightarrow> loop_inv s'"
  by (cases s; cases s') (simp add: loop_move_def)

lemma loop_step_refl [simp]: "loop_inv s \<Longrightarrow> loop_step s s"
  by (simp add: loop_step_def)

lemma loop_step_trans: "loop_step s s1 \<Longrightarrow> loop_step s1 s2 \<Longrightarrow> loop_step s s2"
  by (auto simp: loop_step_def intro: loop_move_trans)

lemma loop_step_inv: "loop_step s s' \<Longrightarrow> loop_inv s'"
  unfolding loop_step_def by (blast intro: loop_move_inv)

text \<open>
  The work of one descriptor: its slot of the object store and its row of the table change together, every other
  descriptor keeps its row and its interest.
\<close>

lemma loop_inv_one:
  assumes inv: "loop_inv (objs, e)"
    and objs': "\<And>j. obj objs' j = (if j = i then x else obj objs j)"
    and slot: "connections (loop e) fd = Some i \<or> connections (loop e) fd = None \<and> obj objs i = None"
    and row: "case x of None \<Rightarrow> connections (loop e') fd = None \<and> interest (poller (loop e')) fd = None
      | Some c \<Rightarrow> connections (loop e') fd = Some i \<and> conn_ok c e' \<and> c_fd c = fd \<and> oid c = i \<and> \<not> is_closed c \<and> shared c"
    and rows: "\<And>f j. connections (loop e') f = Some j \<Longrightarrow> f \<noteq> fd \<Longrightarrow> connections (loop e) f = Some j"
    and others: "\<And>f. 0 \<le> f \<Longrightarrow> f \<noteq> fd \<Longrightarrow> connections (loop e') f = connections (loop e) f \<and>
      interest (poller (loop e')) f = interest (poller (loop e)) f"
    and same: "loop_ok e'" "next_id (timers (loop e)) \<le> next_id (timers (loop e'))"
      "wakeup_fd (loop e') = wakeup_fd (loop e)" "acceptor_fd (loop e') = acceptor_fd (loop e)"
  shows "loop_inv (objs', e')"
proof -
  have other: "conn_ok d e' \<and> connections (loop e') (c_fd d) = Some j" if "obj objs j = Some d" "j \<noteq> i" for j d
  proof -
    note D = loop_invD [OF inv that(1)]
    have "c_fd d \<noteq> fd" using D(2) slot that(2) by auto
    with D others [of "c_fd d"] same(1,2) show ?thesis by (auto simp: conn_ok_def)
  qed
  have old: "\<exists>d. obj objs j = Some d \<and> c_fd d = f" if "connections (loop e) f = Some j" for f j
    using inv that unfolding loop_inv_def by auto
  have tab: "\<exists>d. obj objs' j = Some d \<and> c_fd d = f" if r: "connections (loop e') f = Some j" for f j
  proof (cases "f = fd")
    case True
    with r row show ?thesis by (auto simp: objs' split: option.splits)
  next
    case False
    then obtain d where d: "obj objs j = Some d" "c_fd d = f" using old [OF rows [OF r]] by blast
    moreover have "j \<noteq> i" using d False slot old [of fd i] by auto
    ultimately show ?thesis by (simp add: objs')
  qed
  have reg: "f = wakeup_fd (loop e') \<or> f = acceptor_fd (loop e') \<or> connections (loop e') f \<noteq> None"
    if "0 \<le> f" "interest (poller (loop e')) f \<noteq> None" for f
    using that inv row others [of f] same(3,4) by (cases "f = fd") (auto simp: loop_inv_def split: option.splits)
  have new: "connections (loop e') (c_fd d) = Some j \<and> conn_ok d e' \<and> oid d = j \<and> \<not> is_closed d \<and> shared d"
    if "obj objs' j = Some d" for j d
    using that row other loop_invD(3-5) [OF inv] by (auto simp: objs' split: if_splits)
  show ?thesis unfolding loop_inv_def prod.case using same(1) tab new reg by blast
qed

lemma loop_inv_timers: "loop_inv (objs, e) \<Longrightarrow> timer_inv (timers (loop e))"
  by (simp add: loop_inv_def loop_ok_def)

lemma release_eq:
  assumes inv: "loop_inv (objs, e)" and i: "obj objs i = Some c" and st: "conn_step c e (c', e')"
  shows "release (c_fd c) i c' objs e' = (objs[i := if is_closed c' then None else Some c'], e')"
proof (cases "is_closed c'")
  case True
  then have "c_fd c' = - 1" "connections (loop e') (c_fd c) = None"
    using st loop_invD(4) [OF inv i] by (auto simp: conn_step_def conn_ok_def)
  with True show ?thesis by (simp add: release_def Connection_destroy_def)
next
  case False
  then have "connections (loop e') (c_fd c) = Some i"
    using st loop_invD(3) [OF inv i] by (auto simp: conn_step_def conn_ok_def)
  with False show ?thesis by (simp add: release_def)
qed

lemma release_move:
  assumes inv: "loop_inv (objs, e)" and i: "obj objs i = Some c" and st: "conn_step c e (c', e')"
  shows "loop_move (objs, e) (release (c_fd c) i c' objs e')"
proof -
  note D = loop_invD [OF inv i] and il = conjunct1 [OF obj_SomeD [OF i]]
  have os: "others_same (c_fd c) e e'" "conn_ok c' e'" "oid c' = oid c" "shared c' = shared c" "loop_frame e e'"
      "next_id (timers (loop e)) \<le> next_id (timers (loop e'))" "loop_ok e'"
    using st by (auto simp: conn_step_def conn_ok_def)
  have rows: "connections (loop e) f = Some j" if "connections (loop e') f = Some j" for f j
    using st that by (auto simp: conn_step_def map_le_def dom_def)
  have one: "loop_inv (objs[i := x], e')"
    if "case x of None \<Rightarrow> connections (loop e') (c_fd c) = None \<and> interest (poller (loop e')) (c_fd c) = None
      | Some d \<Rightarrow> connections (loop e') (c_fd c) = Some i \<and> conn_ok d e' \<and> c_fd d = c_fd c \<and> oid d = i \<and> \<not> is_closed d \<and> shared d" for x
  proof (rule loop_inv_one [OF inv _ disjI1 [OF D(2)] that])
    show "obj (objs[i := x]) j = (if j = i then x else obj objs j)" for j using il by simp
    show "connections (loop e) f = Some j" if "connections (loop e') f = Some j" for f j by (rule rows [OF that])
  qed (use os(1,5-7) in \<open>simp_all add: others_same_def loop_frame_def\<close>)
  show ?thesis
  proof (cases "is_closed c'")
    case True
    then have fd: "connections (loop e') (c_fd c) = None" "interest (poller (loop e')) (c_fd c) = None"
        "closed (counters e') = closed (counters e) + 1" "closed_fds (sys e') = closed_fds (sys e) @ [c_fd c]"
      using st D(4) by (auto simp: conn_step_def)
    have "length (open_fds objs) = Suc (length (open_fds (objs[i := None])))"
      using arg_cong [OF open_fds_remove [OF i], of size] by simp
    with release_eq [OF inv i st] True one [of None] loop_frame_same [OF os(5)] open_fds_remove [OF i] fd show ?thesis
      by (simp add: loop_move_def)
  next
    case False
    then have fd: "c_fd c' = c_fd c" "connections (loop e') (c_fd c) = Some i" "closed (counters e') = closed (counters e)"
        "closed_fds (sys e') = closed_fds (sys e)"
      using st D(3) by (auto simp: conn_step_def conn_ok_def)
    have "loop_inv (objs[i := Some c'], e')" using one [of "Some c'"] fd os(2-4) D False by simp
    with release_eq [OF inv i st] False loop_frame_same [OF os(5)] open_fds_replace [OF i fd(1)] fd(3,4) show ?thesis
      by (simp add: loop_move_def)
  qed
qed

text \<open>An event of a connection keeps every connection's timer.\<close>

lemma release_step:
  assumes inv: "loop_inv (objs, e)" and i: "obj objs i = Some c" and st: "conn_step c e (c', e')" and tk: "timer_kept c e (c', e')"
  shows "loop_step (objs, e) (release (c_fd c) i c' objs e')"
proof -
  have "idle_cover (release (c_fd c) i c' objs e')" if "idle_cover (objs, e)"
    using covered_kept [OF that [unfolded idle_cover_def fst_conv snd_conv] loop_inv_timers [OF inv] i loop_invD(4) [OF inv i] tk]
      release_eq [OF inv i st] conjunct1 [OF obj_SomeD [OF i]] by (simp add: idle_cover_def)
  with release_move [OF inv i st] show ?thesis by (simp add: loop_step_def)
qed

lemma connEvent_step:
  assumes "conn_ok c e"
  shows "conn_step c e (connEvent h ev c e)"
proof (cases "ev AND (EPOLLHUP OR EPOLLERR) = 0")
  case True
  obtain c1 e1 where r: "(if ev AND (EPOLLIN OR EPOLLRDHUP) \<noteq> 0 then handleRead h c e else (c, e)) = (c1, e1)" by fastforce
  have s: "conn_step c e (c1, e1)"
    using r read_act.act_step [OF assms, of h] conn_step_refl [OF assms] by (auto split: if_splits)
  have "conn_step c e (handleWrite c1 e1)" by (rule write_act.act_after [OF assms s])
  with True r s show ?thesis by (simp add: connEvent_def)
next
  case False
  with error_act.act_step [OF assms] show ?thesis by (simp add: connEvent_def)
qed

lemma kept_event: "timer_kept c e (connEvent h ev c e)"
proof -
  obtain c1 e1 where r: "(if ev AND (EPOLLIN OR EPOLLRDHUP) \<noteq> 0 then handleRead h c e else (c, e)) = (c1, e1)" by fastforce
  have "timer_kept c e (c1, e1)" using r kept_read [of c e h] by (auto split: if_splits)
  with timer_kept_trans [OF this kept_write] kept_error [of c e] r show ?thesis by (simp add: connEvent_def)
qed

text \<open>Whatever such an operation does, the loop can let go of the connection afterwards.\<close>

context timed_action
begin

lemma act_in_loop:
  assumes "loop_inv (objs, e)" "obj objs i = Some c"
  shows "loop_step (objs, e) (case act c e of (c', e') \<Rightarrow> release (c_fd c) i c' objs e')"
proof -
  obtain c' e' where r: "act c e = (c', e')" by fastforce
  with act_both [OF loop_invD(1) [OF assms] r] release_step [OF assms] show ?thesis by simp
qed

end

interpretation event_timed: timed_action "connEvent h ev" for h ev
  by unfold_locales (rule connEvent_step, assumption, rule kept_event)

text \<open>Changes of the loop that concern no connection.\<close>

lemma loop_inv_cong:
  assumes "loop_inv (objs, e)" "connections (loop e') = connections (loop e)" "interest (poller (loop e')) = interest (poller (loop e))"
    "epfd (poller (loop e')) = epfd (poller (loop e))" "timer_inv (timers (loop e'))"
    "next_id (timers (loop e)) \<le> next_id (timers (loop e'))"
    "wakeup_fd (loop e') = wakeup_fd (loop e)" "acceptor_fd (loop e') = acceptor_fd (loop e)"
  shows "loop_inv (objs, e')"
proof -
  have "conn_ok c e'" if "conn_ok c e" for c
    using that assms by (auto simp: conn_ok_def loop_ok_def)
  with assms show ?thesis by (auto simp: loop_inv_def loop_ok_def)
qed

lemma loop_move_quiet:
  assumes inv: "loop_inv (objs, e)" and same: "loop_same e e'" and ct: "closed (counters e') = closed (counters e)"
    and fds: "closed_fds (sys e') = closed_fds (sys e)"
    and table: "connections (loop e') = connections (loop e)"
    and poll: "interest (poller (loop e')) = interest (poller (loop e))"
    and tm: "timer_inv (timers (loop e'))" "next_id (timers (loop e)) \<le> next_id (timers (loop e'))"
  shows "loop_move (objs, e) (objs, e')"
proof -
  have "loop_inv (objs, e')"
    by (rule loop_inv_cong [OF inv table poll _ tm]) (use same in \<open>simp_all add: loop_same_def\<close>)
  with same ct fds show ?thesis by (simp add: loop_move_def)
qed

lemma loop_step_quiet:
  assumes inv: "loop_inv (objs, e)" and "loop_same e e'" "closed (counters e') = closed (counters e)"
    and "closed_fds (sys e') = closed_fds (sys e)" "connections (loop e') = connections (loop e)"
    and "interest (poller (loop e')) = interest (poller (loop e))" and tm: "timers (loop e') = timers (loop e)"
  shows "loop_step (objs, e) (objs, e')"
  using loop_move_quiet [OF assms(1-6)] loop_inv_timers [OF inv] tm by (simp add: loop_step_def idle_cover_def)

lemma handleWakeup_eq: "handleWakeup e = e\<lparr>sys := (sys e)\<lparr>eventfd := 0\<rparr>\<rparr>"
proof (cases "eventfd (sys e) = 0")
  case True
  then have "e\<lparr>sys := (sys e)\<lparr>eventfd := 0\<rparr>\<rparr> = e"
    by (metis env.surjective env.update_convs(3) world.surjective world.update_convs(6))
  with True show ?thesis by (simp add: handleWakeup.simps [of e] eventfd_read_def)
next
  case False
  let ?e = "e\<lparr>sys := (sys e)\<lparr>eventfd := 0\<rparr>\<rparr>"
  have "handleWakeup e = handleWakeup ?e" using False by (simp add: handleWakeup.simps [of e] eventfd_read_def)
  also have "\<dots> = ?e" by (simp add: handleWakeup.simps [of ?e] eventfd_read_def)
  finally show ?thesis .
qed

lemma dispatch_step:
  assumes inv: "loop_inv (objs, e)"
    and noacc: "fd \<noteq> acceptor_fd (loop e) \<or> fd = wakeup_fd (loop e) \<or> \<not> has_acceptor (loop e)"
  shows "\<exists>s'. dispatch h acceptor (fd, ev) (x, (objs, e)) = (x, s') \<and> loop_step (objs, e) s'"
proof -
  have wk: "loop_step (objs, e) (objs, handleWakeup e)"
    unfolding handleWakeup_eq
    by (rule loop_step_quiet [OF inv]) (use loop_inv_timers [OF inv] in \<open>simp_all add: loop_same_def\<close>)
  have cn: "loop_step (objs, e) (case connEvent h ev c e of (c', e') \<Rightarrow> release fd i c' objs e')"
    if "connections (loop e) fd = Some i" "obj objs i = Some c" for i c
  proof -
    have "\<exists>d. obj objs i = Some d \<and> c_fd d = fd" using inv that(1) unfolding loop_inv_def prod.case by blast
    with that(2) have "c_fd c = fd" by simp
    with event_timed.act_in_loop [OF inv that(2), of h ev] show ?thesis by simp
  qed
  have "dispatch h acceptor (fd, ev) (x, (objs, e)) =
      (x, if fd = wakeup_fd (loop e) then (objs, handleWakeup e)
          else if fd = acceptor_fd (loop e) then (objs, e)
          else case connections (loop e) fd of None \<Rightarrow> (objs, e)
            | Some i \<Rightarrow> (case obj objs i of None \<Rightarrow> (objs, e)
                | Some c \<Rightarrow> (case connEvent h ev c e of (c', e') \<Rightarrow> release fd i c' objs e')))"
    using noacc by (auto simp: dispatch_def findConnection_def case_prod_beta split: option.split)
  moreover have "loop_step (objs, e) (case connections (loop e) fd of None \<Rightarrow> (objs, e)
      | Some i \<Rightarrow> (case obj objs i of None \<Rightarrow> (objs, e)
          | Some c \<Rightarrow> (case connEvent h ev c e of (c', e') \<Rightarrow> release fd i c' objs e')))"
    using cn loop_step_refl [OF inv] by (simp split: option.split)
  ultimately show ?thesis using wk loop_step_refl [OF inv] by simp
qed

text \<open>Timers: the heap that \<open>expire\<close> works on belongs to the loop of the state.\<close>

definition heap_in :: "'task lstate \<Rightarrow> timer_cb TimerHeap \<Rightarrow> 'task lstate" where
  "heap_in s hp = (fst s, (snd s)\<lparr>loop := (loop (snd s))\<lparr>timers := hp\<rparr>\<rparr>)"

lemma idleCheck_due:
  assumes "conn_ok c e" "t \<le> clk_now (clk (sys e))" "idleCheck c e = (c', e')"
  shows "due t (timers (loop e')) \<le> due t (timers (loop e))"
proof -
  obtain t1 e1 where n: "env_now e = (t1, e1)" by fastforce
  note f = env_now_facts [OF n]
  have can: "due t (cancel x hp) = due t hp" for x and hp :: "timer_cb TimerHeap" by (simp add: due_def cancel_def)
  show ?thesis
  proof (cases "idle_timeout_s c * 1000000000 \<le> t1 - last_activity c")
    case True
    with assms(3) n f can show ?thesis
      by (auto simp: idleCheck_def conn_close_def Let_def bump_def fd_close_def on_poller_def on_timers_def
          removeConnection_def split: if_splits)
  next
    case False
    have add: "due t hp' \<le> due t hp"
      if ad: "addAfter ms cb k hp = (tid, k', hp')" "0 < ms" "t \<le> clk_now k" for ms cb k hp tid k' and hp' :: "timer_cb TimerHeap"
    proof -
      obtain t0 where r: "clk_read k = (t0, k')" "timer_add (t0 + ms * ns_per_ms) cb hp = (tid, hp')"
        using ad(1) by (auto simp: addAfter_def Let_def split: prod.splits)
      then have "t0 = clk_now k" "hp' = snd (timer_add (t0 + ms * ns_per_ms) cb hp)"
        using clk_read_mono [OF r(1)] by auto
      with ad show ?thesis by (simp add: due_add)
    qed
    from False assms(3) n have "armIdleTimer c e1 = (c', e')" by (simp add: idleCheck_def)
    with add [of "idle_timeout_s c * 1000" "Some (IdleCheck (oid c))" "clk (sys e1)" "timers (loop e1)"] f assms(2)
    show ?thesis by (auto simp: armIdleTimer_def split: if_splits prod.splits)
  qed
qed

lemma fireTimer_step:
  assumes inv: "loop_inv (heap_in s hp)" and t: "t \<le> clk_now (clk (sys (snd s)))" and f: "fireTimer cb s hp = (s', hp')"
  shows "loop_move (heap_in s hp) (heap_in s' hp') \<and> t \<le> clk_now (clk (sys (snd s'))) \<and> due t hp' \<le> due t hp"
proof -
  obtain objs e where s: "s = (objs, e)" by (cases s)
  obtain i where cb: "cb = IdleCheck i" by (cases cb)
  let ?e = "e\<lparr>loop := (loop e)\<lparr>timers := hp\<rparr>\<rparr>"
  have hs: "heap_in s hp = (objs, ?e)" by (simp add: heap_in_def s)
  note inv' = inv [unfolded hs]
  show ?thesis
  proof (cases "obj objs i")
    case None
    then have "s' = (objs, ?e)" "hp' = hp" using f by (auto simp: fireTimer_def cb s)
    with inv' t hs show ?thesis by (simp add: heap_in_def s)
  next
    case (Some c)
    note ok = loop_invD(1) [OF inv' Some]
    obtain c1 e1 where ic: "idleCheck c ?e = (c1, e1)" by fastforce
    have st: "conn_step c ?e (c1, e1)" using idle_act.act_step [OF ok] ic by simp
    obtain objs2 e2 where r: "release (c_fd c) i c1 objs e1 = (objs2, e2)" by fastforce
    have res: "s' = (objs2, e2)" "hp' = timers (loop e2)"
      using f Some ic r by (auto simp: fireTimer_def cb s)
    have l2: "loop_move (objs, ?e) (objs2, e2)" using release_move [OF inv' Some st] r by simp
    have e2: "timers (loop e2) = timers (loop e1)" "clk (sys e2) = clk (sys e1)"
      using r by (auto simp: release_def Connection_destroy_def fd_close_def on_poller_def split: if_splits)
    have "t \<le> clk_now (clk (sys e1))" using st t by (simp add: conn_step_def s)
    moreover have "due t (timers (loop e1)) \<le> due t hp"
      using idleCheck_due [OF ok _ ic, of t] t by (simp add: s)
    moreover have "heap_in s' hp' = (objs2, e2)" unfolding res heap_in_def by simp
    ultimately show ?thesis using l2 e2 res hs by simp
  qed
qed

text \<open>The timer that comes up covers its connection again, or the connection is gone.\<close>

lemma fireTimer_cover:
  assumes inv: "loop_inv (heap_in s hp)" and cov: "covered ((obj (fst s))(i := None)) hp"
    and i: "obj (fst s) i = Some c" "0 < idle_timeout_s c" and f: "fireTimer (IdleCheck i) s hp = (s', hp')"
  shows "covered (obj (fst s')) hp'"
proof -
  obtain objs e where s: "s = (objs, e)" by (cases s)
  let ?e = "e\<lparr>loop := (loop e)\<lparr>timers := hp\<rparr>\<rparr>"
  have inv': "loop_inv (objs, ?e)" using inv by (simp add: heap_in_def s)
  have oi: "obj objs i = Some c" using i(1) s by simp
  note D = loop_invD [OF inv' oi]
  obtain c1 e1 where ic: "idleCheck c ?e = (c1, e1)" by fastforce
  have st: "conn_step c ?e (c1, e1)" using idle_act.act_step [OF D(1)] ic by simp
  have r: "s' = (objs[i := if is_closed c1 then None else Some c1], e1)" "hp' = timers (loop e1)"
    using f oi ic release_eq [OF inv' oi st] by (auto simp: fireTimer_def s)
  have "covered (((obj objs)(i := None))(i := if is_closed c1 then None else Some c1)) (timers (loop e1))"
    by (rule covered_idle [OF _ _ _ D(3,4,5) i(2) ic]) (use cov s loop_inv_timers [OF inv'] in simp_all)
  with r conjunct1 [OF obj_SomeD [OF oi]] show ?thesis by simp
qed

lemma heap_in_move:
  assumes "loop_move s (heap_in s' hp)" "timer_inv hp'" "next_id hp' = next_id hp"
  shows "loop_move s (heap_in s' hp')"
proof -
  obtain o' e' where s': "s' = (o', e')" by (cases s')
  let ?e = "\<lambda>hp. e'\<lparr>loop := (loop e')\<lparr>timers := hp\<rparr>\<rparr>"
  have "loop_move (o', ?e hp) (o', ?e hp')"
    by (rule loop_move_quiet) (use loop_move_inv [OF assms(1)] assms(2,3) in \<open>simp_all add: s' heap_in_def loop_same_def\<close>)
  with loop_move_trans [OF assms(1)] show ?thesis by (simp add: s' heap_in_def)
qed

lemma heap_in_timer_inv: "loop_inv (heap_in s' hp) \<Longrightarrow> timer_inv hp"
  by (cases s') (simp add: heap_in_def loop_inv_def loop_ok_def)

text \<open>
  The rule for a run of the expired timers: what holds of the connections and the heap at the start and
  through every entry that is taken off the heap holds at the end, when no entry is due any more.
\<close>

lemma expireTimers_rule:
  fixes e :: "'task env"
  assumes inv: "loop_inv (objs, e)" and t: "t = clk_now (clk (sys e))" and start: "Q objs (timers (loop e))"
    and skip: "\<And>(s :: 'task lstate) hp x rest. loop_inv (heap_in s hp) \<Longrightarrow> Q (fst s) hp \<Longrightarrow> heap hp = x # rest \<Longrightarrow> e_when x \<le> t \<Longrightarrow>
      e_id x \<in> cancelled hp \<Longrightarrow> Q (fst s) (hp\<lparr>heap := rest, cancelled := cancelled hp - {e_id x}\<rparr>)"
    and empty: "\<And>(s :: 'task lstate) hp x rest. loop_inv (heap_in s hp) \<Longrightarrow> Q (fst s) hp \<Longrightarrow> heap hp = x # rest \<Longrightarrow> e_when x \<le> t \<Longrightarrow>
      e_id x \<notin> cancelled hp \<Longrightarrow> e_cb x = None \<Longrightarrow> Q (fst s) (hp\<lparr>heap := rest\<rparr>)"
    and call: "\<And>(s :: 'task lstate) hp x rest cb (s' :: 'task lstate) hp'. loop_inv (heap_in s hp) \<Longrightarrow> loop_inv (heap_in s (hp\<lparr>heap := rest\<rparr>)) \<Longrightarrow>
      t \<le> clk_now (clk (sys (snd s))) \<Longrightarrow> Q (fst s) hp \<Longrightarrow> heap hp = x # rest \<Longrightarrow> e_when x \<le> t \<Longrightarrow>
      e_id x \<notin> cancelled hp \<Longrightarrow> e_cb x = Some cb \<Longrightarrow> fireTimer cb s (hp\<lparr>heap := rest\<rparr>) = (s', hp') \<Longrightarrow> Q (fst s') hp'"
  shows "\<exists>objs' e'. expireTimers (objs, e) = Some (objs', e') \<and> loop_move (objs, e) (objs', e') \<and> Q objs' (timers (loop e')) \<and>
    (\<forall>x \<in> set (heap (timers (loop e'))). t < e_when x)"
proof -
  obtain e1 where n: "env_now e = (t, e1)" using t env_now_facts [of e] by (metis prod.exhaust)
  note f = env_now_facts [OF n]
  define J where "J s' hp \<longleftrightarrow> loop_move (objs, e) (heap_in s' hp) \<and> t \<le> clk_now (clk (sys (snd s')))" for s' hp
  have "loop_move (objs, e) (objs, e1)"
    by (rule loop_move_quiet [OF inv]) (use f loop_inv_timers [OF inv] in \<open>simp_all add: loop_same_def\<close>)
  moreover have "heap_in (objs, e1) (timers (loop e1)) = (objs, e1)" by (simp add: heap_in_def)
  ultimately have startJ: "J (objs, e1) (timers (loop e1))" using f t by (simp add: J_def)
  have popJ: "J s' (hp\<lparr>heap := rest\<rparr>)" if "J s' hp" "heap hp = x # rest" for s' :: "'task lstate" and hp x rest
    using that heap_in_move [of _ s' hp "hp\<lparr>heap := rest\<rparr>"] heap_in_timer_inv [OF loop_move_inv, of _ s' hp] timer_inv_pop [of hp]
    by (simp add: heap_pop_def J_def)
  have skipJ: "J s' (hp\<lparr>heap := rest, cancelled := cancelled hp - {e_id x}\<rparr>)"
    if "J s' hp" "heap hp = x # rest" for s' :: "'task lstate" and hp x rest
    using popJ [OF that] heap_in_move [of _ s' "hp\<lparr>heap := rest\<rparr>" "hp\<lparr>heap := rest, cancelled := cancelled hp - {e_id x}\<rparr>"]
      heap_in_timer_inv [OF loop_move_inv, of _ s' "hp\<lparr>heap := rest\<rparr>"] timer_inv_uncancel [of "hp\<lparr>heap := rest\<rparr>" "{e_id x}"]
    by (simp add: J_def)
  have callJ: "J s' hp' \<and> due t hp' \<le> due t hp" if "J s0 hp" "fireTimer cb s0 hp = (s', hp')"
    for cb and s0 s' :: "'task lstate" and hp hp'
    using that(1) fireTimer_step [OF loop_move_inv _ that(2), of "(objs, e)" t] loop_move_trans [of "(objs, e)" "heap_in s0 hp"]
    by (simp add: J_def)
  have JD: "loop_inv (heap_in s' hp)" if "J s' hp" for s' hp using that loop_move_inv unfolding J_def by blast
  have "\<exists>res. expire_loop fireTimer t (objs, e1) (timers (loop e1)) 0 = Some res"
    by (rule expire_loop_terminates_inv [where J = J, OF startJ])
      (erule (1) skipJ, erule (1) popJ, erule (1) callJ)
  then obtain m s' hp' where r: "expire_loop fireTimer t (objs, e1) (timers (loop e1)) 0 = Some (m, s', hp')"
    by (metis prod_cases3)
  have "case (m, s', hp') of (m, s', hp') \<Rightarrow> (J s' hp' \<and> Q (fst s') hp') \<and> (heap hp' = [] \<or> t < e_when (heap_top (heap hp')))"
  proof (rule expire_loop_rule [where J = "\<lambda>s hp n. J s hp \<and> Q (fst s) hp", OF r])
    show "J (objs, e1) (timers (loop e1)) \<and> Q (fst (objs, e1)) (timers (loop e1))" using startJ start f by simp
  next
    fix s hp and n :: nat and x rest assume "J s hp \<and> Q (fst s) hp" "heap hp = x # rest" "e_when x \<le> t" "e_id x \<in> cancelled hp"
    then show "J s (hp\<lparr>heap := rest, cancelled := cancelled hp - {e_id x}\<rparr>) \<and> Q (fst s) (hp\<lparr>heap := rest, cancelled := cancelled hp - {e_id x}\<rparr>)"
      using skipJ [of s hp x rest] skip [OF JD, of s hp x rest] by auto
  next
    fix s hp and n :: nat and x rest assume "J s hp \<and> Q (fst s) hp" "heap hp = x # rest" "e_when x \<le> t" "e_id x \<notin> cancelled hp" "e_cb x = None"
    then show "J s (hp\<lparr>heap := rest\<rparr>) \<and> Q (fst s) (hp\<lparr>heap := rest\<rparr>)" using popJ [of s hp x rest] empty [OF JD, of s hp x rest] by auto
  next
    fix s hp and n :: nat and x rest cb s' hp'
    assume a: "J s hp \<and> Q (fst s) hp" "heap hp = x # rest" "e_when x \<le> t" "e_id x \<notin> cancelled hp" "e_cb x = Some cb"
      "fireTimer cb s (hp\<lparr>heap := rest\<rparr>) = (s', hp')"
    have p: "J s (hp\<lparr>heap := rest\<rparr>)" "t \<le> clk_now (clk (sys (snd s)))" using popJ a(1,2) by (auto simp: J_def)
    with callJ [OF p(1) a(6)] call [OF JD JD [OF p(1)] p(2) _ a(2-6)] a(1) show "J s' hp' \<and> Q (fst s') hp'" by blast
  qed
  then have fin: "loop_move (objs, e) (heap_in s' hp')" "Q (fst s') hp'" "heap hp' = [] \<or> t < e_when (heap_top (heap hp'))"
    unfolding prod.case by (simp_all add: J_def)
  have "\<forall>x \<in> set (heap hp'). t < e_when x"
    using fin(3) timers.none_due [of "heap hp'" t] heap_in_timer_inv [OF loop_move_inv [OF fin(1)]] by (auto simp: timer_inv_def)
  with fin(1,2) r n show ?thesis
    by (intro exI [of _ "fst s'"] exI [of _ "snd (heap_in s' hp')"])
      (simp add: expireTimers_def expire_def heap_in_def case_prod_beta)
qed

lemma expireTimers_step:
  assumes inv: "loop_inv s"
  shows "\<exists>s'. expireTimers s = Some s' \<and> loop_step s s'"
proof -
  obtain objs e where s: "s = (objs, e)" by (cases s)
  have "\<exists>objs' e'. expireTimers (objs, e) = Some (objs', e') \<and> loop_move (objs, e) (objs', e') \<and>
      (idle_cover s \<longrightarrow> covered (obj objs') (timers (loop e'))) \<and> (\<forall>x \<in> set (heap (timers (loop e'))). clk_now (clk (sys e)) < e_when x)"
  proof (rule expireTimers_rule [OF inv [unfolded s] refl, where Q = "\<lambda>objs hp. idle_cover s \<longrightarrow> covered (obj objs) hp"])
    show "idle_cover s \<longrightarrow> covered (obj objs) (timers (loop e))" by (simp add: idle_cover_def s)
  next
    fix s' :: "'a lstate" and hp x rest
    assume "loop_inv (heap_in s' hp)" "idle_cover s \<longrightarrow> covered (obj (fst s')) hp" "heap hp = x # rest" "e_id x \<in> cancelled hp"
    then show "idle_cover s \<longrightarrow> covered (obj (fst s')) (hp\<lparr>heap := rest, cancelled := cancelled hp - {e_id x}\<rparr>)"
      using covered_skip heap_in_timer_inv by blast
  next
    fix s' :: "'a lstate" and hp x rest
    assume "idle_cover s \<longrightarrow> covered (obj (fst s')) hp" "heap hp = x # rest" "e_id x \<notin> cancelled hp" "e_cb x = None"
    then show "idle_cover s \<longrightarrow> covered (obj (fst s')) (hp\<lparr>heap := rest\<rparr>)"
      by (auto simp: covered_def live_def)
  next
    fix s' s'' :: "'a lstate" and hp x rest cb hp''
    assume a: "loop_inv (heap_in s' hp)" "loop_inv (heap_in s' (hp\<lparr>heap := rest\<rparr>))" "idle_cover s \<longrightarrow> covered (obj (fst s')) hp"
      "heap hp = x # rest" "e_id x \<notin> cancelled hp" "e_cb x = Some cb" "fireTimer cb s' (hp\<lparr>heap := rest\<rparr>) = (s'', hp'')"
    obtain i where cb: "cb = IdleCheck i" by (cases cb)
    show "idle_cover s \<longrightarrow> covered (obj (fst s'')) hp''"
    proof
      assume "idle_cover s"
      with a(3) have cov: "covered (obj (fst s')) hp" by simp
      obtain c where "obj (fst s') i = Some c" "0 < idle_timeout_s c" "covered ((obj (fst s'))(i := None)) (hp\<lparr>heap := rest\<rparr>)"
        by (rule covered_pop [OF cov heap_in_timer_inv [OF a(1)] a(4,5) a(6) [unfolded cb]])
      with fireTimer_cover [OF a(2) _ _ _ a(7) [unfolded cb]] show "covered (obj (fst s'')) hp''" by blast
    qed
  qed
  then show ?thesis by (auto simp: s loop_step_def idle_cover_def)
qed

section \<open>The contract of what a loop runs for others\<close>

text \<open>
  \<open>I todo (x, s)\<close> is the invariant of the whole program as the thread of one loop sees it: \<open>s\<close> the
  loop, \<open>x\<close> everything else, \<open>todo\<close> the tasks that have been taken off the queue and not yet run. It
  must hold through the steps inside the loop, the acceptor callback and the queued tasks.
\<close>

locale loop_client =
  fixes acceptor :: "'x \<times> 'task lstate \<Rightarrow> 'x \<times> 'task lstate"
    and run :: "'task \<Rightarrow> 'task lstate \<Rightarrow> 'task lstate"
    and I :: "'task list \<Rightarrow> 'x \<times> 'task lstate \<Rightarrow> bool"
  assumes inv_loop: "I todo (x, s) \<Longrightarrow> loop_inv s"
    and inv_step: "I todo (x, s) \<Longrightarrow> loop_step s s' \<Longrightarrow> I todo (x, s')"
    and acceptor_inv: "I [] (x, (objs, e)) \<Longrightarrow> has_acceptor (loop e) \<Longrightarrow> I [] (acceptor (x, (objs, e)))"
    and take_inv: "I [] (x, (objs, e)) \<Longrightarrow>
      I (pending (loop e)) (x, (objs, e\<lparr>loop := (loop e)\<lparr>calling_pending := True, pending := []\<rparr>\<rparr>))"
    and run_inv: "I (task # todo) (x, s) \<Longrightarrow> I todo (x, run task s)"
begin

lemma events_inv: "I [] xs \<Longrightarrow> I [] (fold (dispatch h acceptor) evs xs)"
proof (induction evs arbitrary: xs)
  case (Cons fe evs)
  obtain fd ev x objs e where eq: "fe = (fd, ev)" "xs = (x, (objs, e))" by (metis prod.collapse)
  have "I [] (dispatch h acceptor fe xs)"
  proof (cases "fd \<noteq> acceptor_fd (loop e) \<or> fd = wakeup_fd (loop e) \<or> \<not> has_acceptor (loop e)")
    case True
    with dispatch_step [OF inv_loop [OF Cons.prems [unfolded eq]], of fd h acceptor ev x] Cons.prems inv_step show ?thesis
      unfolding eq by metis
  next
    case False
    with Cons.prems acceptor_inv show ?thesis by (simp add: eq dispatch_def)
  qed
  with Cons.IH show ?case by simp
qed simp

lemma tasks_inv: "I tasks (x, s) \<Longrightarrow> I [] (x, fold run tasks s)"
proof (induction tasks arbitrary: s)
  case (Cons task tasks)
  from Cons.IH [OF run_inv [OF Cons.prems]] show ?case by simp
qed simp

lemma pending_inv:
  assumes "I [] (x, s)"
  shows "I [] (x, doPendingFunctors run s)"
proof -
  obtain objs e where s: "s = (objs, e)" by (cases s)
  let ?s1 = "(objs, e\<lparr>loop := (loop e)\<lparr>calling_pending := True, pending := []\<rparr>\<rparr>)"
  obtain objs2 e2 where f: "fold run (pending (loop e)) ?s1 = (objs2, e2)" by fastforce
  have 2: "I [] (x, (objs2, e2))" using tasks_inv [OF take_inv [OF assms [unfolded s]]] f by simp
  note inv2 = inv_loop [OF 2]
  have "loop_step (objs2, e2) (objs2, e2\<lparr>loop := (loop e2)\<lparr>calling_pending := False\<rparr>\<rparr>)"
    by (rule loop_step_quiet [OF inv2]) (use loop_inv_timers [OF inv2] in \<open>simp_all add: loop_same_def\<close>)
  with inv_step [OF 2] f show ?thesis by (simp add: doPendingFunctors_def s)
qed

lemma iteration_inv:
  assumes "I [] (x, s)"
  shows "\<exists>t xs'. iteration h acceptor run (x, s) = Some (t, xs') \<and> I [] xs' \<and> 0 \<le> t"
proof -
  obtain objs e where s: "s = (objs, e)" by (cases s)
  obtain t e1 where n: "env_now e = (t, e1)" by fastforce
  obtain r p rest where w: "Epoller_wait (eps (sys e1)) (poller (loop e1)) = (r, p, rest)" by (metis prod_cases3)
  let ?e = "e1\<lparr>loop := (loop e1)\<lparr>poller := p\<rparr>, sys := (sys e1)\<lparr>eps := rest\<rparr>\<rparr>"
  have p: "interest p = interest (poller (loop e1))" "epfd p = epfd (poller (loop e1))" and l: "loop e1 = loop e" "counters e1 = counters e" "closed_fds (sys e1) = closed_fds (sys e)"
    using Epoller_wait_frame [OF w] env_now_facts [OF n] by auto
  note inv = inv_loop [OF assms [unfolded s]]
  have "loop_step (objs, e) (objs, ?e)"
    by (rule loop_step_quiet [OF inv]) (use loop_inv_timers [OF inv] in \<open>simp_all add: p l loop_same_def\<close>)
  then have I1: "I [] (x, (objs, ?e))" using inv_step assms s by blast
  show ?thesis
  proof (cases r)
    case (Inl er)
    with n w I1 show ?thesis by (simp add: iteration_def s Let_def)
  next
    case (Inr k)
    let ?evs = "map (\<lambda>i. (fdAt i p, eventsAt i p)) [0..<nat k]"
    obtain x2 s2 where d: "fold (dispatch h acceptor) ?evs (x, (objs, ?e)) = (x2, s2)" by (meson prod.exhaust)
    have I2: "I [] (x2, s2)" using events_inv [OF I1, of h ?evs] unfolding d .
    obtain objs3 e3 where x: "expireTimers s2 = Some (objs3, e3)" "loop_step s2 (objs3, e3)"
      using expireTimers_step [OF inv_loop [OF I2]] by fastforce
    have I3: "I [] (x2, (objs3, e3))" by (rule inv_step [OF I2 x(2)])
    note inv3 = inv_loop [OF I3]
    let ?e4 = "e3\<lparr>loop := (loop e3)\<lparr>pending_timers := timer_size (timers (loop e3))\<rparr>\<rparr>"
    have "loop_step (objs3, e3) (objs3, ?e4)"
      by (rule loop_step_quiet [OF inv3]) (use loop_inv_timers [OF inv3] in \<open>simp_all add: loop_same_def\<close>)
    then have "I [] (x2, (objs3, ?e4))" by (rule inv_step [OF I3])
    with pending_inv n w Inr d x(1) show ?thesis by (simp add: iteration_def s Let_def)
  qed
qed

lemma turns_inv: "I [] xs \<Longrightarrow> \<exists>xs'. loop_turns h acceptor run k xs = Some xs' \<and> I [] xs'"
proof (induction k arbitrary: xs)
  case (Suc k)
  obtain t xs' where i: "iteration h acceptor run xs = Some (t, xs')" "I [] xs'"
    using iteration_inv [of "fst xs" "snd xs" h] Suc.prems by auto
  show ?case
  proof (cases "quit_flag (loop (snd (snd xs)))")
    case False
    with Suc.IH [OF i(2)] i(1) show ?thesis by simp
  qed (use Suc.prems in simp)
qed simp

end

end
