(* ===== verification/Server_Handler.thy ===== *)
theory Server_Handler
  imports Event_Loop
begin

text \<open>
  The request handler of the server, \<open>handleRequest\<close> and \<open>serveStatic\<close> of \<open>src/server.cpp\<close>, with
  \<open>Options\<close>, \<open>Stats\<close> and \<open>snapshot\<close> of \<open>include/ws/server.h\<close>. The file system is an argument: what
  \<open>stat\<close> says of a name (\<open>None\<close> when it fails, otherwise \<open>S_ISREG\<close>) and what an \<open>ifstream\<close> opened on it
  yields (\<open>None\<close> when it cannot be opened). The names the code hands to them are C strings, so they end
  at the first NUL byte. The number of pending timers of the other loops, which \<open>snapshot\<close> reads from
  their atomics, is an argument as well.
\<close>

section \<open>Definitions\<close>

definition contentTypeOf :: "string \<Rightarrow> string" where
  "contentTypeOf path =
     (case str_rfind (CHR ''.'') path of
        None \<Rightarrow> ''application/octet-stream''
      | Some dot \<Rightarrow>
          let ext = drop dot path in
          if ext = ''.html'' \<or> ext = ''.htm'' then ''text/html; charset=utf-8''
          else if ext = ''.css'' then ''text/css; charset=utf-8''
          else if ext = ''.js'' then ''application/javascript; charset=utf-8''
          else if ext = ''.json'' then ''application/json; charset=utf-8''
          else if ext = ''.txt'' then ''text/plain; charset=utf-8''
          else if ext = ''.png'' then ''image/png''
          else if ext = ''.jpg'' \<or> ext = ''.jpeg'' then ''image/jpeg''
          else if ext = ''.svg'' then ''image/svg+xml''
          else ''application/octet-stream'')"

record Options =
  port :: u16
  io_threads :: int
  doc_root :: string
  opt_idle_timeout_s :: int
  max_connections :: int
  tcp_nodelay :: bool

definition Options_new :: Options where
  "Options_new = \<lparr>port = 8080, io_threads = 0, doc_root = ''./www'', opt_idle_timeout_s = 60,
     max_connections = 20000, tcp_nodelay = True\<rparr>"

record Stats =
  s_accepted :: u64
  s_requests :: u64
  s_responses :: u64
  s_errors :: u64
  s_timeouts_closed :: u64
  s_bytes_read :: u64
  s_bytes_written :: u64
  s_active_connections :: int
  s_pending_timers :: u64

definition snapshot :: "nat \<Rightarrow> nat list \<Rightarrow> ServerCounters \<Rightarrow> Stats" where
  "snapshot main_timers sub_timers ct =
     \<lparr>s_accepted = accepted ct, s_requests = requests ct, s_responses = responses ct, s_errors = errors ct,
      s_timeouts_closed = timeouts_closed ct, s_bytes_read = bytes_read ct, s_bytes_written = bytes_written ct,
      s_active_connections = activeConnections ct,
      s_pending_timers = fold (\<lambda>n acc. acc + of_nat n) sub_timers (of_nat main_timers)\<rparr>"

definition pf_llu :: "u64 \<Rightarrow> string" where
  "pf_llu w = to_string (unat w)"

definition stats_text :: "Stats \<Rightarrow> string" where
  "stats_text s =
     ''{\"accepted\":'' @ pf_llu (s_accepted s) @ '',\"requests\":'' @ pf_llu (s_requests s) @
     '',\"responses\":'' @ pf_llu (s_responses s) @ '',\"errors\":'' @ pf_llu (s_errors s) @
     '',\"timeouts_closed\":'' @ pf_llu (s_timeouts_closed s) @ '',\"bytes_read\":'' @ pf_llu (s_bytes_read s) @
     '',\"bytes_written\":'' @ pf_llu (s_bytes_written s) @
     '',\"active_connections\":'' @ int_to_string (s_active_connections s) @
     '',\"pending_timers\":'' @ pf_llu (s_pending_timers s) @ ''}'' @ [LF]"

record filesystem =
  fs_stat :: "string \<Rightarrow> bool option"
  fs_open :: "string \<Rightarrow> bytes option"

definition c_str :: "string \<Rightarrow> string" where
  "c_str s = takeWhile (\<lambda>c. c \<noteq> NUL) s"

definition not_found :: HttpResponse where
  "not_found = HttpResponse_make 404 (''404 Not Found'' @ [LF]) text_plain"

definition serveStatic :: "Options \<Rightarrow> filesystem \<Rightarrow> HttpRequest \<Rightarrow> HttpResponse \<Rightarrow> HttpResponse" where
  "serveStatic opts fs req resp =
     (let rel = (if req_path req = ''/'' then ''/index.html'' else req_path req) in
      if search ''..'' rel \<noteq> None then HttpResponse_make 403 (''403 Forbidden'' @ [LF]) text_plain
      else
        let full = doc_root opts @ rel in
        if fs_stat fs (c_str full) \<noteq> Some True then not_found
        else case fs_open fs (c_str full) of
            None \<Rightarrow> not_found
          | Some data \<Rightarrow>
              setHeader (setHeader (resp\<lparr>status := 200, resp_body := data\<rparr>) ''Content-Type'' (contentTypeOf full))
                ''Content-Length'' (to_string (length data)))"

definition not_allowed :: HttpResponse where
  "not_allowed = HttpResponse_make 405 (''405 Method Not Allowed'' @ [LF]) text_plain"

text \<open>The routing, up to the two header changes at the end.\<close>

definition route :: "Options \<Rightarrow> filesystem \<Rightarrow> Stats \<Rightarrow> HttpRequest \<Rightarrow> HttpResponse \<Rightarrow> HttpResponse" where
  "route opts fs st req resp =
     (let is_head = (req_method req = ''HEAD'');
          get_like = (req_method req = ''GET'' \<or> is_head)
      in if req_path req = ''/stats'' then
           HttpResponse_make 200 (snprintf 512 (stats_text st)) ''application/json; charset=utf-8''
         else if req_path req = ''/echo'' then
           (if req_method req = ''POST'' \<or> req_method req = ''PUT''
            then HttpResponse_make 200 (req_body req) text_plain
            else not_allowed)
         else if get_like \<and> (req_path req = ''/hello'' \<or> req_path req = ''/healthz'') then
           HttpResponse_make 200 (''Hello from ws-server'' @ [LF]) text_plain
         else if get_like then serveStatic opts fs req resp
         else not_allowed)"

definition Server_handleRequest ::
  "Options \<Rightarrow> filesystem \<Rightarrow> nat list \<Rightarrow> 'task env \<Rightarrow> HttpRequest \<Rightarrow> HttpResponse \<Rightarrow> HttpResponse" where
  "Server_handleRequest opts fs other_timers e req resp =
     (let st = snapshot (pending_timers (loop e)) other_timers (counters e);
          resp = setHeader (route opts fs st req resp) ''Server'' ''ws-server/1.0''
      in if req_method req = ''HEAD''
         then (setHeader resp ''Content-Length'' (to_string (length (resp_body resp))))\<lparr>resp_body := []\<rparr>
         else resp)"

section \<open>Which files a request can reach\<close>

text \<open>
  Path resolution as the kernel does it on a tree without symbolic links: the components between the
  slashes, empty ones and \<open>.\<close> skipped, \<open>..\<close> going one level up.
\<close>

fun split_path :: "string \<Rightarrow> string list" where
  "split_path [] = [[]]"
| "split_path (c # cs) = (if c = CHR ''/'' then [] # split_path cs else (c # hd (split_path cs)) # tl (split_path cs))"

definition resolve_step :: "string list \<Rightarrow> string \<Rightarrow> string list" where
  "resolve_step acc part =
     (if part = [] \<or> part = ''.'' then acc
      else if part = ''..'' then (if acc = [] \<or> last acc = ''..'' then acc @ [part] else butlast acc)
      else acc @ [part])"

definition resolve :: "string \<Rightarrow> string list" where
  "resolve p = foldl resolve_step [] (split_path p)"

definition within :: "string \<Rightarrow> string \<Rightarrow> bool" where
  "within root p \<longleftrightarrow> prefix (resolve root) (resolve p)"

lemma split_path_neq_Nil [simp]: "split_path s \<noteq> []"
  by (cases s) auto

lemma split_path_slash: "split_path (a @ CHR ''/'' # b) = split_path a @ split_path b"
  by (induction a) auto

lemma split_path_part: "x \<in> set (split_path s) \<Longrightarrow> \<exists>a b. s = a @ x @ b"
proof (induction s arbitrary: x)
  case (Cons c cs)
  obtain y ys where y: "split_path cs = y # ys" by (cases "split_path cs") auto
  have head: "\<exists>b. cs = y @ b" if "split_path cs = y # ys" for cs y ys
    using that by (induction cs arbitrary: y ys) (auto split: if_splits, metis list.collapse split_path_neq_Nil)
  show ?case
  proof (cases "c = CHR ''/''")
    case True
    then consider "x = []" | "x \<in> set (split_path cs)" using Cons.prems by auto
    then show ?thesis using Cons.IH by cases (auto, metis append_Cons)
  next
    case False
    then consider "x = c # y" | "x \<in> set ys" using Cons.prems y by auto
    then show ?thesis
    proof cases
      case 1
      with head [OF y] show ?thesis by (metis append.left_neutral append_Cons)
    next
      case 2
      with Cons.IH [of x] y show ?thesis by (metis append_Cons list.set_intros(2))
    qed
  qed
qed simp

lemma search_occurs: "search pat (a @ pat @ b) \<noteq> None"
proof -
  have "search pat (pat @ b) = Some 0" by (simp add: search_Some_iff)
  then show ?thesis by (induction a) auto
qed

lemma resolve_no_dotdot:
  "''..'' \<notin> set comps \<Longrightarrow> \<exists>rest. foldl resolve_step acc comps = acc @ rest"
proof (induction comps arbitrary: acc)
  case (Cons x comps)
  then obtain rest where "foldl resolve_step (resolve_step acc x) comps = resolve_step acc x @ rest" by fastforce
  moreover have "\<exists>new. resolve_step acc x = acc @ new" using Cons.prems by (auto simp: resolve_step_def)
  ultimately show ?case by auto
qed simp

lemma within_no_dotdot:
  assumes "search ''..'' b = None"
  shows "within root (root @ CHR ''/'' # b)"
proof -
  have "''..'' \<notin> set (split_path b)"
  proof
    assume "''..'' \<in> set (split_path b)"
    then obtain x y where "b = x @ ''..'' @ y" using split_path_part by blast
    with search_occurs [of "''..''" x y] assms show False by simp
  qed
  then obtain rest where "foldl resolve_step (resolve root) (split_path b) = resolve root @ rest"
    using resolve_no_dotdot by blast
  then show ?thesis by (simp add: within_def resolve_def split_path_slash)
qed

lemma search_prefix_None: "search pat xs = None \<Longrightarrow> prefix ys xs \<Longrightarrow> search pat ys = None"
  by (metis option.exhaust prefix_def search_append option.distinct(1))

lemma c_str_prefix: "prefix (c_str s) s"
  unfolding c_str_def by (rule takeWhile_is_prefix)

lemma c_str_append: "NUL \<notin> set a \<Longrightarrow> c_str (a @ b) = a @ c_str b"
  unfolding c_str_def by (rule takeWhile_append2) auto

lemma static_name_within:
  assumes "NUL \<notin> set root" "search ''..'' (CHR ''/'' # rel) = None"
  shows "within root (c_str (root @ CHR ''/'' # rel))"
proof -
  have "search ''..'' rel = None" using assms(2) by (simp split: if_splits)
  then have "search ''..'' (c_str rel) = None" by (rule search_prefix_None) (rule c_str_prefix)
  with within_no_dotdot assms(1) show ?thesis by (simp add: c_str_append) (simp add: c_str_def)
qed

section \<open>Properties\<close>

text \<open>
  C22: a static request stays below the document root. If the path begins with a slash, as an origin-form
  target does, the answer depends only on files whose name resolves to a place at or below the root: two
  file systems that agree on those give the same response, whatever the rest of the path holds.
\<close>

theorem static_confined:
  assumes "req_path req = CHR ''/'' # p" "NUL \<notin> set (doc_root opts)"
    and "\<And>f. within (doc_root opts) f \<Longrightarrow> fs_stat fs f = fs_stat fs' f \<and> fs_open fs f = fs_open fs' f"
  shows "serveStatic opts fs req resp = serveStatic opts fs' req resp"
proof -
  obtain r where r: "(if req_path req = ''/'' then ''/index.html'' else req_path req) = CHR ''/'' # r"
    using assms(1) by (cases "p = []") auto
  show ?thesis
  proof (cases "search ''..'' (CHR ''/'' # r)")
    case None
    from assms(3) [OF static_name_within [OF assms(2) None]] show ?thesis
      unfolding serveStatic_def r Let_def by simp
  next
    case (Some i)
    then have "search ''..'' (CHR ''/'' # r) \<noteq> None" by auto
    then show ?thesis unfolding serveStatic_def r Let_def by (simp only: if_True simp_thms)
  qed
qed

theorem static_confined_witness:
  "serveStatic Options_new
     \<lparr>fs_stat = (\<lambda>f. if f = ''./www/a.txt'' then Some True else None), fs_open = (\<lambda>f. if f = ''./www/a.txt'' then Some ''x'' else None)\<rparr>
     (HttpRequest_new\<lparr>req_path := ''/a.txt''\<rparr>) HttpResponse_new =
   serveStatic Options_new
     \<lparr>fs_stat = (\<lambda>f. if f = ''./www/a.txt'' \<or> f = ''/etc/passwd'' then Some True else None),
      fs_open = (\<lambda>f. if f = ''./www/a.txt'' \<or> f = ''/etc/passwd'' then Some ''x'' else None)\<rparr>
     (HttpRequest_new\<lparr>req_path := ''/a.txt''\<rparr>) HttpResponse_new"
proof (rule static_confined [of _ "''a.txt''"])
  have out: "\<not> within ''./www'' ''/etc/passwd''" by code_simp
  show "fs_stat \<lparr>fs_stat = (\<lambda>f. if f = ''./www/a.txt'' then Some True else None), fs_open = (\<lambda>f. if f = ''./www/a.txt'' then Some ''x'' else None)\<rparr> f =
      fs_stat \<lparr>fs_stat = (\<lambda>f. if f = ''./www/a.txt'' \<or> f = ''/etc/passwd'' then Some True else None),
        fs_open = (\<lambda>f. if f = ''./www/a.txt'' \<or> f = ''/etc/passwd'' then Some ''x'' else None)\<rparr> f \<and>
      fs_open \<lparr>fs_stat = (\<lambda>f. if f = ''./www/a.txt'' then Some True else None), fs_open = (\<lambda>f. if f = ''./www/a.txt'' then Some ''x'' else None)\<rparr> f =
      fs_open \<lparr>fs_stat = (\<lambda>f. if f = ''./www/a.txt'' \<or> f = ''/etc/passwd'' then Some True else None),
        fs_open = (\<lambda>f. if f = ''./www/a.txt'' \<or> f = ''/etc/passwd'' then Some ''x'' else None)\<rparr> f"
    if "within (doc_root Options_new) f" for f
    using that out by (auto simp: Options_new_def)
qed (simp_all add: Options_new_def)

text \<open>
  Nothing forces a target to begin with a slash: such a request names a sibling of the document root.
\<close>

lemma static_without_slash:
  "resp_body (serveStatic Options_new
     \<lparr>fs_stat = (\<lambda>f. if f = ''./www-old/key'' then Some True else None), fs_open = (\<lambda>f. if f = ''./www-old/key'' then Some ''x'' else None)\<rparr>
     (HttpRequest_new\<lparr>req_path := ''-old/key''\<rparr>) HttpResponse_new) = ''x'' \<and>
   \<not> within (doc_root Options_new) ''./www-old/key''"
  by code_simp

section \<open>The shape of the responses\<close>

definition header_lines :: "HttpResponse \<Rightarrow> string list" where
  "header_lines r = map header_line (resp_headers r) @
     (if map_of (resp_headers r) ''Content-Length'' = None
      then [header_line (''Content-Length'', to_string (length (resp_body r)))] else [])"

lemma toString_lines: "toString r = status_line r @ concat (header_lines r) @ CRLF @ resp_body r"
  by (simp add: toString_def header_lines_def header_line_def)

lemma header_order:
  "''Content-Length'' < (''Content-Type'' :: string)" "''Content-Type'' < (''Server'' :: string)"
  "''Content-Length'' < (''Server'' :: string)"
  by code_simp+

lemma put_headers:
  "map_put ''Server'' v [(''Content-Type'', t)] = [(''Content-Type'', t), (''Server'', v)]"
  "map_put ''Content-Length'' n [(''Content-Type'', t)] = [(''Content-Length'', n), (''Content-Type'', t)]"
  "map_put ''Content-Length'' n [(''Content-Type'', t), (''Server'', v)] = [(''Content-Length'', n), (''Content-Type'', t), (''Server'', v)]"
  "map_put ''Server'' v [(''Content-Length'', n), (''Content-Type'', t)] = [(''Content-Length'', n), (''Content-Type'', t), (''Server'', v)]"
  "map_put ''Content-Length'' n' [(''Content-Length'', n), (''Content-Type'', t), (''Server'', v)] =
     [(''Content-Length'', n'), (''Content-Type'', t), (''Server'', v)]"
  using header_order by (simp_all add: less_not_sym)

definition known_types :: "string list" where
  "known_types = [''application/octet-stream'', ''text/html; charset=utf-8'', ''text/css; charset=utf-8'',
     ''application/javascript; charset=utf-8'', ''application/json; charset=utf-8'', ''text/plain; charset=utf-8'',
     ''image/png'', ''image/jpeg'', ''image/svg+xml'']"

lemma contentTypeOf_known: "contentTypeOf path \<in> set known_types"
  by (simp add: contentTypeOf_def known_types_def Let_def split: option.split)

text \<open>The two forms of what the routing makes of a fresh response.\<close>

definition route_ok :: "HttpResponse \<Rightarrow> bool" where
  "route_ok r \<longleftrightarrow> (\<exists>st body ct. st \<in> {200, 403, 404, 405} \<and> ct \<in> set known_types \<and>
     (r = HttpResponse_make st body ct \<or>
      r = setHeader (setHeader (HttpResponse_new\<lparr>status := st, resp_body := body\<rparr>) ''Content-Type'' ct)
            ''Content-Length'' (to_string (length body))))"

lemma route_ok_make: "st \<in> {200, 403, 404, 405} \<Longrightarrow> ct \<in> set known_types \<Longrightarrow> route_ok (HttpResponse_make st body ct)"
  by (unfold route_ok_def) blast

lemma known_types_simps [simp]: "text_plain \<in> set known_types" "''application/json; charset=utf-8'' \<in> set known_types"
  by (simp_all add: known_types_def text_plain_def)

lemma serveStatic_ok: "route_ok (serveStatic opts fs req HttpResponse_new)"
proof -
  have "route_ok (setHeader (setHeader (HttpResponse_new\<lparr>status := 200, resp_body := data\<rparr>) ''Content-Type'' (contentTypeOf p))
      ''Content-Length'' (to_string (length data)))" for p data
    unfolding route_ok_def using contentTypeOf_known [of p] by blast
  then show ?thesis
    by (simp add: serveStatic_def Let_def not_found_def route_ok_make split: option.split)
qed

lemma route_route_ok: "route_ok (route opts fs st req HttpResponse_new)"
  by (simp add: route_def Let_def not_allowed_def route_ok_make serveStatic_ok)

lemma route_head: "route opts fs st (req\<lparr>req_method := ''HEAD''\<rparr>) resp = route opts fs st (req\<lparr>req_method := ''GET''\<rparr>) resp"
  by (simp add: route_def serveStatic_def)

definition final :: "bool \<Rightarrow> HttpResponse \<Rightarrow> HttpResponse" where
  "final is_head r = (let resp = setHeader r ''Server'' ''ws-server/1.0'' in
     if is_head then (setHeader resp ''Content-Length'' (to_string (length (resp_body resp))))\<lparr>resp_body := []\<rparr> else resp)"

lemma handler_final:
  "Server_handleRequest opts fs ts e req resp =
     final (req_method req = ''HEAD'') (route opts fs (snapshot (pending_timers (loop e)) ts (counters e)) req resp)"
  by (simp add: Server_handleRequest_def final_def Let_def)

lemma final_headers:
  assumes "route_ok r"
  obtains st body ct where "st \<in> {200, 403, 404, 405}" "ct \<in> set known_types"
    "final False r = \<lparr>status = st, reason = [],
       resp_headers = [(''Content-Type'', ct), (''Server'', ''ws-server/1.0'')], resp_body = body, close_connection = False\<rparr> \<or>
     final False r = \<lparr>status = st, reason = [],
       resp_headers = [(''Content-Length'', to_string (length body)), (''Content-Type'', ct), (''Server'', ''ws-server/1.0'')],
       resp_body = body, close_connection = False\<rparr>"
    "final True r = \<lparr>status = st, reason = [],
       resp_headers = [(''Content-Length'', to_string (length body)), (''Content-Type'', ct), (''Server'', ''ws-server/1.0'')],
       resp_body = [], close_connection = False\<rparr>"
proof -
  note defs = final_def Let_def HttpResponse_make_def HttpResponse_new_def setHeader_def put_headers
  obtain st body ct where r: "st \<in> {200, 403, 404, 405}" "ct \<in> set known_types"
    "r = HttpResponse_make st body ct \<or>
      r = setHeader (setHeader (HttpResponse_new\<lparr>status := st, resp_body := body\<rparr>) ''Content-Type'' ct)
            ''Content-Length'' (to_string (length body))"
    using assms unfolding route_ok_def by blast
  from r(3) show thesis
    by (rule disjE; intro that [of st ct body] r(1,2)) (simp_all add: defs del: map_put.simps(2))
qed

section \<open>Properties of the responses\<close>

lemma length_line_prefix:
  "\<not> prefix ''Content-Length: '' (header_line (''Content-Type'', ct))"
  "\<not> prefix ''Content-Length: '' (header_line (''Server'', v))"
  "prefix ''Content-Length: '' (header_line (''Content-Length'', n))"
  by (simp_all add: header_line_def)

text \<open>
  C19: the answer to HEAD announces exactly what the answer to GET would carry: the same status line and
  the same header lines, Content-Length included, whatever the path, and no body.
\<close>

theorem head_mirrors_get:
  "let g = Server_handleRequest opts fs ts e (req\<lparr>req_method := ''GET''\<rparr>) HttpResponse_new;
       h = Server_handleRequest opts fs ts e (req\<lparr>req_method := ''HEAD''\<rparr>) HttpResponse_new
   in status_line h = status_line g \<and> mset (header_lines h) = mset (header_lines g) \<and>
      toString g = status_line g @ concat (header_lines g) @ CRLF @ resp_body g \<and>
      toString h = status_line h @ concat (header_lines h) @ CRLF"
proof -
  let ?st = "snapshot (pending_timers (loop e)) ts (counters e)"
  obtain st body ct where
    "final False (route opts fs ?st (req\<lparr>req_method := ''GET''\<rparr>) HttpResponse_new) = \<lparr>status = st, reason = [],
       resp_headers = [(''Content-Type'', ct), (''Server'', ''ws-server/1.0'')], resp_body = body, close_connection = False\<rparr> \<or>
     final False (route opts fs ?st (req\<lparr>req_method := ''GET''\<rparr>) HttpResponse_new) = \<lparr>status = st, reason = [],
       resp_headers = [(''Content-Length'', to_string (length body)), (''Content-Type'', ct), (''Server'', ''ws-server/1.0'')],
       resp_body = body, close_connection = False\<rparr>"
    "final True (route opts fs ?st (req\<lparr>req_method := ''GET''\<rparr>) HttpResponse_new) = \<lparr>status = st, reason = [],
       resp_headers = [(''Content-Length'', to_string (length body)), (''Content-Type'', ct), (''Server'', ''ws-server/1.0'')],
       resp_body = [], close_connection = False\<rparr>"
    by (rule final_headers [OF route_route_ok])
  then show ?thesis
    unfolding toString_lines handler_final route_head Let_def
    by (auto simp: status_line_def header_lines_def)
qed

text \<open>
  C30: every answer is framed: among its header lines there is exactly one Content-Length, and it gives
  the length of the body that follows, or would follow if the method were not HEAD.
\<close>

theorem response_framed:
  "let st = snapshot (pending_timers (loop e)) ts (counters e);
       body = resp_body (route opts fs st req HttpResponse_new);
       r = Server_handleRequest opts fs ts e req HttpResponse_new
   in filter (prefix ''Content-Length: '') (header_lines r) = [header_line (''Content-Length'', to_string (length body))] \<and>
      toString r = status_line r @ concat (header_lines r) @ CRLF @ (if req_method req = ''HEAD'' then [] else body)"
proof -
  define q where "q = route opts fs (snapshot (pending_timers (loop e)) ts (counters e)) req HttpResponse_new"
  obtain st body ct where
    f: "final False q = \<lparr>status = st, reason = [],
       resp_headers = [(''Content-Type'', ct), (''Server'', ''ws-server/1.0'')], resp_body = body, close_connection = False\<rparr> \<or>
     final False q = \<lparr>status = st, reason = [],
       resp_headers = [(''Content-Length'', to_string (length body)), (''Content-Type'', ct), (''Server'', ''ws-server/1.0'')],
       resp_body = body, close_connection = False\<rparr>"
    "final True q = \<lparr>status = st, reason = [],
       resp_headers = [(''Content-Length'', to_string (length body)), (''Content-Type'', ct), (''Server'', ''ws-server/1.0'')],
       resp_body = [], close_connection = False\<rparr>"
    by (rule final_headers [OF route_route_ok, of opts fs "snapshot (pending_timers (loop e)) ts (counters e)" req, folded q_def])
  have "resp_body q = resp_body (final False q)" by (simp add: final_def setHeader_def)
  with f(1) have "resp_body q = body" by auto
  with f show ?thesis
    unfolding toString_lines handler_final q_def [symmetric] Let_def
    by (cases "req_method req = ''HEAD''") (auto simp: header_lines_def length_line_prefix)
qed




lemma length_pf_llu: "length (pf_llu w) \<le> 20"
proof -
  have "unat w < 10 ^ Suc 19" by (rule less_le_trans [OF unsigned_less]) simp
  then show ?thesis using length_to_string [of "unat w" 19] by (simp add: pf_llu_def)
qed

text \<open>
  The text of \<open>/stats\<close> always fits the 512-byte buffer it is formatted into: nothing is cut off, for
  any value of the counters.
\<close>

lemma stats_not_truncated:
  "snprintf 512 (stats_text (snapshot m ts ct)) = stats_text (snapshot m ts ct)"
proof -
  let ?i = "activeConnections ct"
  have "- (2 ^ 63) \<le> ?i \<and> ?i < 2 ^ 63"
    unfolding activeConnections_def using sint_range_size [of "opened ct - closed ct"] by (simp add: word_size)
  then have n: "nat ?i < 10 ^ Suc 18" "nat (- ?i) < 10 ^ Suc 18" by auto
  have "length (int_to_string ?i) \<le> 20"
    using length_to_string [OF n(1)] length_to_string [OF n(2)] by (simp add: int_to_string_def)
  moreover note length_pf_llu [of "accepted ct"] length_pf_llu [of "requests ct"] length_pf_llu [of "responses ct"]
    length_pf_llu [of "errors ct"] length_pf_llu [of "timeouts_closed ct"] length_pf_llu [of "bytes_read ct"]
    length_pf_llu [of "bytes_written ct"] length_pf_llu [of "s_pending_timers (snapshot m ts ct)"]
  ultimately have "length (stats_text (snapshot m ts ct)) \<le> 511"
    by (simp add: stats_text_def snapshot_def)
  then show ?thesis by (simp add: snprintf_def)
qed

end
