(* ===== verification/Server.thy ===== *)
theory Server
  imports Server_Handler
begin

text \<open>
  The server, \<open>include/ws/server.h\<close> and \<open>src/server.cpp\<close>: the listening socket, the acceptor that deals
  new connections out to the loops, the attachment of a connection to its loop, starting and stopping.
  The main loop and the sub loops are states of \<open>Event_Loop\<close>; the one kind of task they are ever given
  is the closure that attaches a connection. The counters are shared: they travel with the loop whose
  turn it is. A schedule says which loop takes the next turn, so the theorems hold for every order of
  turns; that the parts of a turn of different threads may interleave is the subject of \<open>Loop_Wakeup\<close>.
\<close>

unbundle bit_operations_syntax

section \<open>The kernel's side of accept\<close>

text \<open>
  A new descriptor is the lowest-numbered one that is not open (POSIX, File Descriptor Allocation).
  What \<open>accept4\<close> finds is a script: a waiting peer or an error; an exhausted script answers EAGAIN.
\<close>

definition fd_alloc :: "int list \<Rightarrow> int" where
  "fd_alloc used = hd (filter (\<lambda>fd. fd \<notin> set used) (map int [0..<Suc (length used)]))"

datatype accept_answer = AcConn sockaddr_in | AcErr errno

fun accept4 :: "int list \<Rightarrow> accept_answer list \<Rightarrow> (errno + int \<times> sockaddr_in) \<times> accept_answer list" where
  "accept4 used [] = (Inl EAGAIN, [])"
| "accept4 used (AcConn a # s) = (Inr (fd_alloc used, a), s)"
| "accept4 used (AcErr er # s) = (Inl er, s)"

section \<open>Definitions\<close>

text \<open>The closure \<open>[this, loop, conn_fd, addr] { attachConnection(loop, conn_fd, addr); }\<close>.\<close>

datatype task = Attach int sockaddr_in

text \<open>
  The last two fields belong to the kernel's side: what \<open>accept4\<close> will find, and, as history, the
  descriptors it has handed out.
\<close>

record Server =
  opts :: Options
  listen_fd :: int
  listen_port :: u16
  sub_loops :: "task lstate list"
  next_sub :: u64
  accepts :: "accept_answer list"
  granted :: "int list"

type_synonym system = "Server \<times> task lstate"

text \<open>
  \<open>connections_[conn->fd()] = conn\<close>. An object that was in the table under this descriptor loses its
  last \<open>shared_ptr\<close> and is destroyed.
\<close>

definition putConnection :: "int \<Rightarrow> nat \<Rightarrow> task lstate \<Rightarrow> task lstate" where
  "putConnection fd i s =
     (case s of (objs, e) \<Rightarrow>
        let e' = e\<lparr>loop := addConnection fd i (loop e)\<rparr>
        in case findConnection fd (loop e) of
             None \<Rightarrow> (objs, e')
           | Some j \<Rightarrow>
               (case obj objs j of None \<Rightarrow> (objs, e')
                | Some old \<Rightarrow> (objs[j := None], snd (Connection_destroy old e'))))"

definition attachConnection :: "(u32 \<Rightarrow> string option) \<Rightarrow> Options \<Rightarrow> task \<Rightarrow> task lstate \<Rightarrow> task lstate" where
  "attachConnection inet_ntop cfg t s =
     (case (t, s) of (Attach fd addr, (objs, e)) \<Rightarrow>
        let i = length objs;
            (c, e) = Connection_new inet_ntop i fd addr (opt_idle_timeout_s cfg) e;
            c = c\<lparr>shared := True\<rparr>;
            (objs, e) = putConnection fd i (objs, e);
            e = on_poller (Epoller_add fd (EPOLLIN OR EPOLLET OR EPOLLRDHUP)) e;
            (c, e) = armIdleTimer c e;
            e = bump (accepted_update (\<lambda>n. n + 1)) e;
            e = bump (opened_update (\<lambda>n. n + 1)) e
        in (objs @ [Some c], e))"

text \<open>\<open>None\<close> is the main loop.\<close>

definition pickSubLoop :: "Server \<Rightarrow> nat option \<times> Server" where
  "pickSubLoop srv =
     (if sub_loops srv = [] then (None, srv)
      else (Some (unat (next_sub srv) mod length (sub_loops srv)), srv\<lparr>next_sub := next_sub srv + 1\<rparr>))"

text \<open>The descriptors that are open: standard streams, listening socket, those of the loops, connections.\<close>

definition task_fd :: "task \<Rightarrow> int" where
  "task_fd t = (case t of Attach fd addr \<Rightarrow> fd)"

definition loop_fds :: "task lstate \<Rightarrow> int list" where
  "loop_fds s = open_fds (fst s) @ map task_fd (pending (loop (snd s)))"

definition own_fds :: "task lstate \<Rightarrow> int list" where
  "own_fds s = [epfd (poller (loop (snd s))), wakeup_fd (loop (snd s))]"

definition used_fds :: "system \<Rightarrow> int list" where
  "used_fds sy = (case sy of (srv, s) \<Rightarrow>
     [0, 1, 2, listen_fd srv] @ concat (map (\<lambda>t. own_fds t @ loop_fds t) (s # sub_loops srv)))"

function onAccept :: "(u32 \<Rightarrow> string option) \<Rightarrow> system \<Rightarrow> system" where
  "onAccept inet_ntop sy =
     (case sy of (srv, (objs, e)) \<Rightarrow>
        case accept4 (used_fds sy) (accepts srv) of (r, rest) \<Rightarrow>
          let srv = srv\<lparr>accepts := rest, granted := granted srv @ (case r of Inl _ \<Rightarrow> [] | Inr (fd, _) \<Rightarrow> [fd])\<rparr> in
          case r of
            Inl er \<Rightarrow>
              if er = EAGAIN \<or> er = EWOULDBLOCK then (srv, (objs, e))
              else if er = EINTR then onAccept inet_ntop (srv, (objs, e))
              else (srv, (objs, e))
          | Inr (fd, addr) \<Rightarrow>
              if max_connections (opts srv) \<le> activeConnections (counters e)
              then onAccept inet_ntop (srv, (objs, fd_close fd (bump (errors_update (\<lambda>n. n + 1)) e)))
              else case pickSubLoop srv of
                  (None, srv) \<Rightarrow>
                    onAccept inet_ntop (srv, runInLoop (attachConnection inet_ntop (opts srv)) True (Attach fd addr) (objs, e))
                | (Some k, srv) \<Rightarrow>
                    onAccept inet_ntop
                      (srv\<lparr>sub_loops := (sub_loops srv)[k :=
                         runInLoop (attachConnection inet_ntop (opts srv)) False (Attach fd addr) (sub_loops srv ! k)]\<rparr>,
                       (objs, e)))"
  by pat_completeness auto

lemma accept4_shorter: "accept4 used s = (r, s') \<Longrightarrow> r \<noteq> Inl EAGAIN \<Longrightarrow> length s' < length s"
  by (cases "(used, s)" rule: accept4.cases) auto

lemma pickSubLoop_frame:
  "pickSubLoop srv = (k, srv') \<Longrightarrow>
     accepts srv' = accepts srv \<and> sub_loops srv' = sub_loops srv \<and> listen_fd srv' = listen_fd srv \<and> opts srv' = opts srv \<and>
     granted srv' = granted srv"
  by (auto simp: pickSubLoop_def split: if_splits)

termination onAccept
proof (relation "measure (\<lambda>(h, sy). length (accepts (fst sy)))", goal_cases)
  case 1
  then show ?case by simp
next
  case (2 h sy srv s objs e r rest srv' er)
  then show ?case using accept4_shorter [of "used_fds sy" "accepts srv" r rest] by auto
next
  case (3 h sy srv s objs e r rest srv' fa fd addr)
  then show ?case using accept4_shorter [of "used_fds sy" "accepts srv" r rest] by auto
next
  case (4 h sy srv s objs e r rest srv' fa fd addr k srv'')
  then show ?case using accept4_shorter [of "used_fds sy" "accepts srv" r rest] by (auto dest: pickSubLoop_frame [OF sym])
next
  case (5 h sy srv s objs e r rest srv' fa fd addr k srv'' j)
  then show ?case using accept4_shorter [of "used_fds sy" "accepts srv" r rest] by (auto dest: pickSubLoop_frame [OF sym])
qed

declare onAccept.simps [simp del]

text \<open>
  Construction. The kernel's answers are arguments: the descriptors of the epoll instance and the eventfd
  of every loop, and for the listening socket those of \<open>socket\<close>, \<open>bind\<close>, \<open>listen\<close> and \<open>getsockname\<close> (the
  port it reports, in host order). The history of closed descriptors begins with the loop.
\<close>

definition new_loop :: "world \<Rightarrow> int \<times> int \<Rightarrow> task lstate" where
  "new_loop w fds = ([], \<lparr>loop = EventLoop_new (fst fds) (snd fds) (tie_script w), counters = ServerCounters_new, sys = w\<lparr>closed_fds := []\<rparr>\<rparr>)"

definition Server_new :: "Options \<Rightarrow> accept_answer list \<Rightarrow> world \<Rightarrow> int \<times> int \<Rightarrow> system" where
  "Server_new cfg script w fds =
     (\<lparr>opts = cfg, listen_fd = - 1, listen_port = 0, sub_loops = [], next_sub = 0, accepts = script, granted = []\<rparr>, new_loop w fds)"

record socket_answers =
  a_socket :: int
  a_bind :: bool
  a_listen :: bool
  a_getsockname :: "u16 option"

definition initListenSocket :: "socket_answers \<Rightarrow> system \<Rightarrow> bool \<times> system" where
  "initListenSocket k sy =
     (case sy of (srv, (objs, e)) \<Rightarrow>
        let fd = a_socket k in
        if fd < 0 then (False, sy)
        else if \<not> a_bind k then (False, (srv, (objs, fd_close fd e)))
        else if \<not> a_listen k then (False, (srv, (objs, fd_close fd e)))
        else (True, (srv\<lparr>listen_port := (case a_getsockname k of Some p \<Rightarrow> p | None \<Rightarrow> port (opts srv)),
                          listen_fd := fd\<rparr>, (objs, e))))"

text \<open>
  \<open>start\<close> up to the call of the main loop: one loop for each \<open>io_threads\<close>, started in its thread, and the
  acceptor registered with the main loop.
\<close>

definition start_loop :: "task lstate \<Rightarrow> task lstate" where
  "start_loop s = (fst s, (snd s)\<lparr>loop := (loop (snd s))\<lparr>looping := True\<rparr>\<rparr>)"

definition Server_start :: "socket_answers \<Rightarrow> (nat \<Rightarrow> world \<times> int \<times> int) \<Rightarrow> system \<Rightarrow> bool \<times> system" where
  "Server_start k boot sy =
     (case initListenSocket k sy of (ok, (srv, (objs, e))) \<Rightarrow>
        if \<not> ok then (False, (srv, (objs, e)))
        else
          let subs = map (\<lambda>i. case boot i of (w, fds) \<Rightarrow> start_loop (new_loop w fds)) [0..<nat (io_threads (opts srv))];
              srv = srv\<lparr>sub_loops := sub_loops srv @ subs\<rparr>;
              e = e\<lparr>loop := setAcceptor (listen_fd srv) (loop e)\<rparr>
          in (True, (srv, start_loop (objs, e))))"

definition quit_loop :: "bool \<Rightarrow> task lstate \<Rightarrow> task lstate" where
  "quit_loop inThread s = (fst s, quit inThread (snd s))"

text \<open>Which thread runs: \<open>isInLoopThread\<close> of a loop compares with it.\<close>

datatype thread = MainThread | SubThread nat | OtherThread

definition Server_stop :: "thread \<Rightarrow> system \<Rightarrow> system" where
  "Server_stop t sy =
     (case sy of (srv, s) \<Rightarrow>
        let s = quit_loop (t = MainThread) s
        in (srv\<lparr>sub_loops := map (\<lambda>k. quit_loop (t = SubThread k) (sub_loops srv ! k)) [0..<length (sub_loops srv)]\<rparr>, s))"

section \<open>Schedules\<close>

definition with_counters :: "ServerCounters \<Rightarrow> task lstate \<Rightarrow> task lstate" where
  "with_counters ct s = (fst s, (snd s)\<lparr>counters := ct\<rparr>)"

definition timers_of :: "task lstate list \<Rightarrow> nat list" where
  "timers_of ls = map (\<lambda>s. pending_timers (loop (snd s))) ls"

text \<open>
  One turn of the main loop; one turn of sub loop \<open>k\<close>. The counters are shared: a sub loop finds them as they
  are and leaves what it has counted.
\<close>

definition main_iteration :: "(u32 \<Rightarrow> string option) \<Rightarrow> filesystem \<Rightarrow> system \<Rightarrow> system option" where
  "main_iteration inet_ntop fs sy =
     (case sy of (srv, s) \<Rightarrow>
        map_option snd (iteration (Server_handleRequest (opts srv) fs (timers_of (sub_loops srv)))
          (onAccept inet_ntop) (attachConnection inet_ntop (opts srv)) sy))"

definition sub_iteration :: "(u32 \<Rightarrow> string option) \<Rightarrow> filesystem \<Rightarrow> nat \<Rightarrow> system \<Rightarrow> system option" where
  "sub_iteration inet_ntop fs k sy =
     (case sy of (srv, m) \<Rightarrow>
        let s = sub_loops srv ! k;
            others = m # take k (sub_loops srv) @ drop (Suc k) (sub_loops srv)
        in case iteration (Server_handleRequest (opts srv) fs (timers_of others)) (\<lambda>xs. xs)
                  (attachConnection inet_ntop (opts srv)) ((), with_counters (counters (snd m)) s) of
             None \<Rightarrow> None
           | Some (t, u, s) \<Rightarrow> Some (srv\<lparr>sub_loops := (sub_loops srv)[k := s]\<rparr>, with_counters (counters (snd s)) m))"

text \<open>The test of \<open>quit_\<close> before every turn: a loop that has been told to quit takes no turn.\<close>

definition main_turn :: "(u32 \<Rightarrow> string option) \<Rightarrow> filesystem \<Rightarrow> system \<Rightarrow> system option" where
  "main_turn inet_ntop fs sy = (if quit_flag (loop (snd (snd sy))) then Some sy else main_iteration inet_ntop fs sy)"

definition sub_turn :: "(u32 \<Rightarrow> string option) \<Rightarrow> filesystem \<Rightarrow> nat \<Rightarrow> system \<Rightarrow> system option" where
  "sub_turn inet_ntop fs k sy =
     (if length (sub_loops (fst sy)) \<le> k \<or> quit_flag (loop (snd (sub_loops (fst sy) ! k))) then Some sy
      else sub_iteration inet_ntop fs k sy)"

fun srv_run :: "(u32 \<Rightarrow> string option) \<Rightarrow> filesystem \<Rightarrow> nat list \<Rightarrow> system \<Rightarrow> system option" where
  "srv_run inet_ntop fs [] sy = Some sy"
| "srv_run inet_ntop fs (n # ns) sy =
     (case (case n of 0 \<Rightarrow> main_turn inet_ntop fs sy | Suc k \<Rightarrow> sub_turn inet_ntop fs k sy) of
        None \<Rightarrow> None | Some sy \<Rightarrow> srv_run inet_ntop fs ns sy)"

section \<open>Attaching a connection\<close>

lemma fd_alloc_fresh: "fd_alloc used \<notin> set used \<and> 0 \<le> fd_alloc used"
proof -
  have "\<not> set (map int [0..<Suc (length used)]) \<subseteq> set used"
  proof
    assume "set (map int [0..<Suc (length used)]) \<subseteq> set used"
    then have "card (set (map int [0..<Suc (length used)])) \<le> card (set used)" by (rule card_mono [rotated]) simp
    moreover have "distinct (map int [0..<Suc (length used)])"
      unfolding distinct_map using inj_on_subset [OF inj_of_nat] by (auto simp del: upt_Suc)
    then have "card (set (map int [0..<Suc (length used)])) = Suc (length used)"
      by (simp only: distinct_card length_map length_upt)
    ultimately show False using card_length [of used] by linarith
  qed
  then obtain x where "x \<in> set (map int [0..<Suc (length used)])" "x \<notin> set used" by blast
  then have "filter (\<lambda>fd. fd \<notin> set used) (map int [0..<Suc (length used)]) \<noteq> []"
    unfolding filter_empty_conv by blast
  then have "fd_alloc used \<in> set (filter (\<lambda>fd. fd \<notin> set used) (map int [0..<Suc (length used)]))"
    unfolding fd_alloc_def by (rule hd_in_set)
  then show ?thesis by (auto simp del: upt_Suc)
qed

lemma Connection_new_facts:
  assumes "Connection_new inet_ntop i fd a to e = (c, e1)"
  shows "\<exists>t. env_now e = (t, e1)" "c_fd c = fd" "oid c = i" "\<not> is_closed c" "\<not> writing c" "idle_timer c = 0"
    "buf_inv (inbuf c)" "buf_inv (outbuf c)" "parser_ok (parser c)"
  using assms by (auto simp: Connection_new_def Let_def split: prod.splits)

text \<open>
  Attaching a descriptor that the loop does not know yet keeps the loop's invariant, and adds exactly
  one open connection.
\<close>

lemma register_facts:
  assumes "loop_inv (objs, e)" "0 \<le> fd" "connections (loop e) fd = None" "fd \<noteq> wakeup_fd (loop e)" "fd \<noteq> acceptor_fd (loop e)"
    and "env_now e = (t, e1)"
    and e2_def: "e2 = on_poller (Epoller_add fd (EPOLLIN OR EPOLLET OR EPOLLRDHUP)) (e1\<lparr>loop := addConnection fd i (loop e1)\<rparr>)"
  shows "putConnection fd i (objs, e1) = (objs, e1\<lparr>loop := addConnection fd i (loop e1)\<rparr>)"
    "interest (poller (loop e2)) = (interest (poller (loop e)))(fd \<mapsto> kConnBaseEvents)"
    "connections (loop e2) = (connections (loop e))(fd \<mapsto> i)" "timers (loop e2) = timers (loop e)"
    "epfd (poller (loop e2)) = epfd (poller (loop e))" "loop_same e e2" "counters e2 = counters e" "closed_fds (sys e2) = closed_fds (sys e)"
proof -
  note e1 = env_now_facts [OF assms(6)]
  have free_i: "interest (poller (loop e)) fd = None" using assms(1-5) by (auto simp: loop_inv_def)
  have ep: "0 \<le> epfd (poller (loop e))" using assms(1) by (simp add: loop_inv_def loop_ok_def)
  show "putConnection fd i (objs, e1) = (objs, e1\<lparr>loop := addConnection fd i (loop e1)\<rparr>)"
    using assms(3) e1 by (simp add: putConnection_def findConnection_def Let_def)
  show "interest (poller (loop e2)) = (interest (poller (loop e)))(fd \<mapsto> kConnBaseEvents)"
    "connections (loop e2) = (connections (loop e))(fd \<mapsto> i)" "timers (loop e2) = timers (loop e)"
    "epfd (poller (loop e2)) = epfd (poller (loop e))" "loop_same e e2" "counters e2 = counters e" "closed_fds (sys e2) = closed_fds (sys e)"
    using epoll.add_new [OF ep assms(2) free_i] e1
    by (simp_all add: e2_def on_poller_def addConnection_def kConnBaseEvents_def loop_same_def frame_simps)
qed

lemma attach_inv:
  assumes inv: "loop_inv (objs, e)" and fd: "0 \<le> fd" "fd \<notin> set (open_fds objs)"
    and own: "fd \<noteq> wakeup_fd (loop e)" "fd \<noteq> acceptor_fd (loop e)"
    and r: "attachConnection inet_ntop cfg (Attach fd a) (objs, e) = (objs', e')"
  shows "loop_inv (objs', e') \<and> open_fds objs' = open_fds objs @ [fd] \<and>
    loop_same (e\<lparr>counters := (counters e)\<lparr>opened := opened (counters e) + 1, accepted := accepted (counters e) + 1\<rparr>\<rparr>) e' \<and>
    closed (counters e') = closed (counters e) \<and> closed_fds (sys e') = closed_fds (sys e) \<and>
    (idle_cover (objs, e) \<longrightarrow> idle_cover (objs', e'))"
proof -
  obtain c e1 where n: "Connection_new inet_ntop (length objs) fd a (opt_idle_timeout_s cfg) e = (c, e1)" by fastforce
  note c = Connection_new_facts [OF n]
  obtain t where t: "env_now e = (t, e1)" using c(1) by blast
  have free: "connections (loop e) fd = None" using loop_inv_table [OF inv, of fd] fd(2) by simp
  have ep: "0 \<le> epfd (poller (loop e))" "timer_inv (timers (loop e))" using inv by (simp_all add: loop_inv_def loop_ok_def)
  let ?c = "c\<lparr>shared := True\<rparr>"
  define e2 where "e2 = on_poller (Epoller_add fd (EPOLLIN OR EPOLLET OR EPOLLRDHUP)) (e1\<lparr>loop := addConnection fd (length objs) (loop e1)\<rparr>)"
  note reg = register_facts [OF inv fd(1) free own t e2_def]
  note put = reg(1) and l2 = reg(2-8)
  have ok: "conn_ok ?c e2"
    using c(2-9) l2(1-4) fd(1) ep by (simp add: conn_ok_def loop_ok_def conn_events_def timer_inv_def)
  obtain c3 e3 where arm: "armIdleTimer ?c e2 = (c3, e3)" by fastforce
  have st: "conn_step ?c e2 (c3, e3)" using arm_act.act_step [OF ok] arm by simp
  have res: "objs' = objs @ [Some c3]" "e' = bump (opened_update (\<lambda>n. n + 1)) (bump (accepted_update (\<lambda>n. n + 1)) e3)"
    using r n put arm by (auto simp: attachConnection_def Let_def e2_def)
  have c3: "conn_ok c3 e3" "oid c3 = length objs" "shared c3" "others_same fd e2 e3" "loop_frame e2 e3"
      "connections (loop e3) \<subseteq>\<^sub>m connections (loop e2)" "\<not> is_closed c3 \<Longrightarrow> c_fd c3 = fd"
      "next_id (timers (loop e2)) \<le> next_id (timers (loop e3))"
    using st c(2,3) by (auto simp: conn_step_def)
  have op: "\<not> is_closed c3" using arm c(4) by (auto simp: armIdleTimer_def split: if_splits prod.splits)
  have cl: "closed (counters e3) = closed (counters e)" "closed_fds (sys e3) = closed_fds (sys e)"
    using st op l2(6,7) by (simp_all add: conn_step_def)
  have cov: "idle_cover (objs', e')" if "idle_cover (objs, e)"
  proof -
    have "covered ((obj objs)(length objs \<mapsto> c3)) (timers (loop e3))"
      by (rule covered_arm [OF _ _ _ _ _ _ _ arm]) (use that c(3,4,6) l2(3) ep(2) in \<open>simp_all add: idle_cover_def obj_def\<close>)
    then show ?thesis by (simp add: idle_cover_def res bump_def obj_append)
  qed
  have fd3: "c_fd c3 = fd" "connections (loop e3) fd = Some (length objs)"
    using c3(7) op c3(1,2) by (auto simp: conn_ok_def)
  have inv3: "loop_inv (objs @ [Some c3], e3)"
  proof (rule loop_inv_one [OF inv, where i = "length objs" and x = "Some c3"])
    show "connections (loop e) fd = Some (length objs) \<or> connections (loop e) fd = None \<and> obj objs (length objs) = None"
      using free by (simp add: obj_def)
    show "connections (loop e) f = Some j" if "connections (loop e3) f = Some j" "f \<noteq> fd" for f j
      using c3(6) that l2(2) by (auto simp: map_le_def dom_def)
  qed (use c3 op fd3 l2 in \<open>auto simp: obj_append conn_ok_def others_same_def loop_frame_def loop_same_def\<close>)
  have "loop_inv (objs', e')"
    unfolding res bump_def by (rule loop_inv_cong [OF inv3]) (use loop_inv_timers [OF inv3] in simp_all)
  with res fd3(1) cl c3(5) l2(5) cov show ?thesis
    by (simp add: bump_def loop_same_def loop_frame_def)
qed

section \<open>The invariant of the whole server\<close>

text \<open>
  \<open>L\<close> holds all loops, \<open>todo\<close> the tasks that one of them has taken off its queue and not yet run. Every
  descriptor of a connection, attached or on its way to a loop, belongs to exactly one loop and is none
  of the server's own; the counters agree with the tables; and the descriptors \<open>N\<close> that the kernel has
  handed out so far are those that have been closed, those attached and those on their way.
\<close>

definition conn_fds :: "task list \<Rightarrow> task lstate multiset \<Rightarrow> int multiset" where
  "conn_fds todo L = mset (map task_fd todo) + (\<Sum>s\<in>#L. mset (loop_fds s))"

definition reserved :: "int \<Rightarrow> task lstate multiset \<Rightarrow> int set" where
  "reserved lfd L = {0, 1, 2, lfd} \<union> (\<Union>s\<in>set_mset L. set (own_fds s))"

definition open_count :: "task lstate multiset \<Rightarrow> nat" where
  "open_count L = (\<Sum>s\<in>#L. length (open_fds (fst s)))"

definition closed_in :: "task lstate multiset \<Rightarrow> int multiset" where
  "closed_in L = (\<Sum>s\<in>#L. mset (closed_fds (sys (snd s))))"

definition fds_ok :: "int \<Rightarrow> task list \<Rightarrow> task lstate multiset \<Rightarrow> bool" where
  "fds_ok lfd todo L \<longleftrightarrow> (\<forall>fd. count (conn_fds todo L) fd \<le> 1) \<and>
     (\<forall>fd \<in># conn_fds todo L. 0 \<le> fd \<and> fd \<notin> reserved lfd L)"

definition srv_inv :: "int \<Rightarrow> int multiset \<Rightarrow> ServerCounters \<Rightarrow> task list \<Rightarrow> task lstate multiset \<Rightarrow> bool" where
  "srv_inv lfd N ct todo L \<longleftrightarrow>
     (\<forall>s \<in># L. loop_inv s \<and> idle_cover s \<and> acceptor_fd (loop (snd s)) \<in> {lfd, - 1}) \<and> fds_ok lfd todo L \<and>
     opened ct - closed ct = of_nat (open_count L) \<and> accepted ct = opened ct \<and>
     closed_in L + conn_fds todo L = N"

lemma fds_ok_subset:
  assumes "fds_ok lfd todo L" "conn_fds todo' L' \<subseteq># conn_fds todo L" "reserved lfd L' = reserved lfd L"
  shows "fds_ok lfd todo' L'"
proof -
  have "count (conn_fds todo' L') fd \<le> 1" for fd
    using assms(1) mset_subset_eq_count [OF assms(2), of fd] order_trans unfolding fds_ok_def by blast
  with assms show ?thesis by (auto simp: fds_ok_def dest: mset_subset_eqD)
qed

lemma srv_inv_step:
  assumes inv: "srv_inv lfd N (counters (snd s)) todo (add_mset s L)" and st: "loop_step s s'"
  shows "srv_inv lfd N (counters (snd s')) todo (add_mset s' L)"
proof -
  obtain objs e objs' e' where s: "s = (objs, e)" "s' = (objs', e')" by (cases s; cases s')
  have st': "loop_inv s'" "loop_same e e'" "mset (open_fds objs') \<subseteq># mset (open_fds objs)"
      "closed (counters e') + of_nat (length (open_fds objs')) = closed (counters e) + of_nat (length (open_fds objs))"
      "mset (closed_fds (sys e')) + mset (open_fds objs') = mset (closed_fds (sys e)) + mset (open_fds objs)"
      "idle_cover s \<longrightarrow> idle_cover s'"
    using st by (simp_all add: loop_step_def loop_move_def s)
  have "fds_ok lfd todo (add_mset s' L)"
  proof (rule fds_ok_subset)
    show "conn_fds todo (add_mset s' L) \<subseteq># conn_fds todo (add_mset s L)"
      using st'(2,3) by (simp add: conn_fds_def loop_fds_def s loop_same_def)
    show "reserved lfd (add_mset s' L) = reserved lfd (add_mset s L)"
      using st'(2) by (simp add: reserved_def own_fds_def s loop_same_def)
  qed (use inv in \<open>simp add: srv_inv_def\<close>)
  moreover have "opened (counters e') - closed (counters e') = of_nat (open_count (add_mset s' L))"
    using inv st'(2,4) by (simp add: srv_inv_def open_count_def s loop_same_def algebra_simps)
  moreover have "closed_in (add_mset s' L) + conn_fds todo (add_mset s' L) = closed_in (add_mset s L) + conn_fds todo (add_mset s L)"
    using st'(2,5) by (simp add: closed_in_def conn_fds_def loop_fds_def s loop_same_def)
  ultimately show ?thesis
    using inv st'(1,2,6) by (auto simp: srv_inv_def s loop_same_def)
qed

lemma srv_inv_take:
  "srv_inv lfd N ct [] (add_mset (objs, e) L) \<Longrightarrow>
   srv_inv lfd N ct (pending (loop e)) (add_mset (objs, e\<lparr>loop := (loop e)\<lparr>calling_pending := True, pending := []\<rparr>\<rparr>) L)"
proof -
  assume inv: "srv_inv lfd N ct [] (add_mset (objs, e) L)"
  let ?e = "e\<lparr>loop := (loop e)\<lparr>calling_pending := True, pending := []\<rparr>\<rparr>"
  have "loop_inv (objs, e)" using inv by (simp add: srv_inv_def)
  then have "loop_inv (objs, ?e)" by (rule loop_inv_cong) (use loop_inv_timers [OF \<open>loop_inv (objs, e)\<close>] in simp_all)
  moreover have "fds_ok lfd (pending (loop e)) (add_mset (objs, ?e) L)"
    by (rule fds_ok_subset [of lfd "[]" "add_mset (objs, e) L"])
      (use inv in \<open>simp_all add: srv_inv_def conn_fds_def loop_fds_def reserved_def own_fds_def\<close>)
  ultimately show ?thesis
    using inv by (simp add: srv_inv_def open_count_def closed_in_def conn_fds_def loop_fds_def idle_cover_def ac_simps)
qed

lemma srv_inv_attach:
  assumes inv: "srv_inv lfd N (counters (snd s)) (t # todo) (add_mset s L)"
  shows "srv_inv lfd N (counters (snd (attachConnection inet_ntop cfg t s))) todo (add_mset (attachConnection inet_ntop cfg t s) L)"
proof -
  obtain objs e fd a where s: "s = (objs, e)" "t = Attach fd a" by (cases s; cases t)
  obtain objs' e' where r: "attachConnection inet_ntop cfg t s = (objs', e')" by fastforce
  let ?M = "conn_fds (t # todo) (add_mset s L)"
  have ok: "\<forall>fd. count ?M fd \<le> 1" "\<forall>fd \<in># ?M. 0 \<le> fd \<and> fd \<notin> reserved lfd (add_mset s L)"
    using inv by (auto simp: srv_inv_def fds_ok_def)
  have "count ?M fd = Suc (count (conn_fds todo (add_mset s L)) fd)" by (simp add: conn_fds_def s task_fd_def)
  with ok(1) have "count (conn_fds todo (add_mset s L)) fd = 0" by (metis Suc_le_mono le_zero_eq One_nat_def)
  then have new: "fd \<notin> set (open_fds objs)" by (auto simp: conn_fds_def loop_fds_def s count_eq_zero_iff)
  have "fd \<in># ?M" by (simp add: conn_fds_def s task_fd_def)
  with ok(2) have nn: "0 \<le> fd" "fd \<notin> reserved lfd (add_mset s L)" by auto
  have li: "loop_inv (objs, e)" "acceptor_fd (loop e) \<in> {lfd, - 1}" using inv by (auto simp: srv_inv_def s)
  have own: "fd \<noteq> wakeup_fd (loop e)" "fd \<noteq> acceptor_fd (loop e)" using nn li(2) by (auto simp: reserved_def own_fds_def s)
  note A = attach_inv [OF li(1) nn(1) new own r [unfolded s]]
  have "fds_ok lfd todo (add_mset (objs', e') L)"
    by (rule fds_ok_subset [of lfd "t # todo" "add_mset s L"])
      (use inv A in \<open>simp_all add: srv_inv_def conn_fds_def loop_fds_def reserved_def own_fds_def s task_fd_def loop_same_def\<close>)
  moreover have "opened (counters e') - closed (counters e') = of_nat (open_count (add_mset (objs', e') L))"
    using inv A by (simp add: srv_inv_def open_count_def s loop_same_def algebra_simps)
  moreover have "closed_in (add_mset (objs', e') L) + conn_fds todo (add_mset (objs', e') L) = closed_in (add_mset s L) + conn_fds (t # todo) (add_mset s L)"
    using A by (simp add: closed_in_def conn_fds_def loop_fds_def s task_fd_def loop_same_def)
  ultimately show ?thesis
    using inv A li(2) by (simp add: r) (simp add: srv_inv_def s loop_same_def)
qed

lemma srv_inv_fresh:
  assumes "srv_inv lfd N ct todo L" "fd \<notin># conn_fds todo L" "fd \<notin> reserved lfd L" "0 \<le> fd"
  shows "srv_inv lfd (add_mset fd N) ct (Attach fd a # todo) L"
proof -
  have "conn_fds (Attach fd a # todo) L = add_mset fd (conn_fds todo L)" by (simp add: conn_fds_def task_fd_def)
  with assms show ?thesis by (auto simp: srv_inv_def fds_ok_def not_in_iff)
qed

lemma srv_inv_queue:
  assumes inv: "srv_inv lfd N ct (t # todo) (add_mset (objs, e) L)"
  shows "srv_inv lfd N ct todo (add_mset (objs, queueInLoop inThread t e) L)"
proof -
  let ?e = "queueInLoop inThread t e"
  have q: "pending (loop ?e) = pending (loop e) @ [t]" "connections (loop ?e) = connections (loop e)" "poller (loop ?e) = poller (loop e)"
      "timers (loop ?e) = timers (loop e)" "wakeup_fd (loop ?e) = wakeup_fd (loop e)" "acceptor_fd (loop ?e) = acceptor_fd (loop e)"
    by (simp_all add: queueInLoop_def wakeup_def Let_def)
  have li: "loop_inv (objs, e)" using inv by (simp add: srv_inv_def)
  have "loop_inv (objs, ?e)" by (rule loop_inv_cong [OF li]) (simp_all add: q loop_inv_timers [OF li])
  moreover have "fds_ok lfd todo (add_mset (objs, ?e) L)"
    by (rule fds_ok_subset [of lfd "t # todo" "add_mset (objs, e) L"])
      (use inv in \<open>simp_all add: srv_inv_def conn_fds_def loop_fds_def reserved_def own_fds_def q\<close>)
  moreover have "sys ?e = (sys e)\<lparr>eventfd := eventfd (sys ?e)\<rparr>" by (simp add: queueInLoop_def wakeup_def Let_def)
  then have "closed_fds (sys ?e) = closed_fds (sys e)" by (metis world.simps(5) world.update_convs(6) world.surjective world.select_convs(5))
  ultimately show ?thesis
    using inv q by (simp add: srv_inv_def open_count_def closed_in_def conn_fds_def loop_fds_def idle_cover_def)
qed

text \<open>A descriptor that is closed as soon as it has been accepted.\<close>

lemma srv_inv_refuse:
  assumes inv: "srv_inv lfd N (counters e) todo (add_mset (objs, e) L)"
  shows "srv_inv lfd (add_mset fd N) (counters (fd_close fd (bump (errors_update (\<lambda>n. n + 1)) e))) todo
    (add_mset (objs, fd_close fd (bump (errors_update (\<lambda>n. n + 1)) e)) L)"
proof -
  let ?e = "fd_close fd (bump (errors_update (\<lambda>n. n + 1)) e)"
  have l: "loop ?e = loop e" "closed_fds (sys ?e) = closed_fds (sys e) @ [fd]" by (simp_all add: fd_close_def bump_def)
  have li: "loop_inv (objs, e)" using inv by (simp add: srv_inv_def)
  have "loop_inv (objs, ?e)" by (rule loop_inv_cong [OF li]) (simp_all add: l loop_inv_timers [OF li])
  moreover have "fds_ok lfd todo (add_mset (objs, ?e) L)"
    by (rule fds_ok_subset [of lfd todo "add_mset (objs, e) L"])
      (use inv in \<open>simp_all add: srv_inv_def conn_fds_def loop_fds_def reserved_def own_fds_def l\<close>)
  ultimately show ?thesis
    using inv l by (simp add: srv_inv_def open_count_def closed_in_def conn_fds_def loop_fds_def idle_cover_def)
      (simp add: fd_close_def bump_def)
qed

definition main_inv :: "task list \<Rightarrow> system \<Rightarrow> bool" where
  "main_inv todo sy \<longleftrightarrow> (case sy of (srv, s) \<Rightarrow>
     srv_inv (listen_fd srv) (mset (granted srv)) (counters (snd s)) todo (add_mset s (mset (sub_loops srv))))"

lemma set_used_fds:
  "set (used_fds (srv, s)) =
     reserved (listen_fd srv) (add_mset s (mset (sub_loops srv))) \<union> set_mset (conn_fds [] (add_mset s (mset (sub_loops srv))))"
  by (auto simp: used_fds_def reserved_def conn_fds_def)

lemma runInLoop_queues: "runInLoop run False t s = (fst s, queueInLoop False t (snd s))"
  by (simp add: runInLoop_def)

text \<open>What holds before \<open>onAccept\<close> and through each thing it does with a peer holds after it.\<close>

lemma onAccept_rule:
  assumes start: "P sy"
    and skip: "\<And>srv s rest. P (srv, s) \<Longrightarrow> P (srv\<lparr>accepts := rest\<rparr>, s)"
    and refuse: "\<And>srv objs e fd. P (srv, (objs, e)) \<Longrightarrow> max_connections (opts srv) \<le> activeConnections (counters e) \<Longrightarrow>
      P (srv\<lparr>granted := granted srv @ [fd]\<rparr>, (objs, fd_close fd (bump (errors_update (\<lambda>n. n + 1)) e)))"
    and here: "\<And>srv s fd a srv'. P (srv, s) \<Longrightarrow> fd \<notin> set (used_fds (srv, s)) \<Longrightarrow> 0 \<le> fd \<Longrightarrow>
      activeConnections (counters (snd s)) < max_connections (opts srv) \<Longrightarrow> pickSubLoop (srv\<lparr>granted := granted srv @ [fd]\<rparr>) = (None, srv') \<Longrightarrow>
      P (srv', runInLoop (attachConnection inet_ntop (opts srv')) True (Attach fd a) s)"
    and there: "\<And>srv s fd a k srv'. P (srv, s) \<Longrightarrow> fd \<notin> set (used_fds (srv, s)) \<Longrightarrow> 0 \<le> fd \<Longrightarrow>
      activeConnections (counters (snd s)) < max_connections (opts srv) \<Longrightarrow> pickSubLoop (srv\<lparr>granted := granted srv @ [fd]\<rparr>) = (Some k, srv') \<Longrightarrow>
      P (srv'\<lparr>sub_loops := (sub_loops srv')[k :=
           runInLoop (attachConnection inet_ntop (opts srv')) False (Attach fd a) (sub_loops srv' ! k)]\<rparr>, s)"
  shows "P (onAccept inet_ntop sy)"
  using assms
proof (induction inet_ntop sy rule: onAccept.induct)
  case (1 inet_ntop sy)
  obtain srv objs e where sy: "sy = (srv, (objs, e))" by (metis prod.collapse)
  obtain r rest where ac: "accept4 (used_fds sy) (accepts srv) = (r, rest)" by fastforce
  let ?got = "case r of Inl _ \<Rightarrow> [] | Inr (fd, _) \<Rightarrow> [fd]"
  let ?srv = "srv\<lparr>accepts := rest\<rparr>" and ?srv' = "srv\<lparr>accepts := rest, granted := granted srv @ ?got\<rparr>" and ?s = "(objs, e)"
  note step = onAccept.simps [of inet_ntop "(srv, (objs, e))"] and close = "1.prems"(2-)
  have P': "P (?srv, ?s)" using "1.prems"(1,2) sy by simp
  show ?case
  proof (cases r)
    case (Inl er)
    have same: "?srv' = ?srv" using Inl by (cases srv) simp
    have "P (onAccept inet_ntop (?srv', ?s))" if "er = EINTR"
      using "1.IH"(1) [OF sy [symmetric] refl ac [symmetric] refl Inl _ that _ close] that P' same by simp
    then show ?thesis using sy ac Inl P' same by (simp add: step Let_def)
  next
    case (Inr fa)
    obtain fd a where fa: "fa = (fd, a)" by (cases fa)
    have g: "?srv' = ?srv\<lparr>granted := granted ?srv @ [fd]\<rparr>" using Inr fa by (cases srv) simp
    have "fd = fd_alloc (used_fds sy)" using ac Inr fa by (cases "(used_fds sy, accepts srv)" rule: accept4.cases) auto
    then have fd: "fd \<notin> set (used_fds (?srv, ?s))" "0 \<le> fd"
      using fd_alloc_fresh [of "used_fds sy"] by (auto simp: sy used_fds_def)
    show ?thesis
    proof (cases "max_connections (opts ?srv') \<le> activeConnections (counters e)")
      case True
      have "P (onAccept inet_ntop (?srv', (objs, fd_close fd (bump (errors_update (\<lambda>n. n + 1)) e))))"
        by (rule "1.IH"(2) [OF sy [symmetric] refl ac [symmetric] refl Inr fa [symmetric] True _ close])
          (use "1.prems"(3) [OF P', of fd] True g in simp)
      then show ?thesis using sy ac Inr fa True by (simp add: step)
    next
      case False
      obtain ko srv' where p: "pickSubLoop ?srv' = (ko, srv')" by fastforce
      note IH = "1.IH"(3,4) [OF sy [symmetric] refl ac [symmetric] refl Inr fa [symmetric] False p [symmetric]]
      have room: "activeConnections (counters (snd ?s)) < max_connections (opts ?srv)" using False by simp
      show ?thesis
      proof (cases ko)
        case None
        from IH(1) [OF None "1.prems"(4) [OF P' fd room p [unfolded None g]] close] sy ac Inr fa False p None
        show ?thesis by (simp add: step)
      next
        case (Some k)
        from IH(2) [OF Some "1.prems"(5) [OF P' fd room p [unfolded Some g]] close] sy ac Inr fa False p Some
        show ?thesis by (simp add: step)
      qed
    qed
  qed
qed

lemma main_inv_fresh:
  assumes "main_inv [] (srv, s)" "fd \<notin> set (used_fds (srv, s))" "0 \<le> fd"
  shows "srv_inv (listen_fd srv) (mset (granted srv @ [fd])) (counters (snd s)) [Attach fd a] (add_mset s (mset (sub_loops srv)))"
  using srv_inv_fresh [of "listen_fd srv" "mset (granted srv)" "counters (snd s)" "[]" "add_mset s (mset (sub_loops srv))" fd a]
    assms set_used_fds [of srv s] by (auto simp: main_inv_def)

lemma onAccept_inv: "main_inv [] sy \<Longrightarrow> main_inv [] (onAccept inet_ntop sy)"
proof (rule onAccept_rule [where P = "main_inv []"], goal_cases)
  case (3 srv objs e fd)
  with srv_inv_refuse [of "listen_fd srv" "mset (granted srv)" e "[]" objs "mset (sub_loops srv)" fd] show ?case
    by (simp add: main_inv_def)
next
  case (4 srv s fd a srv')
  note new = main_inv_fresh [OF 4(2-4), of a] and pf = pickSubLoop_frame [OF 4(6)]
  have "counters (queueInLoop True (Attach fd a) (snd s)) = counters (snd s)" by (simp add: queueInLoop_def wakeup_def Let_def)
  with srv_inv_attach [OF new] srv_inv_queue [of _ _ _ _ _ "fst s" "snd s"] new pf show ?case
    by (simp add: main_inv_def runInLoop_def)
next
  case (5 srv s fd a k srv')
  note new = main_inv_fresh [OF 5(2-4), of a] and pf = pickSubLoop_frame [OF 5(6)]
  have k: "k < length (sub_loops srv)" using 5(6) by (auto simp: pickSubLoop_def split: if_splits)
  let ?rest = "mset (sub_loops srv) - {#sub_loops srv ! k#}"
  have "mset (sub_loops srv) = add_mset (sub_loops srv ! k) ?rest" using k by (simp add: insert_DiffM)
  with new have "srv_inv (listen_fd srv) (mset (granted srv @ [fd])) (counters (snd s)) [Attach fd a]
      (add_mset (fst (sub_loops srv ! k), snd (sub_loops srv ! k)) (add_mset s ?rest))"
    by (simp add: add_mset_commute)
  from srv_inv_queue [OF this, of False] pf k show ?case
    by (simp add: main_inv_def runInLoop_queues mset_update add_mset_commute)
qed (simp_all add: main_inv_def)

section \<open>The server as the client of its loops\<close>

interpretation main_client: loop_client "onAccept inet_ntop" "attachConnection inet_ntop cfg" main_inv for inet_ntop cfg
proof (unfold_locales, goal_cases)
  case (1 todo srv s)
  then show ?case by (simp add: main_inv_def srv_inv_def)
next
  case (2 todo srv s s')
  then show ?case by (simp add: main_inv_def srv_inv_step)
next
  case (3 srv objs e)
  then show ?case by (simp add: onAccept_inv)
next
  case (4 srv objs e)
  then show ?case by (simp add: main_inv_def srv_inv_take)
next
  case (5 t todo srv s)
  then show ?case by (simp add: main_inv_def srv_inv_attach)
qed

text \<open>The same for a sub loop, which has no acceptor; \<open>L\<close> are the other loops.\<close>

definition sub_inv :: "int \<Rightarrow> int multiset \<Rightarrow> task lstate multiset \<Rightarrow> task list \<Rightarrow> unit \<times> task lstate \<Rightarrow> bool" where
  "sub_inv lfd N L todo us \<longleftrightarrow> srv_inv lfd N (counters (snd (snd us))) todo (add_mset (snd us) L)"

interpretation sub_client: loop_client "\<lambda>us. us" "attachConnection inet_ntop cfg" "sub_inv lfd N L" for inet_ntop cfg lfd N L
proof (unfold_locales, goal_cases)
  case (1 todo u s)
  then show ?case by (simp add: sub_inv_def srv_inv_def)
next
  case (2 todo u s s')
  then show ?case by (simp add: sub_inv_def srv_inv_step)
next
  case (4 u objs e)
  then show ?case by (simp add: sub_inv_def srv_inv_take)
next
  case (5 t todo u s)
  then show ?case by (simp add: sub_inv_def srv_inv_attach)
qed

lemma with_counters_simps [simp]:
  "counters (snd (with_counters ct s)) = ct" "loop (snd (with_counters ct s)) = loop (snd s)" "fst (with_counters ct s) = fst s"
  "sys (snd (with_counters ct s)) = sys (snd s)"
  by (simp_all add: with_counters_def)

lemma loop_inv_with_counters [simp]: "loop_inv (with_counters ct s) = loop_inv s"
proof -
  obtain objs e where s: "s = (objs, e)" by (cases s)
  have "conn_ok c (e\<lparr>counters := ct\<rparr>) = conn_ok c e" for c by (simp add: conn_ok_def loop_ok_def)
  then show ?thesis by (simp add: s with_counters_def loop_inv_def loop_ok_def)
qed

lemma srv_inv_with_counters: "srv_inv lfd N ct todo (add_mset (with_counters ct' s) L) = srv_inv lfd N ct todo (add_mset s L)"
proof -
  have f: "loop_fds (with_counters ct' s) = loop_fds s" "own_fds (with_counters ct' s) = own_fds s"
    by (simp_all add: loop_fds_def own_fds_def)
  show ?thesis
    by (simp add: srv_inv_def fds_ok_def conn_fds_def reserved_def open_count_def closed_in_def idle_cover_def f)
qed

text \<open>
  The descriptors that the server itself owns: the listening socket, and the epoll and event descriptors of
  its loops. They stay what they are in every turn.
\<close>

definition server_fds :: "system \<Rightarrow> int list" where
  "server_fds sy = listen_fd (fst sy) # concat (map own_fds (snd sy # sub_loops (fst sy)))"

lemma own_fds_with_counters [simp]: "own_fds (with_counters ct s) = own_fds s"
  by (simp add: own_fds_def)

lemma own_fds_step: "loop_step s s' \<Longrightarrow> own_fds s' = own_fds s"
  by (cases s; cases s') (simp add: loop_step_def loop_move_def loop_same_def own_fds_def)

lemma attach_frame:
  "own_fds (attachConnection inet_ntop cfg t s) = own_fds s \<and>
   pending (loop (snd (attachConnection inet_ntop cfg t s))) = pending (loop (snd s))"
proof -
  obtain fd a objs e where s: "t = Attach fd a" "s = (objs, e)" by (cases t; cases s)
  obtain c e1 where n: "Connection_new inet_ntop (length objs) fd a (opt_idle_timeout_s cfg) e = (c, e1)" by fastforce
  obtain objs2 e2 where p: "putConnection fd (length objs) (objs, e1) = (objs2, e2)" by fastforce
  let ?e3 = "on_poller (Epoller_add fd (EPOLLIN OR EPOLLET OR EPOLLRDHUP)) e2"
  obtain c4 e4 where ar: "armIdleTimer (c\<lparr>shared := True\<rparr>) ?e3 = (c4, e4)" by fastforce
  have "loop e1 = loop e" using n by (auto simp: Connection_new_def Let_def env_now_def split: prod.splits)
  moreover have "own_fds (x, e2) = own_fds (x, e1) \<and> pending (loop e2) = pending (loop e1)" for x
    using p by (auto simp: putConnection_def Let_def own_fds_def addConnection_def Connection_destroy_def on_poller_def fd_close_def
        frame_simps split: option.splits if_splits)
  moreover have "own_fds (x, ?e3) = own_fds (x, e2) \<and> pending (loop ?e3) = pending (loop e2)" for x by (simp add: own_fds_def on_poller_def frame_simps)
  moreover have "own_fds (x, e4) = own_fds (x, ?e3) \<and> pending (loop e4) = pending (loop ?e3)" for x
    using ar by (auto simp: armIdleTimer_def own_fds_def env_now_def Let_def split: if_splits prod.splits)
  ultimately show ?thesis using n p ar by (simp add: attachConnection_def s own_fds_def bump_def)
qed

lemmas own_fds_attach [simp] = attach_frame [THEN conjunct1]
lemmas attach_pending = attach_frame [THEN conjunct2]

lemma own_fds_run [simp]: "own_fds (runInLoop (attachConnection inet_ntop cfg) here t s) = own_fds s"
proof -
  have "own_fds (fst s, queueInLoop here t (snd s)) = own_fds s" by (simp add: queueInLoop_def wakeup_def own_fds_def Let_def)
  then show ?thesis by (simp add: runInLoop_def)
qed

lemma server_fds_update: "own_fds l = own_fds (ls ! k) \<Longrightarrow> map own_fds (ls[k := l]) = map own_fds ls"
  by (simp add: map_update list_update_same_conv) (metis list_update_beyond list_update_id map_update not_le)

lemma onAccept_fds: "server_fds (onAccept inet_ntop sy) = server_fds sy"
proof (rule onAccept_rule [where P = "\<lambda>x. server_fds x = server_fds sy"], goal_cases)
  case (3 srv objs e fd)
  then show ?case by (simp add: server_fds_def own_fds_def fd_close_def bump_def)
next
  case (4 srv s fd a srv')
  then show ?case using pickSubLoop_frame [OF 4(5)] by (simp add: server_fds_def)
next
  case (5 srv s fd a k srv')
  then show ?case using pickSubLoop_frame [OF 5(5)] by (simp add: server_fds_def server_fds_update)
qed (simp_all add: server_fds_def)

definition main_keeps :: "int list \<Rightarrow> task list \<Rightarrow> system \<Rightarrow> bool" where
  "main_keeps own todo sy \<longleftrightarrow> main_inv todo sy \<and> server_fds sy = own"

definition sub_keeps :: "int \<Rightarrow> int multiset \<Rightarrow> task lstate multiset \<Rightarrow> int list \<Rightarrow> task list \<Rightarrow> unit \<times> task lstate \<Rightarrow> bool" where
  "sub_keeps lfd N L own todo us \<longleftrightarrow> sub_inv lfd N L todo us \<and> own_fds (snd us) = own"

interpretation main_keeper: loop_client "onAccept inet_ntop" "attachConnection inet_ntop cfg" "main_keeps own" for inet_ntop cfg own
proof (unfold_locales, goal_cases)
  case (1 todo srv s)
  then show ?case using main_client.inv_loop [of todo srv s] by (simp add: main_keeps_def)
next
  case (2 todo srv s s')
  then show ?case using main_client.inv_step [of todo srv s s'] own_fds_step [OF 2(2)] by (simp add: main_keeps_def server_fds_def)
next
  case (3 srv objs e)
  then show ?case by (simp add: main_keeps_def onAccept_inv onAccept_fds)
next
  case (4 srv objs e)
  then show ?case using main_client.take_inv [of srv objs e] by (simp add: main_keeps_def server_fds_def own_fds_def)
next
  case (5 t todo srv s)
  then show ?case using main_client.run_inv [of t todo srv s inet_ntop cfg] by (simp add: main_keeps_def server_fds_def)
qed

interpretation sub_keeper: loop_client "\<lambda>us. us" "attachConnection inet_ntop cfg" "sub_keeps lfd N L own" for inet_ntop cfg lfd N L own
proof (unfold_locales, goal_cases)
  case (1 todo u s)
  then show ?case using sub_client.inv_loop [of lfd N L todo u s] by (simp add: sub_keeps_def)
next
  case (2 todo u s s')
  then show ?case using sub_client.inv_step [of lfd N L todo u s s'] own_fds_step [OF 2(2)] by (simp add: sub_keeps_def)
next
  case (4 u objs e)
  then show ?case using sub_client.take_inv [of lfd N L u objs e] by (simp add: sub_keeps_def own_fds_def)
next
  case (5 t todo u s)
  then show ?case using sub_client.run_inv [of lfd N L t todo u s inet_ntop cfg] by (simp add: sub_keeps_def)
qed

text \<open>Every turn returns, and keeps the invariant and the server's own descriptors.\<close>

lemma main_iteration_inv:
  assumes "main_inv [] sy"
  shows "\<exists>sy'. main_iteration inet_ntop fs sy = Some sy' \<and> main_inv [] sy' \<and> server_fds sy' = server_fds sy"
proof -
  obtain srv s where sy: "sy = (srv, s)" by (cases sy)
  have "main_keeps (server_fds sy) [] (srv, s)" using assms by (simp add: main_keeps_def sy)
  then obtain t sy' where "iteration (Server_handleRequest (opts srv) fs (timers_of (sub_loops srv)))
      (onAccept inet_ntop) (attachConnection inet_ntop (opts srv)) (srv, s) = Some (t, sy')" "main_keeps (server_fds sy) [] sy'"
    using main_keeper.iteration_inv by blast
  then show ?thesis by (intro exI [of _ sy']) (simp add: main_iteration_def main_keeps_def sy)
qed

lemma sub_iteration_inv:
  assumes inv: "main_inv [] sy" and k: "k < length (sub_loops (fst sy))"
  shows "\<exists>sy'. sub_iteration inet_ntop fs k sy = Some sy' \<and> main_inv [] sy' \<and> server_fds sy' = server_fds sy"
proof -
  obtain srv m where sy: "sy = (srv, m)" by (cases sy)
  let ?subs = "sub_loops srv"
  let ?R = "mset ?subs - {#?subs ! k#}" and ?s = "with_counters (counters (snd m)) (?subs ! k)"
  have all: "mset ?subs = add_mset (?subs ! k) ?R" using k by (simp add: sy insert_DiffM)
  from inv have "srv_inv (listen_fd srv) (mset (granted srv)) (counters (snd m)) [] (add_mset ?s (add_mset m ?R))"
    unfolding srv_inv_with_counters using all by (simp add: main_inv_def sy add_mset_commute)
  then have "sub_keeps (listen_fd srv) (mset (granted srv)) (add_mset m ?R) (own_fds (?subs ! k)) [] ((), ?s)"
    by (simp add: sub_keeps_def sub_inv_def)
  from sub_keeper.iteration_inv [OF this] obtain t u s' where it:
    "iteration (Server_handleRequest (opts srv) fs (timers_of (m # take k ?subs @ drop (Suc k) ?subs))) (\<lambda>xs. xs)
       (attachConnection inet_ntop (opts srv)) ((), ?s) = Some (t, u, s')"
    "sub_inv (listen_fd srv) (mset (granted srv)) (add_mset m ?R) [] (u, s')" "own_fds s' = own_fds (?subs ! k)"
    unfolding sub_keeps_def by (metis prod.collapse snd_conv)
  from it(2) have "srv_inv (listen_fd srv) (mset (granted srv)) (counters (snd s')) [] (add_mset (with_counters (counters (snd s')) m) (add_mset s' ?R))"
    unfolding srv_inv_with_counters by (simp add: sub_inv_def add_mset_commute)
  with it(1,3) k show ?thesis
    by (simp add: sub_iteration_def sy Let_def main_inv_def mset_update server_fds_def server_fds_update)
qed

lemma main_turn_inv:
  "main_inv [] sy \<Longrightarrow> \<exists>sy'. main_turn inet_ntop fs sy = Some sy' \<and> main_inv [] sy' \<and> server_fds sy' = server_fds sy"
  using main_iteration_inv [of sy inet_ntop fs] by (cases "quit_flag (loop (snd (snd sy)))") (simp_all add: main_turn_def del: split_paired_Ex)

lemma sub_turn_inv:
  "main_inv [] sy \<Longrightarrow> \<exists>sy'. sub_turn inet_ntop fs k sy = Some sy' \<and> main_inv [] sy' \<and> server_fds sy' = server_fds sy"
  using sub_iteration_inv [of sy k inet_ntop fs]
  by (cases "length (sub_loops (fst sy)) \<le> k \<or> quit_flag (loop (snd (sub_loops (fst sy) ! k)))") (auto simp: sub_turn_def simp del: split_paired_Ex)

lemma srv_run_keeps:
  "main_inv [] sy \<Longrightarrow> \<exists>sy'. srv_run inet_ntop fs schedule sy = Some sy' \<and> main_inv [] sy' \<and> server_fds sy' = server_fds sy"
proof (induction schedule arbitrary: sy)
  case (Cons n ns)
  have "\<exists>sy1. (case n of 0 \<Rightarrow> main_turn inet_ntop fs sy | Suc k \<Rightarrow> sub_turn inet_ntop fs k sy) = Some sy1 \<and>
      main_inv [] sy1 \<and> server_fds sy1 = server_fds sy"
    using main_turn_inv [OF Cons.prems] sub_turn_inv [OF Cons.prems] by (cases n) simp_all
  then obtain sy1 where 1: "(case n of 0 \<Rightarrow> main_turn inet_ntop fs sy | Suc k \<Rightarrow> sub_turn inet_ntop fs k sy) = Some sy1"
      "main_inv [] sy1" "server_fds sy1 = server_fds sy"
    by blast
  from Cons.IH [OF 1(2)] 1(1,3) show ?case by simp
qed simp

lemma srv_run_inv: "main_inv [] sy \<Longrightarrow> \<exists>sy'. srv_run inet_ntop fs schedule sy = Some sy' \<and> main_inv [] sy'"
  using srv_run_keeps by blast

end
