(* ===== verification/Server_Props.thy ===== *)
theory Server_Props
  imports Server
begin

text \<open>
  What the server of \<open>src/server.cpp\<close> guarantees, for every schedule of turns of its loops: consistency of
  all loops, the account of descriptors and connections, the idle timers, the distribution over the sub
  loops and the connection limit.
\<close>

section \<open>Properties\<close>

lemma new_loop_inv: "0 \<le> fst fds \<Longrightarrow> loop_inv (new_loop w fds) \<and> loop_inv (start_loop (new_loop w fds))"
  by (auto simp: new_loop_def start_loop_def loop_inv_def loop_ok_def EventLoop_new_def Epoller_add_def Epoller_ctl_def
      Epoller_new_def)

lemma covered_no_objects [simp]: "covered (obj []) (TimerHeap_new ts)"
  by (simp add: covered_def TimerHeap_new_def live_def)

lemma start_inv:
  assumes "0 \<le> fst fds" "\<And>i. 0 \<le> fst (snd (boot i))"
    and st: "Server_start k boot (Server_new cfg script w fds) = (True, sy)"
  shows "main_inv [] sy \<and> opts (fst sy) = cfg \<and> length (sub_loops (fst sy)) = nat (io_threads cfg) \<and>
    looping (loop (snd (snd sy))) \<and> pending (loop (snd (snd sy))) = [] \<and> fst (snd sy) = [] \<and> accepts (fst sy) = script"
proof -
  define sub where "sub = (\<lambda>i. case boot i of (w, fds) \<Rightarrow> start_loop (new_loop w fds))"
  let ?fd = "a_socket k"
  let ?e = "(snd (new_loop w fds))\<lparr>loop := (setAcceptor ?fd (loop (snd (new_loop w fds))))\<lparr>looping := True\<rparr>\<rparr>"
  obtain p where sy: "sy = (\<lparr>opts = cfg, listen_fd = ?fd, listen_port = p, sub_loops = map sub [0..<nat (io_threads cfg)],
      next_sub = 0, accepts = script, granted = []\<rparr>, ([], ?e))" and fd: "0 \<le> ?fd"
    using st
    by (auto simp: Server_start_def initListenSocket_def Server_new_def Let_def start_loop_def new_loop_def sub_def
        split: if_splits)
  have main: "loop_inv ([], ?e) \<and> acceptor_fd (loop ?e) = ?fd \<and> idle_cover ([], ?e)"
    using assms(1)
    by (auto simp: idle_cover_def new_loop_def loop_inv_def loop_ok_def EventLoop_new_def setAcceptor_def
        Epoller_add_def Epoller_ctl_def Epoller_new_def)
  have subs: "loop_inv (sub i) \<and> acceptor_fd (loop (snd (sub i))) = - 1 \<and> fst (sub i) = [] \<and> pending (loop (snd (sub i))) = [] \<and>
      closed_fds (sys (snd (sub i))) = [] \<and> idle_cover (sub i)" for i
    using new_loop_inv [OF assms(2) [of i], of "fst (boot i)"]
    by (auto simp: idle_cover_def sub_def start_loop_def new_loop_def EventLoop_new_def split: prod.splits)
  have "set_mset (conn_fds [] (add_mset ([], ?e) (mset (map sub [0..<nat (io_threads cfg)])))) = {}"
    using subs by (auto simp: conn_fds_def loop_fds_def new_loop_def EventLoop_new_def setAcceptor_def)
  then have "conn_fds [] (add_mset ([], ?e) (mset (map sub [0..<nat (io_threads cfg)]))) = {#}" by simp
  moreover have "open_count (add_mset ([], ?e) (mset (map sub [0..<nat (io_threads cfg)]))) = 0"
    using subs by (simp add: open_count_def image_mset.compositionality comp_def)
  moreover have "closed_in (add_mset ([], ?e) (mset (map sub [0..<nat (io_threads cfg)]))) = {#}"
    using subs by (simp add: closed_in_def new_loop_def image_mset.compositionality comp_def)
  ultimately have "main_inv [] sy"
    using main subs by (auto simp: main_inv_def srv_inv_def fds_ok_def sy new_loop_def ServerCounters_new_def)
  then show ?thesis by (simp add: sy new_loop_def EventLoop_new_def setAcceptor_def)
qed

lemma sint_of_nat_u64: "n < 2 ^ 63 \<Longrightarrow> sint (of_nat n :: u64) = int n"
  using int_word_sint [where 'a = 64, of "int n"] by simp

lemma sum_count_le_distinct: "(\<forall>x. count (mset xs) x \<le> 1) \<longleftrightarrow> distinct xs"
  by (simp add: distinct_count_atmost_1 not_in_iff) (metis One_nat_def Suc_le_eq le_Suc_eq count_greater_zero_iff le_zero_eq not_in_iff
      count_greater_eq_one_iff set_mset_mset)

lemma conn_fds_list: "conn_fds [] (mset ls) = mset (concat (map loop_fds ls))"
  by (induction ls) (simp_all add: conn_fds_def)

lemma closed_in_list: "closed_in (mset ls) = mset (concat (map (\<lambda>s. closed_fds (sys (snd s))) ls))"
  by (induction ls) (simp_all add: closed_in_def)

lemma open_count_list: "open_count (mset ls) = sum_list (map (\<lambda>s. length (open_fds (fst s))) ls)"
  by (simp add: open_count_def sum_mset_sum_list flip: mset_map)

lemma main_inv_spelled:
  assumes "main_inv [] (srv, s)"
  shows "(\<forall>l \<in> set (s # sub_loops srv). loop_inv l) \<and> distinct (concat (map loop_fds (s # sub_loops srv))) \<and>
    (\<forall>fd \<in> set (concat (map loop_fds (s # sub_loops srv))). fd \<notin> set (concat (map own_fds (s # sub_loops srv))) \<and> fd \<noteq> listen_fd srv)"
    and "opened (counters (snd s)) - closed (counters (snd s)) = of_nat (sum_list (map (\<lambda>l. length (open_fds (fst l))) (s # sub_loops srv)))"
proof -
  let ?ls = "s # sub_loops srv"
  have i: "srv_inv (listen_fd srv) (mset (granted srv)) (counters (snd s)) [] (mset ?ls)" using assms by (simp add: main_inv_def)
  then have "distinct (concat (map loop_fds ?ls))"
    by (simp only: srv_inv_def fds_ok_def conn_fds_list sum_count_le_distinct)
  with i show "(\<forall>l \<in> set ?ls. loop_inv l) \<and> distinct (concat (map loop_fds ?ls)) \<and>
    (\<forall>fd \<in> set (concat (map loop_fds ?ls)). fd \<notin> set (concat (map own_fds ?ls)) \<and> fd \<noteq> listen_fd srv)"
    by (simp only: srv_inv_def fds_ok_def conn_fds_list) (auto simp: reserved_def)
  from i show "opened (counters (snd s)) - closed (counters (snd s)) = of_nat (sum_list (map (\<lambda>l. length (open_fds (fst l))) ?ls))"
    by (simp only: srv_inv_def open_count_list)
qed

text \<open>A server with two sub loops to which two peers connect.\<close>

definition demo_world :: "ep_answer list \<Rightarrow> world" where
  "demo_world ev = \<lparr>clk = \<lparr>clk_now = 0, clk_ticks = []\<rparr>, rxs = (\<lambda>_. []), txs = (\<lambda>_. []), wire = (\<lambda>_. []),
     closed_fds = [], eventfd = 0, eps = ev, tie_script = []\<rparr>"

definition demo_boot :: "nat \<Rightarrow> world \<times> int \<times> int" where
  "demo_boot i = (demo_world [EpEvents [(2 * int i + 7, EPOLLIN)]], 2 * int i + 6, 2 * int i + 7)"

definition demo_sockets :: socket_answers where
  "demo_sockets = \<lparr>a_socket = 5, a_bind = True, a_listen = True, a_getsockname = Some 8080\<rparr>"

definition demo_server :: "bool \<times> system" where
  "demo_server = Server_start demo_sockets demo_boot
     (Server_new (Options_new\<lparr>io_threads := 2\<rparr>) [AcConn \<lparr>sin_addr = 0, sin_port = 0\<rparr>, AcConn \<lparr>sin_addr = 0, sin_port = 0\<rparr>]
       (demo_world [EpEvents [(5, EPOLLIN)]]) (3, 4))"

definition no_files :: filesystem where
  "no_files = \<lparr>fs_stat = (\<lambda>_. None), fs_open = (\<lambda>_. None)\<rparr>"

lemma demo_started:
  "Server_start demo_sockets demo_boot
     (Server_new (Options_new\<lparr>io_threads := 2\<rparr>) [AcConn \<lparr>sin_addr = 0, sin_port = 0\<rparr>, AcConn \<lparr>sin_addr = 0, sin_port = 0\<rparr>]
       (demo_world [EpEvents [(5, EPOLLIN)]]) (3, 4)) = (True, snd demo_server)"
  by (simp add: demo_server_def Server_start_def initListenSocket_def Server_new_def demo_sockets_def new_loop_def Let_def)

lemma demo_descriptors: "0 \<le> fst (snd (demo_boot i))"
  by (simp add: demo_boot_def)

text \<open>
  C5: the whole server. Started with any number of sub loops, it runs every schedule of turns without
  getting stuck, whatever the peers send, the clock says and the kernel answers; and afterwards every
  loop is consistent (table, objects, epoll registrations, timers), and the descriptor of a connection,
  attached or queued for attachment, belongs to exactly one loop and to nothing else of the server.
\<close>

theorem server_consistent:
  assumes "0 \<le> fst fds" "\<And>i. 0 \<le> fst (snd (boot i))"
    and "Server_start k boot (Server_new cfg script w fds) = (True, sy)"
  shows "\<exists>srv s. srv_run inet_ntop fs schedule sy = Some (srv, s) \<and>
    (\<forall>l \<in> set (s # sub_loops srv). loop_inv l) \<and> distinct (concat (map loop_fds (s # sub_loops srv))) \<and>
    (\<forall>fd \<in> set (concat (map loop_fds (s # sub_loops srv))). fd \<notin> set (concat (map own_fds (s # sub_loops srv))) \<and> fd \<noteq> listen_fd srv)"
proof -
  have "main_inv [] sy" using start_inv [OF assms] by blast
  then obtain srv s where "srv_run inet_ntop fs schedule sy = Some (srv, s)" "main_inv [] (srv, s)"
    using srv_run_inv by fastforce
  with main_inv_spelled(1) show ?thesis by blast
qed

theorem server_consistent_witness:
  "\<exists>srv s. srv_run (\<lambda>_. None) no_files [0, 1, 2, 0, 2, 1] (snd demo_server) = Some (srv, s) \<and>
    (\<forall>l \<in> set (s # sub_loops srv). loop_inv l) \<and> distinct (concat (map loop_fds (s # sub_loops srv))) \<and>
    (\<forall>fd \<in> set (concat (map loop_fds (s # sub_loops srv))). fd \<notin> set (concat (map own_fds (s # sub_loops srv))) \<and> fd \<noteq> listen_fd srv)"
  by (rule server_consistent [OF _ demo_descriptors demo_started]) simp

text \<open>
  C24: the number of active connections that \<open>/stats\<close> reports and that the connection limit is compared
  with is, after any schedule of turns, the number of connection objects the loops hold.
\<close>

theorem active_connections_counted:
  assumes "0 \<le> fst fds" "\<And>i. 0 \<le> fst (snd (boot i))"
    and "Server_start k boot (Server_new cfg script w fds) = (True, sy)"
  shows "\<exists>srv s. srv_run inet_ntop fs schedule sy = Some (srv, s) \<and>
    (let n = sum_list (map (\<lambda>l. length (open_fds (fst l))) (s # sub_loops srv))
     in n < 2 ^ 63 \<longrightarrow> activeConnections (counters (snd s)) = int n)"
proof -
  have "main_inv [] sy" using start_inv [OF assms] by blast
  then obtain srv s where r: "srv_run inet_ntop fs schedule sy = Some (srv, s)" "main_inv [] (srv, s)"
    using srv_run_inv by fastforce
  define n where "n = sum_list (map (\<lambda>l. length (open_fds (fst l))) (s # sub_loops srv))"
  from main_inv_spelled(2) [OF r(2), folded n_def] sint_of_nat_u64 [of n]
  have "n < 2 ^ 63 \<longrightarrow> activeConnections (counters (snd s)) = int n" by (simp add: activeConnections_def)
  with r(1) show ?thesis unfolding n_def Let_def by blast
qed

theorem active_connections_counted_witness:
  "\<exists>srv s. srv_run (\<lambda>_. None) no_files [0, 1, 2, 0, 2, 1] (snd demo_server) = Some (srv, s) \<and>
    (let n = sum_list (map (\<lambda>l. length (open_fds (fst l))) (s # sub_loops srv))
     in n < 2 ^ 63 \<longrightarrow> activeConnections (counters (snd s)) = int n)"
  by (rule active_connections_counted [OF _ demo_descriptors demo_started]) simp

text \<open>
  C6: the account of the connections' descriptors. After any schedule of turns the descriptors that \<open>accept4\<close>
  has handed out are, counted with repetitions, exactly those that have been closed, those of the open
  connections of the loops and those in queued tasks: none is lost and none is closed twice.
\<close>

theorem descriptors_accounted:
  assumes "0 \<le> fst fds" "\<And>i. 0 \<le> fst (snd (boot i))"
    and "Server_start k boot (Server_new cfg script w fds) = (True, sy)"
  shows "\<exists>srv s. srv_run inet_ntop fs schedule sy = Some (srv, s) \<and>
    mset (granted srv) = mset (concat (map (\<lambda>l. closed_fds (sys (snd l))) (s # sub_loops srv))) + mset (concat (map loop_fds (s # sub_loops srv)))"
proof -
  have "main_inv [] sy" using start_inv [OF assms] by blast
  then obtain srv s where r: "srv_run inet_ntop fs schedule sy = Some (srv, s)" "main_inv [] (srv, s)"
    using srv_run_inv by fastforce
  from r(2) have "closed_in (mset (s # sub_loops srv)) + conn_fds [] (mset (s # sub_loops srv)) = mset (granted srv)"
    by (simp add: main_inv_def srv_inv_def)
  with r(1) show ?thesis unfolding closed_in_list conn_fds_list by metis
qed

theorem descriptors_accounted_witness:
  "\<exists>srv s. srv_run (\<lambda>_. None) no_files [0, 1, 2, 0, 2, 1] (snd demo_server) = Some (srv, s) \<and>
    mset (granted srv) = mset (concat (map (\<lambda>l. closed_fds (sys (snd l))) (s # sub_loops srv))) + mset (concat (map loop_fds (s # sub_loops srv)))"
  by (rule descriptors_accounted [OF _ demo_descriptors demo_started]) simp

text \<open>
  C17: the timers of the server. After any schedule of turns, in every loop the timers that are not cancelled
  and the connections with an idle timeout correspond one to one, each timer being the one its connection
  remembers; and besides them the heap holds exactly one entry for each cancelled timer whose deadline has
  not come.
\<close>

theorem idle_timers_match:
  assumes "0 \<le> fst fds" "\<And>i. 0 \<le> fst (snd (boot i))"
    and "Server_start k boot (Server_new cfg script w fds) = (True, sy)"
  shows "\<exists>srv s. srv_run inet_ntop fs schedule sy = Some (srv, s) \<and>
    (\<forall>(objs, e) \<in> set (s # sub_loops srv). let timed = {i. \<exists>c. obj objs i = Some c \<and> 0 < idle_timeout_s c} in
      bij_betw (\<lambda>x. case e_cb x of Some (IdleCheck i) \<Rightarrow> i | None \<Rightarrow> 0) (set (live (timers (loop e)))) timed \<and>
      (\<forall>i c. obj objs i = Some c \<and> i \<in> timed \<longrightarrow> (\<exists>x \<in> set (live (timers (loop e))). e_id x = idle_timer c \<and> e_cb x = Some (IdleCheck i))) \<and>
      timer_size (timers (loop e)) = card timed + card (cancelled (timers (loop e))))"
proof -
  have "main_inv [] sy" using start_inv [OF assms] by blast
  then obtain srv s where r: "srv_run inet_ntop fs schedule sy = Some (srv, s)" "main_inv [] (srv, s)"
    using srv_run_inv by fastforce
  have "let timed = {i. \<exists>c. obj objs i = Some c \<and> 0 < idle_timeout_s c} in
      bij_betw (\<lambda>x. case e_cb x of Some (IdleCheck i) \<Rightarrow> i | None \<Rightarrow> 0) (set (live (timers (loop e)))) timed \<and>
      (\<forall>i c. obj objs i = Some c \<and> i \<in> timed \<longrightarrow> (\<exists>x \<in> set (live (timers (loop e))). e_id x = idle_timer c \<and> e_cb x = Some (IdleCheck i))) \<and>
      timer_size (timers (loop e)) = card timed + card (cancelled (timers (loop e)))"
    if l: "(objs, e) \<in> set (s # sub_loops srv)" for objs e
  proof -
    have "loop_inv (objs, e)" "covered (obj objs) (timers (loop e))"
      using r(2) l by (auto simp: main_inv_def srv_inv_def idle_cover_def)
    with covered_count [OF this(2) loop_inv_timers [OF this(1)]] covered_conn [OF this(2)] show ?thesis
      unfolding Let_def by fastforce
  qed
  with r(1) show ?thesis by blast
qed

theorem idle_timers_match_witness:
  "\<exists>srv s. srv_run (\<lambda>_. None) no_files [0, 1, 2, 0, 2, 1] (snd demo_server) = Some (srv, s) \<and>
    (\<forall>(objs, e) \<in> set (s # sub_loops srv). let timed = {i. \<exists>c. obj objs i = Some c \<and> 0 < idle_timeout_s c} in
      bij_betw (\<lambda>x. case e_cb x of Some (IdleCheck i) \<Rightarrow> i | None \<Rightarrow> 0) (set (live (timers (loop e)))) timed \<and>
      (\<forall>i c. obj objs i = Some c \<and> i \<in> timed \<longrightarrow> (\<exists>x \<in> set (live (timers (loop e))). e_id x = idle_timer c \<and> e_cb x = Some (IdleCheck i))) \<and>
      timer_size (timers (loop e)) = card timed + card (cancelled (timers (loop e))))"
  by (rule idle_timers_match [OF _ demo_descriptors demo_started]) simp

section \<open>Distribution over the sub loops\<close>

fun picks :: "nat \<Rightarrow> Server \<Rightarrow> nat option list" where
  "picks 0 srv = []"
| "picks (Suc n) srv = (case pickSubLoop srv of (k, srv') \<Rightarrow> k # picks n srv')"

definition residues :: "nat \<Rightarrow> nat \<Rightarrow> nat \<Rightarrow> nat \<Rightarrow> nat" where
  "residues k j a n = length (filter (\<lambda>i. i mod k = j) [a..<a + n])"

lemma residues_shift: "0 < k \<Longrightarrow> residues k j (Suc a) k = residues k j a k"
proof -
  assume "0 < k"
  then have "[a..<a + k] = a # [Suc a..<a + k]" "[Suc a..<Suc a + k] = [Suc a..<a + k] @ [a + k]"
    by (simp_all add: upt_conv_Cons)
  then show ?thesis by (simp add: residues_def)
qed

lemma residues_window: "j < k \<Longrightarrow> residues k j a k = 1"
proof (induction a)
  case 0
  have "filter (\<lambda>i. i mod k = j) [0..<k] = filter (\<lambda>i. i = j) [0..<k]" by (rule filter_cong) auto
  moreover have "filter (\<lambda>i. i = j) [0..<k] = [j]" using 0 by (induction k) (auto simp: less_Suc_eq)
  ultimately show ?case by (simp add: residues_def)
next
  case (Suc a)
  then show ?case using residues_shift [of k j a] by simp
qed

lemma residues_add: "residues k j a (m + n) = residues k j a m + residues k j (a + m) n"
  using upt_add_eq_append [of a "a + m" n] by (simp add: residues_def add.assoc)

lemma residues_bounds:
  assumes "j < k"
  shows "n div k \<le> residues k j a n \<and> residues k j a n \<le> n div k + 1"
proof -
  have "residues k j a (q * k) = q" for q
  proof (induction q)
    case (Suc q)
    then show ?case using residues_add [of k j a "q * k" k] residues_window [OF assms] by (simp add: add.commute)
  qed (simp add: residues_def)
  moreover have "residues k j b (n mod k) \<le> 1" for b
    using residues_add [of k j b "n mod k" "k - n mod k"] residues_window [OF assms, of b] assms by simp
  moreover have "residues k j a n = residues k j a (n div k * k) + residues k j (a + n div k * k) (n mod k)"
    using residues_add [of k j a "n div k * k" "n mod k"] by simp
  ultimately show ?thesis by (metis add_le_cancel_left le_add1)
qed

lemma picks_eq:
  assumes "sub_loops srv \<noteq> []" "unat (next_sub srv) + n \<le> 2 ^ 64"
  shows "picks n srv = map (\<lambda>i. Some (i mod length (sub_loops srv))) [unat (next_sub srv)..<unat (next_sub srv) + n]"
  using assms
proof (induction n arbitrary: srv)
  case (Suc n)
  have p: "pickSubLoop srv = (Some (unat (next_sub srv) mod length (sub_loops srv)), srv\<lparr>next_sub := next_sub srv + 1\<rparr>)"
    using Suc.prems(1) by (simp add: pickSubLoop_def)
  show ?case
  proof (cases "n = 0")
    case True
    with p show ?thesis by simp
  next
    case False
    then have "unat (next_sub srv) + 1 < 2 ^ 64" using Suc.prems(2) by simp
    then have "unat (next_sub srv + 1) = unat (next_sub srv) + 1" by (simp add: unat_word_ariths)
    with Suc.IH [of "srv\<lparr>next_sub := next_sub srv + 1\<rparr>"] Suc.prems p False show ?thesis
      by (simp add: upt_conv_Cons)
  qed
qed simp

text \<open>
  Round robin. As long as the 64-bit ticket counter does not wrap, \<open>n\<close> successive picks go through
  the sub loops in cyclic order, so each of them receives its equal share of the connections, up to one.
\<close>

lemma round_robin:
  assumes "sub_loops srv \<noteq> []" "unat (next_sub srv) + n \<le> 2 ^ 64" "j < length (sub_loops srv)"
  shows "picks n srv = map (\<lambda>i. Some (i mod length (sub_loops srv))) [unat (next_sub srv)..<unat (next_sub srv) + n] \<and>
    n div length (sub_loops srv) \<le> count_list (picks n srv) (Some j) \<and>
    count_list (picks n srv) (Some j) \<le> n div length (sub_loops srv) + 1"
proof -
  have "count_list (map (\<lambda>i. Some (i mod k)) xs) (Some j) = length (filter (\<lambda>i. i mod k = j) xs)" for k and xs :: "nat list"
    by (induction xs) auto
  with picks_eq [OF assms(1,2)] residues_bounds [OF assms(3), of n "unat (next_sub srv)"] show ?thesis
    by (simp add: residues_def)
qed

lemma round_robin_example:
  "picks 5 (fst (snd demo_server)) = [Some 0, Some 1, Some 0, Some 1, Some 0] \<and>
   2 \<le> count_list (picks 5 (fst (snd demo_server))) (Some 1) \<and> count_list (picks 5 (fst (snd demo_server))) (Some 1) \<le> 3"
proof -
  have d: "length (sub_loops (fst (snd demo_server))) = 2" "next_sub (fst (snd demo_server)) = 0"
    by (simp_all add: demo_server_def Server_start_def initListenSocket_def Server_new_def demo_sockets_def new_loop_def Let_def)
  then have "sub_loops (fst (snd demo_server)) \<noteq> []" by auto
  from round_robin [OF this, of 5 1] d show ?thesis by (simp add: upt_rec)
qed

section \<open>The connection limit\<close>

text \<open>
  The single reactor: no sub loops, and the main loop is running, so that every accepted connection is
  attached before the next one is accepted.
\<close>

definition limit_inv :: "task list \<Rightarrow> system \<Rightarrow> bool" where
  "limit_inv todo sy \<longleftrightarrow> main_inv [] sy \<and> (case sy of (srv, (objs, e)) \<Rightarrow>
     todo = [] \<and> sub_loops srv = [] \<and> looping (loop e) \<and> pending (loop e) = [] \<and> max_connections (opts srv) < 2 ^ 31 \<and>
     int (length (open_fds objs)) \<le> max_connections (opts srv))"

lemma limit_active:
  assumes "main_inv [] (srv, (objs, e))" "sub_loops srv = []" "length (open_fds objs) < 2 ^ 63"
  shows "activeConnections (counters e) = int (length (open_fds objs))"
proof -
  have "opened (counters e) - closed (counters e) = of_nat (length (open_fds objs))"
    using main_inv_spelled(2) [OF assms(1)] assms(2) by simp
  then show ?thesis using sint_of_nat_u64 [OF assms(3)] by (simp add: activeConnections_def)
qed

lemma attach_here:
  assumes inv: "main_inv [] (srv, (objs, e))" and fd: "fd \<notin> set (used_fds (srv, (objs, e)))" "0 \<le> fd"
    and r: "attachConnection inet_ntop cfg (Attach fd a) (objs, e) = (objs', e')"
  shows "length (open_fds objs') = Suc (length (open_fds objs)) \<and> looping (loop e') = looping (loop e) \<and> pending (loop e') = pending (loop e)"
proof -
  have li: "loop_inv (objs, e)" "acceptor_fd (loop e) \<in> {listen_fd srv, - 1}" using inv by (auto simp: main_inv_def srv_inv_def)
  have "fd \<notin> set (open_fds objs)" "fd \<noteq> wakeup_fd (loop e)" "fd \<noteq> acceptor_fd (loop e)"
    using fd li(2) by (auto simp: used_fds_def own_fds_def loop_fds_def)
  with attach_inv [OF li(1) fd(2) _ _ _ r] show ?thesis by (simp add: loop_same_def)
qed

lemma onAccept_limit: "limit_inv [] sy \<Longrightarrow> limit_inv [] (onAccept inet_ntop sy)"
proof (rule onAccept_rule [where P = "limit_inv []"], goal_cases)
  case (2 srv s rest)
  then show ?case by (auto simp: limit_inv_def main_inv_def)
next
  case (3 srv objs e fd)
  then have i: "main_inv [] (srv, (objs, e))" by (simp add: limit_inv_def)
  with srv_inv_refuse [of "listen_fd srv" "mset (granted srv)" e "[]" objs "mset (sub_loops srv)" fd]
  have "main_inv [] (srv\<lparr>granted := granted srv @ [fd]\<rparr>, (objs, fd_close fd (bump (errors_update (\<lambda>n. n + 1)) e)))"
    by (simp add: main_inv_def)
  with 3(2) show ?case by (simp add: limit_inv_def fd_close_def bump_def)
next
  case (4 srv s fd a srv')
  obtain objs e where s: "s = (objs, e)" by (cases s)
  obtain objs' e' where r: "attachConnection inet_ntop (opts srv) (Attach fd a) (objs, e) = (objs', e')" by fastforce
  have pf: "srv' = srv\<lparr>granted := granted srv @ [fd]\<rparr>" using 4(6) by (simp add: pickSubLoop_def split: if_splits)
  have inv: "main_inv [] (srv, (objs, e))" "sub_loops srv = []" "looping (loop e)" "max_connections (opts srv) < 2 ^ 31"
      "pending (loop e) = []" "int (length (open_fds objs)) \<le> max_connections (opts srv)"
    using 4(2) by (auto simp: limit_inv_def s)
  have "main_inv [] (srv', (objs', e'))"
    using srv_inv_attach [OF main_inv_fresh [OF 4(2) [unfolded limit_inv_def, THEN conjunct1] 4(3,4), of a], of inet_ntop "opts srv"] r
    by (simp add: main_inv_def s pf)
  moreover have "activeConnections (counters e) = int (length (open_fds objs))"
    by (rule limit_active [OF inv(1,2)]) (use inv(4,6) in simp)
  moreover note attach_here [OF inv(1) 4(3) [unfolded s] 4(4) r]
  ultimately show ?case
    using inv 4(5) r by (simp add: limit_inv_def s pf runInLoop_def)
next
  case (5 srv s fd a k srv')
  then show ?case by (cases s) (simp add: limit_inv_def pickSubLoop_def)
qed simp

interpretation limit_client: loop_client "onAccept inet_ntop" "attachConnection inet_ntop cfg" limit_inv for inet_ntop cfg
proof (unfold_locales, goal_cases)
  case (1 todo srv s)
  then show ?case by (simp add: limit_inv_def main_inv_def srv_inv_def)
next
  case (2 todo srv s s')
  obtain objs e objs' e' where s: "s = (objs, e)" "s' = (objs', e')" by (cases s; cases s')
  have "size (mset (open_fds objs')) \<le> size (mset (open_fds objs))" "loop_same e e'"
    using 2(2) size_mset_mono [of "mset (open_fds objs')" "mset (open_fds objs)"] by (simp_all add: loop_step_def loop_move_def s)
  with 2 main_client.inv_step [of "[]" srv s s'] show ?case by (simp add: limit_inv_def s loop_same_def)
next
  case (3 srv objs e)
  then show ?case by (simp add: onAccept_limit)
next
  case (4 srv objs e)
  with main_client.take_inv [of srv objs e] show ?case by (simp add: limit_inv_def)
next
  case (5 t todo srv s)
  then show ?case by (cases s) (simp add: limit_inv_def)
qed

text \<open>
  C23: the connection limit holds in the single reactor: started with \<open>io_threads = 0\<close> and run for any
  number of turns, the server never has more than \<open>max_connections\<close> connections open.
\<close>

theorem single_reactor_limit:
  assumes "0 \<le> fst fds" "\<And>i. 0 \<le> fst (snd (boot i))" "io_threads cfg = 0"
    and "0 \<le> max_connections cfg" "max_connections cfg < 2 ^ 31"
    and "Server_start k boot (Server_new cfg script w fds) = (True, sy)"
  shows "\<exists>srv objs e. loop_turns h (onAccept inet_ntop) (attachConnection inet_ntop cfg) n sy = Some (srv, (objs, e)) \<and>
    int (length (open_fds objs)) \<le> max_connections (opts srv)"
proof -
  obtain srv objs e where sy: "sy = (srv, (objs, e))" by (metis prod.collapse)
  have "limit_inv [] sy"
    using start_inv [OF assms(1,2,6)] assms(3-5) unfolding limit_inv_def sy by auto
  from limit_client.turns_inv [OF this] show ?thesis
    by (fastforce simp: limit_inv_def)
qed

theorem single_reactor_limit_witness:
  "\<exists>srv objs e. loop_turns (Server_handleRequest Options_new no_files []) (onAccept (\<lambda>_. None)) (attachConnection (\<lambda>_. None) Options_new) 7
      (snd (Server_start demo_sockets demo_boot (Server_new Options_new [AcConn \<lparr>sin_addr = 0, sin_port = 0\<rparr>] (demo_world [EpEvents [(5, EPOLLIN)]]) (3, 4))))
    = Some (srv, (objs, e)) \<and> int (length (open_fds objs)) \<le> max_connections (opts srv)"
proof -
  have "Server_start demo_sockets demo_boot (Server_new Options_new [AcConn \<lparr>sin_addr = 0, sin_port = 0\<rparr>] (demo_world [EpEvents [(5, EPOLLIN)]]) (3, 4)) =
      (True, snd (Server_start demo_sockets demo_boot (Server_new Options_new [AcConn \<lparr>sin_addr = 0, sin_port = 0\<rparr>] (demo_world [EpEvents [(5, EPOLLIN)]]) (3, 4))))"
    by (simp add: Server_start_def initListenSocket_def Server_new_def demo_sockets_def new_loop_def Let_def)
  from single_reactor_limit [OF _ demo_descriptors _ _ _ this] show ?thesis by (simp add: Options_new_def)
qed

text \<open>
  With sub loops the limit is only approximate: the counter moves when a sub loop attaches a connection,
  the test is made when the main loop accepts it. Here the limit is 1 and both peers are handed on.
\<close>

lemma limit_overrun:
  "map (\<lambda>l. length (pending (loop (snd l)))) (sub_loops (fst (onAccept (\<lambda>_. None)
     (snd (Server_start demo_sockets demo_boot (Server_new (Options_new\<lparr>io_threads := 2, max_connections := 1\<rparr>)
        [AcConn \<lparr>sin_addr = 0, sin_port = 0\<rparr>, AcConn \<lparr>sin_addr = 0, sin_port = 0\<rparr>] (demo_world []) (3, 4))))))) = [1, 1]"
  by code_simp

text \<open>A failed start leaves no socket behind.\<close>

lemma initListenSocket_cases:
  "initListenSocket k (srv, (objs, e)) = (ok, (srv', (objs', e'))) \<Longrightarrow>
     ok = (0 \<le> a_socket k \<and> a_bind k \<and> a_listen k) \<and> listen_fd srv' = (if ok then a_socket k else listen_fd srv) \<and>
     closed_fds (sys e') = closed_fds (sys e) @ (if ok \<or> a_socket k < 0 then [] else [a_socket k])"
  by (auto simp: initListenSocket_def Let_def fd_close_def split: if_splits)

end
