(* ===== verification/Logger.thy ===== *)
theory Logger
  imports Sys
begin

text \<open>
  The asynchronous logger, \<open>include/ws/logger.h\<close> and \<open>src/logger.cpp\<close>: the formatting of a line in the
  calling thread, the double buffer between the callers and the log thread, and the file with its
  rotation. The local time and the text that \<open>vsnprintf\<close> makes of a format and its arguments are
  arguments. The disk keeps the files by name and what every open descriptor refers to; the answers of
  successive \<open>open\<close> calls, the time stamps of successive rotations and how much successive \<open>write\<close> calls
  accept are scripts, as in \<open>Sys\<close>.
\<close>

section \<open>Levels and lines\<close>

datatype LogLevel = LOG_TRACE | LOG_DEBUG | LOG_INFO | LOG_WARN | LOG_ERROR | LOG_FATAL

fun levelName :: "LogLevel \<Rightarrow> string" where
  "levelName LOG_TRACE = ''TRACE''"
| "levelName LOG_DEBUG = ''DEBUG''"
| "levelName LOG_INFO = ''INFO''"
| "levelName LOG_WARN = ''WARN''"
| "levelName LOG_ERROR = ''ERROR''"
| "levelName LOG_FATAL = ''FATAL''"

fun levelNumber :: "LogLevel \<Rightarrow> nat" where
  "levelNumber LOG_TRACE = 0"
| "levelNumber LOG_DEBUG = 1"
| "levelNumber LOG_INFO = 2"
| "levelNumber LOG_WARN = 3"
| "levelNumber LOG_ERROR = 4"
| "levelNumber LOG_FATAL = 5"

text \<open>The order of the enumerators, by which the macro compares levels.\<close>

lemma levelNumber_eq [simp]: "levelNumber a = levelNumber b \<longleftrightarrow> a = b"
  by (cases a; cases b) simp_all

instantiation LogLevel :: linorder
begin

definition less_eq_LogLevel :: "LogLevel \<Rightarrow> LogLevel \<Rightarrow> bool" where
  "a \<le> b \<longleftrightarrow> levelNumber a \<le> levelNumber b"

definition less_LogLevel :: "LogLevel \<Rightarrow> LogLevel \<Rightarrow> bool" where
  "a < b \<longleftrightarrow> levelNumber a < levelNumber b"

instance
  by standard (auto simp: less_eq_LogLevel_def less_LogLevel_def dest: antisym)

end

record tm =
  tm_year :: int
  tm_mon :: int
  tm_mday :: int
  tm_hour :: int
  tm_min :: int
  tm_sec :: int

definition kStackBuf :: nat where
  "kStackBuf = 4096"

definition log_head :: "tm \<Rightarrow> int \<Rightarrow> LogLevel \<Rightarrow> string" where
  "log_head t ms lv =
     pf_zeros 4 (tm_year t + 1900) @ ''-'' @ pf_zeros 2 (tm_mon t + 1) @ ''-'' @ pf_zeros 2 (tm_mday t) @ '' '' @
     pf_zeros 2 (tm_hour t) @ '':'' @ pf_zeros 2 (tm_min t) @ '':'' @ pf_zeros 2 (tm_sec t) @ ''.'' @ pf_zeros 3 ms @
     '' '' @ pf_left 5 (levelName lv) @ '' ''"

definition log_base :: "string \<Rightarrow> string" where
  "log_base file = (case str_rfind (CHR ''/'') file of None \<Rightarrow> file | Some i \<Rightarrow> drop (i + 1) file)"

text \<open>What \<open>Logger::write\<close> hands to \<open>append\<close>: the first \<open>used\<close> bytes of \<open>t_line\<close>.\<close>

definition write_line :: "tm \<Rightarrow> int \<Rightarrow> LogLevel \<Rightarrow> string \<Rightarrow> int \<Rightarrow> string \<Rightarrow> string" where
  "write_line t ms lv file line msg =
     (let t_line = snprintf 80 (log_head t ms lv);
          t_line = t_line @ snprintf (kStackBuf - length t_line) (log_base file @ '':'' @ int_to_string line @ '' '');
          t_line = t_line @ snprintf (kStackBuf - length t_line) msg
      in if length t_line + 1 < kStackBuf then t_line @ [LF] else t_line)"

text \<open>The macro: a line below the current level is not even formatted.\<close>

definition ws_log :: "LogLevel \<Rightarrow> LogLevel \<Rightarrow> string \<Rightarrow> string option" where
  "ws_log current lv text = (if current \<le> lv then Some text else None)"

section \<open>The disk\<close>

datatype target = Stdout | File string

record disk =
  files :: "string \<rightharpoonup> bytes"
  fdt :: "int \<rightharpoonup> target"
  stdout_text :: bytes
  log_tx :: "tx list"
  opens :: "int list"
  stamps :: "string list"

definition d_open :: "bool \<Rightarrow> string \<Rightarrow> disk \<Rightarrow> int \<times> disk" where
  "d_open trunc path d =
     (case opens d of
        [] \<Rightarrow> (- 1, d)
      | fd # rest \<Rightarrow>
          if fd < 0 then (fd, d\<lparr>opens := rest\<rparr>)
          else (fd, d\<lparr>opens := rest, fdt := (fdt d)(fd \<mapsto> File path),
                 files := (files d)(path \<mapsto> (if trunc then [] else case files d path of None \<Rightarrow> [] | Some x \<Rightarrow> x))\<rparr>))"

definition d_close :: "int \<Rightarrow> disk \<Rightarrow> disk" where
  "d_close fd d = d\<lparr>fdt := (fdt d)(fd := None)\<rparr>"

definition d_rename :: "string \<Rightarrow> string \<Rightarrow> disk \<Rightarrow> disk" where
  "d_rename a b d = (case files d a of None \<Rightarrow> d | Some x \<Rightarrow> d\<lparr>files := (files d)(a := None, b \<mapsto> x)\<rparr>)"

fun d_put :: "target \<Rightarrow> bytes \<Rightarrow> disk \<Rightarrow> disk" where
  "d_put Stdout x d = d\<lparr>stdout_text := stdout_text d @ x\<rparr>"
| "d_put (File name) x d = d\<lparr>files := (files d)(name \<mapsto> (case files d name of None \<Rightarrow> x | Some y \<Rightarrow> y @ x))\<rparr>"

definition d_write :: "int \<Rightarrow> bytes \<Rightarrow> disk \<Rightarrow> (errno + nat) \<times> disk" where
  "d_write fd x d =
     (case fdt d fd of
        None \<Rightarrow> (Inl (EOther 9), d)
      | Some tg \<Rightarrow>
          (case sys_write x (log_tx d) of
             (Inl er, s) \<Rightarrow> (Inl er, d\<lparr>log_tx := s\<rparr>)
           | (Inr n, s) \<Rightarrow> (Inr n, d_put tg (take n x) (d\<lparr>log_tx := s\<rparr>))))"

definition d_stamp :: "disk \<Rightarrow> string \<times> disk" where
  "d_stamp d = (case stamps d of [] \<Rightarrow> ([], d) | st # rest \<Rightarrow> (st, d\<lparr>stamps := rest\<rparr>))"

section \<open>AsyncLogger\<close>

abbreviation STDOUT_FILENO :: int where "STDOUT_FILENO \<equiv> 1"

definition kBufferSize :: nat where
  "kBufferSize = 64 * 1024"

record AsyncLogger =
  current :: bytes
  to_write :: bytes
  path :: string
  flush_ms :: nat
  roll_bytes :: nat
  written_this_file :: nat
  log_fd :: int
  running :: bool
  stop_requested :: bool
  level :: LogLevel
  log_bytes_written :: nat
  enqueued_bytes :: nat

definition AsyncLogger_new :: AsyncLogger where
  "AsyncLogger_new = \<lparr>current = [], to_write = [], path = [], flush_ms = 1000, roll_bytes = 256 * 1024 * 1024,
     written_this_file = 0, log_fd = - 1, running = False, stop_requested = False, level = LOG_INFO,
     log_bytes_written = 0, enqueued_bytes = 0\<rparr>"

definition to_stdout :: "string \<Rightarrow> bool" where
  "to_stdout p \<longleftrightarrow> p = [] \<or> p = ''-''"

definition log_start :: "string \<Rightarrow> nat \<Rightarrow> nat \<Rightarrow> AsyncLogger \<Rightarrow> disk \<Rightarrow> AsyncLogger \<times> disk" where
  "log_start p fl roll a d =
     (if running a then (a, d)
      else
        let a = a\<lparr>path := p, flush_ms := fl, roll_bytes := roll, written_this_file := 0, stop_requested := False,
                  current := [], to_write := []\<rparr>;
            (fd, d) = (if to_stdout p then (STDOUT_FILENO, d) else d_open False p d);
            fd = (if fd < 0 then STDOUT_FILENO else fd)
        in (a\<lparr>log_fd := fd, running := True\<rparr>, d))"

definition rollIfNeeded :: "nat \<Rightarrow> AsyncLogger \<Rightarrow> disk \<Rightarrow> AsyncLogger \<times> disk" where
  "rollIfNeeded incoming a d =
     (if to_stdout (path a) \<or> log_fd a < 0 then (a, d)
      else if written_this_file a + incoming \<le> roll_bytes a then (a, d)
      else
        let d = d_close (log_fd a) d;
            (stamp, d) = d_stamp d;
            d = d_rename (path a) (path a @ stamp) d;
            (fd, d) = d_open True (path a) d;
            fd = (if fd < 0 then STDOUT_FILENO else fd)
        in (a\<lparr>log_fd := fd, written_this_file := 0\<rparr>, d))"

lemma sys_write_shrinks:
  "sys_write x s = (Inr n, s') \<Longrightarrow> n \<le> length x \<and> length s' \<le> length s"
  "sys_write x s = (Inl er, s') \<Longrightarrow> length s' < length s"
  by (cases "(x, s)" rule: sys_write.cases; auto)+

lemma log_tx_d_put [simp]: "log_tx (d_put tg x d) = log_tx d"
  by (cases tg) simp_all

text \<open>The loop over \<open>write\<close>; the first component is \<open>written\<close>.\<close>

function write_loop :: "int \<Rightarrow> bytes \<Rightarrow> disk \<Rightarrow> nat \<times> disk" where
  "write_loop fd x d =
     (if x = [] then (0, d)
      else case d_write fd x d of
          (Inr n, d) \<Rightarrow> if 0 < n then (case write_loop fd (drop n x) d of (m, d) \<Rightarrow> (n + m, d)) else (0, d)
        | (Inl er, d) \<Rightarrow> if er = EINTR then write_loop fd x d else (0, d))"
  by pat_completeness auto
termination
proof (relation "measure (\<lambda>(fd, x, d). length x + length (log_tx d))", goal_cases)
  case 1
  then show ?case by simp
next
  case (2 fd x d r d' er)
  then show ?case
    using sys_write_shrinks(2) [of x "log_tx d"] by (auto simp: d_write_def split: option.splits prod.splits sum.splits)
next
  case (3 fd x d r d' n)
  then show ?case
    using sys_write_shrinks(1) [of x "log_tx d"] by (fastforce simp: d_write_def split: option.splits prod.splits sum.splits)
qed

declare write_loop.simps [simp del]

definition writeAll :: "bytes \<Rightarrow> AsyncLogger \<Rightarrow> disk \<Rightarrow> AsyncLogger \<times> disk" where
  "writeAll x a d =
     (if log_fd a < 0 \<or> x = [] then (a, d)
      else
        let (a, d) = rollIfNeeded (length x) a d;
            (n, d) = write_loop (log_fd a) x d
        in (a\<lparr>log_bytes_written := log_bytes_written a + n, written_this_file := written_this_file a + n\<rparr>, d))"

text \<open>The callers' side: the second component says whether the log thread is notified.\<close>

definition log_append :: "bytes \<Rightarrow> AsyncLogger \<Rightarrow> AsyncLogger \<times> bool" where
  "log_append x a =
     (if \<not> running a \<or> x = [] then (a, False)
      else let a = a\<lparr>current := current a @ x, enqueued_bytes := enqueued_bytes a + length x\<rparr>
           in (a, kBufferSize \<le> length (current a)))"

text \<open>The log thread: what it does under the mutex, the write, and the last flush after the loop.\<close>

definition swap_buffers :: "AsyncLogger \<Rightarrow> AsyncLogger" where
  "swap_buffers a = a\<lparr>to_write := current a, current := to_write a\<rparr>"

definition flush_to_write :: "AsyncLogger \<Rightarrow> disk \<Rightarrow> AsyncLogger \<times> disk" where
  "flush_to_write a d = (case writeAll (to_write a) a d of (a, d) \<Rightarrow> (a\<lparr>to_write := []\<rparr>, d))"

definition flush_current :: "AsyncLogger \<Rightarrow> disk \<Rightarrow> AsyncLogger \<times> disk" where
  "flush_current a d =
     (if current a = [] then (a, d) else case writeAll (current a) a d of (a, d) \<Rightarrow> (a\<lparr>current := []\<rparr>, d))"

text \<open>\<open>stop\<close> after the thread has been joined.\<close>

definition stop_joined :: "AsyncLogger \<Rightarrow> disk \<Rightarrow> AsyncLogger \<times> disk" where
  "stop_joined a d =
     (let a = a\<lparr>running := False\<rparr>;
          (a, d) = flush_current a d;
          (a, d) = (if to_write a = [] then (a, d) else flush_to_write a d);
          d = (if 0 \<le> log_fd a \<and> log_fd a \<noteq> STDOUT_FILENO then d_close (log_fd a) d else d)
      in (a\<lparr>log_fd := - 1\<rparr>, d))"

section \<open>Lines\<close>

lemma length_snprintf: "length (snprintf n s) = min (length s) (n - 1)"
  by (simp add: snprintf_def)

lemma snprintf_tail:
  assumes "0 < B"
  shows "take (B - 1) h @ snprintf (B - length (take (B - 1) h)) x = take (B - 1) (h @ x)"
proof (cases "length h \<le> B - 1")
  case True
  with assms show ?thesis by (simp add: snprintf_def)
next
  case False
  with assms have "length (take (B - 1) h) = B - 1" by simp
  with assms have "snprintf (B - length (take (B - 1) h)) x = []" by (simp add: snprintf_def)
  with False show ?thesis by simp
qed

lemma write_line_eq:
  "write_line t ms lv file line msg =
     (let text = snprintf 80 (log_head t ms lv) @ log_base file @ '':'' @ int_to_string line @ '' '' @ msg
      in if length text < 4095 then text @ [LF] else take 4095 text)"
proof -
  let ?h = "snprintf 80 (log_head t ms lv)" and ?loc = "log_base file @ '':'' @ int_to_string line @ '' ''"
  have B: "0 < kStackBuf" "kStackBuf - 1 = 4095" "79 < kStackBuf - 1" by (simp_all add: kStackBuf_def)
  have whole: "take (kStackBuf - 1) ?h = ?h" by (rule take_all) (use B(3) in \<open>simp add: length_snprintf\<close>)
  have 1: "?h @ snprintf (kStackBuf - length ?h) ?loc = take (kStackBuf - 1) (?h @ ?loc)"
    using snprintf_tail [OF B(1), of ?h ?loc] unfolding whole .
  have 2: "take (kStackBuf - 1) (?h @ ?loc) @ snprintf (kStackBuf - length (take (kStackBuf - 1) (?h @ ?loc))) msg =
      take (kStackBuf - 1) ((?h @ ?loc) @ msg)"
    by (rule snprintf_tail [OF B(1)])
  have 3: "length (take (kStackBuf - 1) u) + 1 < kStackBuf \<longleftrightarrow> length u < kStackBuf - 1" for u :: string
    by auto
  have 4: "(if length u < kStackBuf - 1 then take (kStackBuf - 1) u @ [LF] else take (kStackBuf - 1) u) =
      (if length u < kStackBuf - 1 then u @ [LF] else take (kStackBuf - 1) u)" for u
    by simp
  show ?thesis unfolding write_line_def Let_def 1 2 unfolding 3 4 unfolding B(2) append_assoc by (rule refl)
qed

text \<open>
  C39: a log line is the head, cut to 79 characters, the place and the message, ended by a newline, as long
  as this fits the buffer; otherwise it is the first 4095 characters of that text, without a newline.
\<close>

theorem write_line_exact:
  "write_line t ms lv file line msg =
     (let text = snprintf 80 (log_head t ms lv) @ log_base file @ '':'' @ int_to_string line @ '' '' @ msg
      in if length text < 4095 then text @ [LF] else take 4095 text)"
  by (rule write_line_eq)

section \<open>Writing\<close>

text \<open>Write calls that make progress or are interrupted; a disk that never fails for good.\<close>

definition soft :: "tx \<Rightarrow> bool" where
  "soft t = (case t of TxAccept n \<Rightarrow> 0 < n | TxErr er \<Rightarrow> er = EINTR)"

fun tg_ok :: "target \<Rightarrow> disk \<Rightarrow> bool" where
  "tg_ok Stdout d = True"
| "tg_ok (File n) d = (files d n \<noteq> None)"

lemma d_put_Nil: "tg_ok tg d \<Longrightarrow> d_put tg [] d = d"
  by (cases tg) (auto simp: fun_upd_idem)

lemma d_put_d_put: "d_put tg y (d_put tg x d) = d_put tg (x @ y) d"
  by (cases tg) (auto split: option.split)

lemma d_put_tx: "(d_put tg x d)\<lparr>log_tx := s\<rparr> = d_put tg x (d\<lparr>log_tx := s\<rparr>)"
  by (cases tg) simp_all

lemma d_put_frame [simp]: "fdt (d_put tg x d) = fdt d" "opens (d_put tg x d) = opens d" "stamps (d_put tg x d) = stamps d"
  by (cases tg; simp)+

lemma tg_ok_put: "tg_ok tg d \<Longrightarrow> tg_ok tg (d_put tg x d)"
  by (cases tg) auto

lemma sys_write_soft:
  assumes "x \<noteq> []" "list_all soft s" "sys_write x s = (r, s')"
  shows "list_all soft s' \<and> (case r of Inr n \<Rightarrow> 0 < n | Inl er \<Rightarrow> er = EINTR)"
  using assms by (cases "(x, s)" rule: sys_write.cases) (auto simp: soft_def)

lemma write_loop_complete:
  assumes "fdt d fd = Some tg" "tg_ok tg d" "list_all soft (log_tx d)"
  shows "\<exists>s. list_all soft s \<and> write_loop fd x d = (length x, d_put tg x (d\<lparr>log_tx := s\<rparr>))"
  using assms
proof (induction fd x d rule: write_loop.induct)
  case (1 fd x d)
  have ok: "tg_ok tg (d\<lparr>log_tx := s\<rparr>)" for s using "1.prems"(2) by (cases tg) auto
  show ?case
  proof (cases "x = []")
    case True
    then show ?thesis
      using "1.prems"(3) ok by (intro exI [of _ "log_tx d"]) (simp add: write_loop.simps d_put_Nil "1.prems"(2))
  next
    case False
    obtain r s where w: "sys_write x (log_tx d) = (r, s)" by fastforce
    note sf = sys_write_soft [OF False "1.prems"(3) w]
    show ?thesis
    proof (cases r)
      case (Inl er)
      with sf have er: "er = EINTR" by simp
      have dw: "d_write fd x d = (Inl er, d\<lparr>log_tx := s\<rparr>)" using w Inl "1.prems"(1) by (simp add: d_write_def)
      have "\<exists>s'. list_all soft s' \<and> write_loop fd x (d\<lparr>log_tx := s\<rparr>) = (length x, d_put tg x (d\<lparr>log_tx := s\<rparr>\<lparr>log_tx := s'\<rparr>))"
        by (rule "1.IH"(1) [OF False dw [symmetric] refl er]) (use "1.prems" sf ok in simp_all)
      with False dw er show ?thesis by (simp add: write_loop.simps [of fd x d])
    next
      case (Inr n)
      with sf have n: "0 < n" by simp
      have nl: "n \<le> length x" using sys_write_shrinks(1) w Inr by blast
      let ?d = "d_put tg (take n x) (d\<lparr>log_tx := s\<rparr>)"
      have dw: "d_write fd x d = (Inr n, ?d)" using w Inr "1.prems"(1) by (simp add: d_write_def)
      have "\<exists>s'. list_all soft s' \<and> write_loop fd (drop n x) ?d = (length (drop n x), d_put tg (drop n x) (?d\<lparr>log_tx := s'\<rparr>))"
        by (rule "1.IH"(2) [OF False dw [symmetric] refl n]) (use "1.prems" sf ok in \<open>simp_all add: tg_ok_put\<close>)
      with False dw n nl show ?thesis by (auto simp: write_loop.simps [of fd x d] d_put_tx d_put_d_put)
    qed
  qed
qed

section \<open>Rotation\<close>

definition content :: "disk \<Rightarrow> string \<Rightarrow> bytes" where
  "content d n = (case files d n of None \<Rightarrow> [] | Some x \<Rightarrow> x)"

text \<open>The names of the rotations to come, and that each of them is new.\<close>

definition next_names :: "string \<Rightarrow> disk \<Rightarrow> string list" where
  "next_names p d = map (\<lambda>st. p @ st) (stamps d)"

text \<open>
  The log of file \<open>p\<close> is healthy: the logger's descriptor is open on it, writes go through, and the
  rotation names to come are new and different; \<open>rs\<close> are the rotated files, oldest first.
\<close>

definition log_ok :: "string \<Rightarrow> string list \<Rightarrow> AsyncLogger \<Rightarrow> disk \<Rightarrow> bool" where
  "log_ok p rs a d \<longleftrightarrow> path a = p \<and> \<not> to_stdout p \<and> 0 \<le> log_fd a \<and> fdt d (log_fd a) = Some (File p) \<and> files d p \<noteq> None \<and>
     list_all soft (log_tx d) \<and> (\<forall>fd \<in> set (opens d). 0 \<le> fd) \<and>
     distinct (p # rs @ next_names p d) \<and> (\<forall>n \<in> set (next_names p d). files d n = None)"

definition log_text :: "string \<Rightarrow> string list \<Rightarrow> disk \<Rightarrow> bytes" where
  "log_text p rs d = concat (map (content d) (rs @ [p]))"

lemma roll_ok:
  assumes ok: "log_ok p rs a d" and room: "opens d \<noteq> []" "stamps d \<noteq> []"
    and r: "rollIfNeeded n a d = (a', d')"
  shows "\<exists>rs'. log_ok p rs' a' d' \<and> log_text p rs' d' = log_text p rs d \<and> prefix rs rs' \<and>
    length (opens d) \<le> Suc (length (opens d')) \<and> length (stamps d) \<le> Suc (length (stamps d')) \<and>
    current a' = current a \<and> to_write a' = to_write a \<and> log_bytes_written a' = log_bytes_written a"
proof (cases "written_this_file a + n \<le> roll_bytes a")
  case True
  then have "a' = a" "d' = d" using r ok by (auto simp: rollIfNeeded_def log_ok_def)
  with ok show ?thesis by (intro exI [of _ rs]) simp
next
  case False
  obtain fd fds st sts where s: "opens d = fd # fds" "stamps d = st # sts" using room by (meson list.exhaust)
  let ?q = "p @ st"
  obtain old where old: "files d p = Some old" using ok by (auto simp: log_ok_def)
  have fd: "0 \<le> fd" "?q \<noteq> p" "?q \<notin> set rs" "p \<notin> set rs" using ok s by (auto simp: log_ok_def next_names_def)
  have res: "a' = a\<lparr>log_fd := fd, written_this_file := 0\<rparr>"
      "d' = d\<lparr>opens := fds, stamps := sts, fdt := (fdt d)(log_fd a := None, fd \<mapsto> File p), files := (files d)(?q \<mapsto> old, p \<mapsto> [])\<rparr>"
    using r ok s old False fd
    by (auto simp: rollIfNeeded_def log_ok_def Let_def d_close_def d_stamp_def d_rename_def d_open_def fun_upd_twist split: if_splits)
  have "map (content d') rs = map (content d) rs" using fd by (auto simp: res content_def)
  moreover have "content d' ?q = content d p" "content d' p = []" using fd old by (simp_all add: res content_def)
  ultimately have "log_text p (rs @ [?q]) d' = log_text p rs d" by (simp add: log_text_def del: map_eq_conv)
  moreover have "log_ok p (rs @ [?q]) a' d'" using ok s fd by (auto simp: log_ok_def res next_names_def)
  ultimately show ?thesis by (intro exI [of _ "rs @ [?q]"]) (simp add: res s)
qed

lemma writeAll_ok:
  assumes ok: "log_ok p rs a d" and room: "opens d \<noteq> []" "stamps d \<noteq> []" and r: "writeAll x a d = (a', d')"
  shows "\<exists>rs'. log_ok p rs' a' d' \<and> log_text p rs' d' = log_text p rs d @ x \<and> prefix rs rs' \<and>
    length (opens d) \<le> Suc (length (opens d')) \<and> length (stamps d) \<le> Suc (length (stamps d')) \<and>
    log_bytes_written a' = log_bytes_written a + length x"
proof (cases "x = []")
  case True
  with r ok show ?thesis by (intro exI [of _ rs]) (simp add: writeAll_def)
next
  case False
  obtain a1 d1 where ro: "rollIfNeeded (length x) a d = (a1, d1)" by fastforce
  obtain rs' where R: "log_ok p rs' a1 d1" "log_text p rs' d1 = log_text p rs d" "prefix rs rs'"
      "length (opens d) \<le> Suc (length (opens d1))" "length (stamps d) \<le> Suc (length (stamps d1))"
      "log_bytes_written a1 = log_bytes_written a"
    using roll_ok [OF ok room ro] by blast
  have t: "fdt d1 (log_fd a1) = Some (File p)" "tg_ok (File p) d1" "list_all soft (log_tx d1)" "p \<notin> set rs'"
    using R(1) by (auto simp: log_ok_def)
  obtain s where w: "list_all soft s" "write_loop (log_fd a1) x d1 = (length x, d_put (File p) x (d1\<lparr>log_tx := s\<rparr>))"
    using write_loop_complete [OF t(1-3)] by blast
  have res: "a' = a1\<lparr>log_bytes_written := log_bytes_written a1 + length x, written_this_file := written_this_file a1 + length x\<rparr>"
      "d' = d_put (File p) x (d1\<lparr>log_tx := s\<rparr>)"
    using r False ok ro w(2) by (auto simp: writeAll_def log_ok_def)
  have "map (content d') rs' = map (content d1) rs'" "content d' p = content d1 p @ x"
    using t(2,4) by (auto simp: res content_def)
  then have "log_text p rs' d' = log_text p rs d @ x" using R(2) by (simp add: log_text_def del: map_eq_conv)
  moreover have "log_ok p rs' a' d'" using R(1) w(1) by (auto simp: log_ok_def res next_names_def)
  ultimately show ?thesis using R by (intro exI [of _ rs']) (simp add: res)
qed

text \<open>A sequence of buffers handed to \<open>writeAll\<close>.\<close>

fun write_buffers :: "bytes list \<Rightarrow> AsyncLogger \<Rightarrow> disk \<Rightarrow> AsyncLogger \<times> disk" where
  "write_buffers [] a d = (a, d)"
| "write_buffers (x # xs) a d = (case writeAll x a d of (a, d) \<Rightarrow> write_buffers xs a d)"

lemma write_buffers_ok:
  assumes "log_ok p rs a d" "length xs \<le> length (opens d)" "length xs \<le> length (stamps d)" "write_buffers xs a d = (a', d')"
  shows "\<exists>rs'. log_ok p rs' a' d' \<and> prefix rs rs' \<and> log_text p rs' d' = log_text p rs d @ concat xs \<and>
    log_bytes_written a' = log_bytes_written a + length (concat xs)"
  using assms
proof (induction xs arbitrary: a d rs)
  case Nil
  then show ?case by (intro exI [of _ rs]) simp
next
  case (Cons x xs)
  obtain a1 d1 where w: "writeAll x a d = (a1, d1)" by fastforce
  have room: "opens d \<noteq> []" "stamps d \<noteq> []" using Cons.prems(2,3) by auto
  obtain rs1 where R: "log_ok p rs1 a1 d1" "log_text p rs1 d1 = log_text p rs d @ x" "prefix rs rs1"
      "length (opens d) \<le> Suc (length (opens d1))" "length (stamps d) \<le> Suc (length (stamps d1))"
      "log_bytes_written a1 = log_bytes_written a + length x"
    using writeAll_ok [OF Cons.prems(1) room w] by blast
  obtain rs' where "log_ok p rs' a' d'" "prefix rs1 rs'" "log_text p rs' d' = log_text p rs1 d1 @ concat xs"
      "log_bytes_written a' = log_bytes_written a1 + length (concat xs)"
    using Cons.IH [OF R(1)] Cons.prems R(4,5) w by auto
  with R show ?case by (intro exI [of _ rs']) (auto intro: prefix_order.trans)
qed

text \<open>
  Rotation loses nothing and keeps the order. As long as the disk accepts writes and every rotation
  gets a file name that is not in use, the rotated files, oldest first, followed by the current file hold
  exactly what they held before followed by everything that was handed to the writer, and the counter of
  written bytes has advanced by as much.
\<close>

lemma rotation_keeps_log:
  assumes "log_ok p rs a d" "length xs \<le> length (opens d)" "length xs \<le> length (stamps d)" "write_buffers xs a d = (a', d')"
  shows "\<exists>rs'. prefix rs rs' \<and> concat (map (content d') (rs' @ [p])) = concat (map (content d) (rs @ [p])) @ concat xs \<and>
    log_bytes_written a' = log_bytes_written a + length (concat xs)"
  using write_buffers_ok [OF assms] by (auto simp: log_text_def)

definition log_demo :: "AsyncLogger" where
  "log_demo = AsyncLogger_new\<lparr>path := ''l'', roll_bytes := 3, log_fd := 5, running := True\<rparr>"

definition disk_demo :: "disk" where
  "disk_demo = \<lparr>files = [''l'' \<mapsto> []], fdt = [5 \<mapsto> File ''l''], stdout_text = [], log_tx = [TxAccept 1, TxErr EINTR],
     opens = [6, 7], stamps = [''.1'', ''.2'']\<rparr>"

lemma log_demo_ok: "log_ok ''l'' [] log_demo disk_demo"
  by (simp add: log_ok_def log_demo_def disk_demo_def AsyncLogger_new_def to_stdout_def soft_def next_names_def)

lemma rotation_keeps_log_witness:
  "\<exists>rs'. concat (map (content (snd (write_buffers [''ab'', ''cd''] log_demo disk_demo))) (rs' @ [''l''])) = ''abcd'' \<and>
    log_bytes_written (fst (write_buffers [''ab'', ''cd''] log_demo disk_demo)) = 4"
proof -
  have "length [''ab'', ''cd''] \<le> length (opens disk_demo)" "length [''ab'', ''cd''] \<le> length (stamps disk_demo)"
    "concat (map (content disk_demo) ([] @ [''l''])) = []" "log_bytes_written log_demo = 0"
    by (simp_all add: disk_demo_def log_demo_def AsyncLogger_new_def content_def)
  with rotation_keeps_log [OF log_demo_ok, of "[''ab'', ''cd'']" "fst (write_buffers [''ab'', ''cd''] log_demo disk_demo)"
      "snd (write_buffers [''ab'', ''cd''] log_demo disk_demo)"]
  show ?thesis by auto
qed

text \<open>Two rotations within one second get the same name, and the first rotated file is overwritten.\<close>

lemma same_second_rotation_loses:
  "map (content (snd (write_buffers [''abc'', ''def'', ''ghi''] log_demo (disk_demo\<lparr>stamps := [''.1'', ''.1'']\<rparr>)))) [''l.1'', ''l''] =
     [''def'', ''ghi'']"
  by code_simp

section \<open>The double buffer\<close>

text \<open>
  The callers and the log thread. A caller tests \<open>running_\<close> first (rule \<open>check\<close>) and inserts later, under the
  mutex. \<open>inserted\<close> and \<open>given\<close> are history: the bytes that callers have put into the buffer and those
  that have been handed to \<open>writeAll\<close>. The log thread is at the head of its loop, has swapped the buffers
  and writes, has left the loop, has ended, or has been joined by \<open>stop\<close>.
\<close>

datatype tpc = TLoop | TWrite | TLast | TDone | TJoined

record lsys =
  lg :: AsyncLogger
  dk :: disk
  tpc :: tpc
  checked :: "nat \<Rightarrow> bytes option"
  inserted :: bytes
  given :: bytes

definition lsys_init :: "lsys \<Rightarrow> bool" where
  "lsys_init s \<longleftrightarrow> running (lg s) \<and> current (lg s) = [] \<and> to_write (lg s) = [] \<and> tpc s = TLoop \<and>
     (\<forall>p. checked s p = None) \<and> inserted s = [] \<and> given s = []"

inductive log_step :: "lsys \<Rightarrow> lsys \<Rightarrow> bool" where
  check: "running (lg s) \<Longrightarrow> x \<noteq> [] \<Longrightarrow> checked s p = None \<Longrightarrow> log_step s (s\<lparr>checked := (checked s)(p \<mapsto> x)\<rparr>)"
| put: "checked s p = Some x \<Longrightarrow>
    log_step s (s\<lparr>lg := (lg s)\<lparr>current := current (lg s) @ x, enqueued_bytes := enqueued_bytes (lg s) + length x\<rparr>,
      checked := (checked s)(p := None), inserted := inserted s @ x\<rparr>)"
| swap: "tpc s = TLoop \<Longrightarrow> current (lg s) \<noteq> [] \<Longrightarrow> log_step s (s\<lparr>lg := swap_buffers (lg s), tpc := TWrite\<rparr>)"
| hand_over: "tpc s = TWrite \<Longrightarrow> flush_to_write (lg s) (dk s) = (a, d) \<Longrightarrow>
    log_step s (s\<lparr>lg := a, dk := d, tpc := TLoop, given := given s @ to_write (lg s)\<rparr>)"
| leave: "tpc s = TLoop \<Longrightarrow> current (lg s) = [] \<Longrightarrow> stop_requested (lg s) \<Longrightarrow> log_step s (s\<lparr>tpc := TLast\<rparr>)"
| final_flush: "tpc s = TLast \<Longrightarrow> flush_current (lg s) (dk s) = (a, d) \<Longrightarrow>
    log_step s (s\<lparr>lg := a, dk := d, tpc := TDone, given := given s @ current (lg s)\<rparr>)"
| request: "running (lg s) \<Longrightarrow> log_step s (s\<lparr>lg := (lg s)\<lparr>stop_requested := True\<rparr>\<rparr>)"
| join: "tpc s = TDone \<Longrightarrow> stop_joined (lg s) (dk s) = (a, d) \<Longrightarrow>
    log_step s (s\<lparr>lg := a, dk := d, tpc := TJoined, given := given s @ current (lg s) @ to_write (lg s)\<rparr>)"

inductive_cases log_stepE: "log_step s s'"

lemma rollIfNeeded_buffers:
  "current (fst (rollIfNeeded n a d)) = current a" "to_write (fst (rollIfNeeded n a d)) = to_write a"
  by (simp_all add: rollIfNeeded_def Let_def case_prod_beta)

lemma writeAll_buffers: "current (fst (writeAll x a d)) = current a" "to_write (fst (writeAll x a d)) = to_write a"
  by (simp_all add: writeAll_def Let_def case_prod_beta rollIfNeeded_buffers)

lemma flush_buffers:
  "flush_to_write a d = (a', d') \<Longrightarrow> current a' = current a \<and> to_write a' = []"
  "flush_current a d = (a', d') \<Longrightarrow> current a' = [] \<and> to_write a' = to_write a"
  using writeAll_buffers [of "to_write a" a d] writeAll_buffers [of "current a" a d]
  by (auto simp: flush_to_write_def flush_current_def split: prod.splits if_splits)

lemma stop_joined_buffers:
  assumes "stop_joined a d = (a', d')"
  shows "current a' = [] \<and> to_write a' = []"
proof -
  obtain a1 d1 where f: "flush_current (a\<lparr>running := False\<rparr>) d = (a1, d1)" by fastforce
  obtain a2 d2 where g: "(if to_write a1 = [] then (a1, d1) else flush_to_write a1 d1) = (a2, d2)" by fastforce
  have "current a2 = []" "to_write a2 = []"
    using flush_buffers(2) [OF f] flush_buffers(1) [of a1 d1 a2 d2] g by (auto split: if_splits)
  with assms f g show ?thesis by (auto simp: stop_joined_def Let_def)
qed

definition lsys_inv :: "lsys \<Rightarrow> bool" where
  "lsys_inv s \<longleftrightarrow> given s @ to_write (lg s) @ current (lg s) = inserted s \<and> (to_write (lg s) \<noteq> [] \<longrightarrow> tpc s = TWrite)"

lemma lsys_inv_step: "log_step s s' \<Longrightarrow> lsys_inv s \<Longrightarrow> lsys_inv s'"
proof (erule log_stepE, goal_cases)
  case (4 a d)
  then show ?case using flush_buffers(1) [of "lg s" "dk s" a d] by (auto simp: lsys_inv_def)
next
  case (6 a d)
  then show ?case using flush_buffers(2) [of "lg s" "dk s" a d] by (auto simp: lsys_inv_def)
next
  case (8 a d)
  then show ?case using stop_joined_buffers [of "lg s" "dk s" a d] by (auto simp: lsys_inv_def)
qed (auto simp: lsys_inv_def swap_buffers_def)

interpretation logger: inv_system lsys_init log_step lsys_inv
proof unfold_locales
  show "lsys_init s \<Longrightarrow> lsys_inv s" for s by (simp add: lsys_init_def lsys_inv_def)
qed (rule lsys_inv_step)

text \<open>One caller logs two bytes and the log thread takes them.\<close>

definition lsys_start :: lsys where
  "lsys_start = \<lparr>lg = log_demo, dk = disk_demo, tpc = TLoop, checked = (\<lambda>_. None), inserted = [], given = []\<rparr>"

definition lsys_taken :: lsys where
  "lsys_taken = lsys_start\<lparr>lg := log_demo\<lparr>to_write := ''ab'', enqueued_bytes := 2\<rparr>, tpc := TWrite, inserted := ''ab''\<rparr>"

lemma lsys_demo: "lsys_init lsys_start" "log_step\<^sup>*\<^sup>* lsys_start lsys_taken"
proof -
  let ?s1 = "lsys_start\<lparr>checked := [0 \<mapsto> ''ab'']\<rparr>"
  let ?s2 = "lsys_start\<lparr>lg := log_demo\<lparr>current := ''ab'', enqueued_bytes := 2\<rparr>, inserted := ''ab''\<rparr>"
  note defs = lsys_start_def lsys_taken_def log_demo_def AsyncLogger_new_def
  have "log_step lsys_start ?s1" using log_step.check [of lsys_start "''ab''" 0] by (simp add: defs)
  moreover have "log_step ?s1 ?s2" using log_step.put [of ?s1 0 "''ab''"] by (simp add: defs fun_upd_idem numeral_2_eq_2)
  moreover have "log_step ?s2 lsys_taken" using log_step.swap [of ?s2] by (simp add: defs swap_buffers_def)
  ultimately show "log_step\<^sup>*\<^sup>* lsys_start lsys_taken" by (meson r_into_rtranclp rtranclp_trans)
qed (simp add: lsys_init_def lsys_start_def log_demo_def AsyncLogger_new_def)

text \<open>
  C27: the double buffer passes the log on in order and without loss or repetition, for every interleaving
  of callers, log thread and \<open>stop\<close>: what has been handed to the writer, what the log thread holds and
  what is waiting are together what the callers inserted.
\<close>

theorem log_in_order:
  assumes "lsys_init s0" "log_step\<^sup>*\<^sup>* s0 s"
  shows "given s @ to_write (lg s) @ current (lg s) = inserted s"
  using logger.inv_reachable [OF assms] by (simp add: lsys_inv_def)

theorem log_in_order_witness: "given lsys_taken @ to_write (lg lsys_taken) @ current (lg lsys_taken) = ''ab''"
  using log_in_order [OF lsys_demo] by (simp add: lsys_taken_def)

text \<open>
  \<open>stop\<close> drains the logger: when it has joined the log thread and returns, everything inserted so far
  has been handed to the writer.
\<close>

lemma stop_drains_log:
  assumes "lsys_init s0" "log_step\<^sup>*\<^sup>* s0 s" "log_step s s'" "tpc s = TDone" "tpc s' = TJoined"
  shows "given s' = inserted s' \<and> current (lg s') = [] \<and> to_write (lg s') = []"
proof -
  have "lsys_inv s'" using lsys_inv_step [OF assms(3)] logger.inv_reachable [OF assms(1,2)] by simp
  moreover have "current (lg s') = [] \<and> to_write (lg s') = []"
    using assms(3-5) stop_joined_buffers by (auto elim!: log_stepE)
  ultimately show ?thesis by (simp add: lsys_inv_def)
qed

lemma stop_drains_log_witness:
  "\<exists>s. log_step\<^sup>*\<^sup>* lsys_start s \<and> tpc s = TJoined \<and> given s = inserted s \<and> inserted s = ''ab''"
proof -
  obtain a d where 1: "flush_to_write (lg lsys_taken) (dk lsys_taken) = (a, d)" by fastforce
  define s1 where "s1 = lsys_taken\<lparr>lg := a, dk := d, tpc := TLoop, given := ''ab''\<rparr>"
  define s2 where "s2 = s1\<lparr>lg := a\<lparr>stop_requested := True\<rparr>\<rparr>"
  define s3 where "s3 = s2\<lparr>tpc := TLast\<rparr>"
  obtain a' d' where 4: "flush_current (lg s3) (dk s3) = (a', d')" by fastforce
  define s4 where "s4 = s3\<lparr>lg := a', dk := d', tpc := TDone\<rparr>"
  obtain a'' d'' where 5: "stop_joined (lg s4) (dk s4) = (a'', d'')" by fastforce
  define s5 where "s5 = s4\<lparr>lg := a'', dk := d'', tpc := TJoined\<rparr>"
  note defs = s1_def s2_def s3_def s4_def s5_def lsys_taken_def lsys_start_def
  have r: "running a" using 1 by (auto simp: flush_to_write_def writeAll_def rollIfNeeded_def Let_def lsys_taken_def
      log_demo_def lsys_start_def AsyncLogger_new_def split: prod.splits if_splits)
  have c: "current a = []" "to_write a = []"
    using flush_buffers(1) [OF 1] by (simp_all add: lsys_taken_def log_demo_def AsyncLogger_new_def)
  have b: "current a' = []" "to_write a' = []" using flush_buffers(2) [OF 4] c by (simp_all add: s3_def s2_def)
  have "log_step lsys_taken s1" using log_step.hand_over [OF _ 1] by (simp add: s1_def lsys_taken_def lsys_start_def)
  moreover have "log_step s1 s2" using log_step.request [of s1] r by (simp add: s1_def s2_def)
  moreover have "log_step s2 s3" using log_step.leave [of s2] c by (simp add: s1_def s2_def s3_def)
  moreover have "log_step s3 s4" using log_step.final_flush [OF _ 4] c by (simp add: defs)
  ultimately have run: "log_step\<^sup>*\<^sup>* lsys_start s4"
    using lsys_demo(2) by (meson rtranclp.rtrancl_into_rtrancl)
  have st: "log_step s4 s5" using log_step.join [OF _ 5] b by (simp add: defs)
  have "given s5 = inserted s5"
    using stop_drains_log [OF lsys_demo(1) run st] by (simp add: s4_def s5_def)
  moreover have "tpc s5 = TJoined" "inserted s5 = ''ab''" by (simp_all add: defs)
  ultimately show ?thesis using run st by (meson rtranclp.rtrancl_into_rtrancl)
qed

end
