(* ===== verification/Main_Program.thy ===== *)
theory Main_Program
  imports Server_Props Logger
begin

text \<open>
  The program, \<open>src/main.cpp\<close>: the options, what it prints about them, the exit codes and the order in which logger and server are
  set up. \<open>getopt_long\<close> belongs to the C library; what its successive calls return (the option's letter,
  a question mark for anything it does not accept, and \<open>optarg\<close>) is an argument. \<open>atoi\<close> is
  \<open>(int) strtol\<close>: the 64-bit value is cut to 32 bits.
\<close>

section \<open>Definitions\<close>

definition atoi :: "string \<Rightarrow> int" where
  "atoi s = sint (word_of_int (fst (strtoll s)) :: 32 word)"

definition parseLevel :: "string \<Rightarrow> LogLevel option" where
  "parseLevel s =
     (if s = ''trace'' then Some LOG_TRACE
      else if s = ''debug'' then Some LOG_DEBUG
      else if s = ''info'' then Some LOG_INFO
      else if s = ''warn'' then Some LOG_WARN
      else if s = ''error'' then Some LOG_ERROR
      else None)"

text \<open>The loop over the options; \<open>Inl\<close> is a return from \<open>main\<close> with an exit code.\<close>

fun parse_options :: "(char \<times> string) list \<Rightarrow> Options \<times> string \<times> LogLevel \<Rightarrow> int + (Options \<times> string \<times> LogLevel)" where
  "parse_options [] st = Inr st"
| "parse_options ((c, optarg) # args) (cfg, log_file, lv) =
     (if c = CHR ''p'' then parse_options args (cfg\<lparr>port := word_of_int (atoi optarg)\<rparr>, log_file, lv)
      else if c = CHR ''t'' then parse_options args (cfg\<lparr>io_threads := atoi optarg\<rparr>, log_file, lv)
      else if c = CHR ''d'' then parse_options args (cfg\<lparr>doc_root := optarg\<rparr>, log_file, lv)
      else if c = CHR ''i'' then parse_options args (cfg\<lparr>opt_idle_timeout_s := atoi optarg\<rparr>, log_file, lv)
      else if c = CHR ''m'' then parse_options args (cfg\<lparr>max_connections := atoi optarg\<rparr>, log_file, lv)
      else if c = CHR ''l'' then parse_options args (cfg, optarg, lv)
      else if c = CHR ''v'' then
        (case parseLevel optarg of None \<Rightarrow> Inl 1 | Some lv \<Rightarrow> parse_options args (cfg, log_file, lv))
      else if c = CHR ''h'' then Inl 0
      else Inl 1)"

definition main_options :: "(char \<times> string) list \<Rightarrow> int + (Options \<times> string \<times> LogLevel)" where
  "main_options args =
     (case parse_options args (Options_new, ''-'', LOG_INFO) of
        Inl code \<Rightarrow> Inl code
      | Inr (cfg, log_file, lv) \<Rightarrow> if io_threads cfg < 0 then Inl 1 else Inr (cfg, log_file, lv))"

text \<open>What these two print, on standard output and on standard error.\<close>

definition usage_options :: string where
  "usage_options =
     ''  -p, --port N        listen port (default 8080, 0 = pick a free port)'' @ [LF] @
     ''  -t, --threads N     sub-reactor IO threads; 0 = single-threaded reactor (default 0)'' @ [LF] @
     ''  -d, --doc-root DIR  static file root (default ./www)'' @ [LF] @
     ''  -i, --idle N        idle connection timeout in seconds, 0 = disabled (default 60)'' @ [LF] @
     ''  -m, --max-conn N    max concurrent connections (default 20000)'' @ [LF] @
     ''  -l, --log FILE      log file, '-' = stdout (default -)'' @ [LF] @
     ''  -v, --log-level LV  trace|debug|info|warn|error (default info)'' @ [LF] @
     ''  -h, --help          show this help'' @ [LF]"

definition printUsage :: "string \<Rightarrow> string" where
  "printUsage prog = (''usage: '' @ prog @ '' [options]'' @ [LF]) @ usage_options"

fun parse_output :: "string \<Rightarrow> (char \<times> string) list \<Rightarrow> string \<times> string" where
  "parse_output prog [] = ([], [])"
| "parse_output prog ((c, optarg) # args) =
     (if c \<in> set ''ptdiml'' then parse_output prog args
      else if c = CHR ''v'' then
        (case parseLevel optarg of None \<Rightarrow> ([], ''unknown log level: '' @ optarg @ [LF]) | Some lv \<Rightarrow> parse_output prog args)
      else (printUsage prog, []))"

definition main_output :: "string \<Rightarrow> (char \<times> string) list \<Rightarrow> string \<times> string" where
  "main_output prog args =
     (case parse_options args (Options_new, ''-'', LOG_INFO) of
        Inl code \<Rightarrow> parse_output prog args
      | Inr (cfg, log_file, lv) \<Rightarrow> if io_threads cfg < 0 then ([], ''--threads must be >= 0'' @ [LF]) else ([], []))"

text \<open>
  The rest of \<open>main\<close> up to the main loop. \<open>Inl\<close> is the exit code when there is nothing to run; then the
  logger has been stopped (its thread had nothing to do but to end).
\<close>

definition main_boot ::
  "(char \<times> string) list \<Rightarrow> disk \<Rightarrow> socket_answers \<Rightarrow> (nat \<Rightarrow> world \<times> int \<times> int) \<Rightarrow> accept_answer list \<Rightarrow> world \<Rightarrow> int \<times> int
   \<Rightarrow> int + (AsyncLogger \<times> disk \<times> system)" where
  "main_boot args d k boot script w fds =
     (case main_options args of
        Inl code \<Rightarrow> Inl code
      | Inr (cfg, log_file, lv) \<Rightarrow>
          let (a, d) = log_start log_file 1000 (256 * 1024 * 1024) AsyncLogger_new d;
              a = a\<lparr>level := lv\<rparr>
          in case Server_start k boot (Server_new cfg script w fds) of
               (ok, sy) \<Rightarrow> if ok then Inr (a, d, sy) else Inl 1)"

text \<open>The signal handler, run by the thread that the signal interrupts.\<close>

definition onSignal :: "thread \<Rightarrow> system option \<Rightarrow> system option" where
  "onSignal t g_server = map_option (Server_stop t) g_server"

section \<open>Properties\<close>

lemma atoi_range: "- (2 ^ 31) \<le> atoi s \<and> atoi s < 2 ^ 31"
  unfolding atoi_def using sint_range_size [of "word_of_int (fst (strtoll s)) :: 32 word"] by (simp add: word_size)

definition int_options :: "Options \<Rightarrow> bool" where
  "int_options cfg \<longleftrightarrow> - (2 ^ 31) \<le> max_connections cfg \<and> max_connections cfg < 2 ^ 31 \<and>
     - (2 ^ 31) \<le> opt_idle_timeout_s cfg \<and> opt_idle_timeout_s cfg < 2 ^ 31 \<and>
     - (2 ^ 31) \<le> io_threads cfg \<and> io_threads cfg < 2 ^ 31"

lemma parse_options_int:
  "parse_options args (cfg, lf, lv) = Inr (cfg', lf', lv') \<Longrightarrow> int_options cfg \<Longrightarrow> int_options cfg'"
proof (induction args "(cfg, lf, lv)" arbitrary: cfg lf lv rule: parse_options.induct)
  case (2 c optarg args cfg lf lv)
  have "int_options (cfg\<lparr>port := p\<rparr>)" "int_options (cfg\<lparr>doc_root := r\<rparr>)" for p r
    using "2.prems"(2) by (simp_all add: int_options_def)
  moreover have "int_options (cfg\<lparr>io_threads := atoi optarg\<rparr>)" "int_options (cfg\<lparr>opt_idle_timeout_s := atoi optarg\<rparr>)"
      "int_options (cfg\<lparr>max_connections := atoi optarg\<rparr>)"
    using "2.prems"(2) atoi_range [of optarg] by (simp_all add: int_options_def)
  ultimately show ?case using 2 by (auto split: if_splits option.splits)
qed simp

text \<open>
  The program does not end at its options without saying why: the usage message when it was asked for or when
  an option is unknown, else one line on standard error; and it says nothing otherwise.
\<close>

lemma parse_output_code:
  "(case parse_options args st of
      Inl code \<Rightarrow> (code = 0 \<longrightarrow> parse_output prog args = (printUsage prog, [])) \<and> parse_output prog args \<noteq> ([], []) \<and> (code = 0 \<or> code = 1)
    | Inr _ \<Rightarrow> parse_output prog args = ([], []))"
proof (induction args arbitrary: st)
  case (Cons x args)
  obtain c optarg cfg lf lv where [simp]: "x = (c, optarg)" "st = (cfg, lf, lv)" by (cases x, cases st) auto
  have u [simp]: "printUsage prog \<noteq> []" by (simp add: printUsage_def)
  consider (more) "c \<in> set ''ptdiml''" | (level) "c = CHR ''v''" | (no) "c \<notin> set ''ptdiml''" "c \<noteq> CHR ''v''" by blast
  then show ?case
  proof cases
    case more
    then have "\<exists>st'. parse_options (x # args) st = parse_options args st'" by auto
    then obtain st' where "parse_options (x # args) st = parse_options args st'" by blast
    moreover have "parse_output prog (x # args) = parse_output prog args" using more by simp
    ultimately show ?thesis using Cons.IH [of st'] by (simp only:)
  next
    case level
    show ?thesis
    proof (cases "parseLevel optarg")
      case (Some l)
      from Cons.IH [of "(cfg, lf, l)"] level Some show ?thesis by (simp split: sum.splits)
    qed (simp add: level)
  next
    case no
    then show ?thesis by simp
  qed
qed simp

lemma main_says_why:
  "(case main_options args of
      Inl code \<Rightarrow> (code = 0 \<longrightarrow> main_output prog args = (printUsage prog, [])) \<and> main_output prog args \<noteq> ([], []) \<and> (code = 0 \<or> code = 1)
    | Inr _ \<Rightarrow> main_output prog args = ([], []))"
  using parse_output_code [where args = args and st = "(Options_new, ''-'', LOG_INFO)" and prog = prog]
  by (auto simp: main_options_def main_output_def split: sum.splits)

text \<open>The defaults that the usage message names are those of \<open>Server::Options\<close>.\<close>

lemma usage_defaults:
  "search (''listen port (default '' @ to_string (unat (port Options_new))) (printUsage prog) \<noteq> None"
  "search (''reactor (default '' @ int_to_string (io_threads Options_new)) (printUsage prog) \<noteq> None"
  "search (''file root (default '' @ doc_root Options_new) (printUsage prog) \<noteq> None"
  "search (''disabled (default '' @ int_to_string (opt_idle_timeout_s Options_new)) (printUsage prog) \<noteq> None"
  "search (''connections (default '' @ int_to_string (max_connections Options_new)) (printUsage prog) \<noteq> None"
proof -
  have tail: "sublist p usage_options \<Longrightarrow> search p (printUsage prog) \<noteq> None" for p
    unfolding printUsage_def search_sublist sublist_append by simp
  show "search (''listen port (default '' @ to_string (unat (port Options_new))) (printUsage prog) \<noteq> None" by (rule tail) code_simp
  show "search (''reactor (default '' @ int_to_string (io_threads Options_new)) (printUsage prog) \<noteq> None" by (rule tail) code_simp
  show "search (''file root (default '' @ doc_root Options_new) (printUsage prog) \<noteq> None" by (rule tail) code_simp
  show "search (''disabled (default '' @ int_to_string (opt_idle_timeout_s Options_new)) (printUsage prog) \<noteq> None" by (rule tail) code_simp
  show "search (''connections (default '' @ int_to_string (max_connections Options_new)) (printUsage prog) \<noteq> None" by (rule tail) code_simp
qed

text \<open>What a successful start consists of.\<close>

lemma main_boot_started:
  assumes "main_boot args d k boot script w fds = Inr (a, d', sy)"
  obtains cfg lf lv where "main_options args = Inr (cfg, lf, lv)" "Server_start k boot (Server_new cfg script w fds) = (True, sy)"
    "a = (fst (log_start lf 1000 (256 * 1024 * 1024) AsyncLogger_new d))\<lparr>level := lv\<rparr>"
    "d' = snd (log_start lf 1000 (256 * 1024 * 1024) AsyncLogger_new d)"
proof -
  obtain cfg lf lv where "main_options args = Inr (cfg, lf, lv)"
    and st: "fst (Server_start k boot (Server_new cfg script w fds))" "snd (Server_start k boot (Server_new cfg script w fds)) = sy"
    and "a = (fst (log_start lf 1000 (256 * 1024 * 1024) AsyncLogger_new d))\<lparr>level := lv\<rparr>"
      "d' = snd (log_start lf 1000 (256 * 1024 * 1024) AsyncLogger_new d)"
    using assms by (auto simp: main_boot_def Let_def case_prod_beta split: sum.splits if_splits prod.splits)
  moreover have "Server_start k boot (Server_new cfg script w fds) = (True, sy)" by (rule prod_eqI) (use st in simp_all)
  ultimately show ?thesis using that by blast
qed

text \<open>
  C40: what the program starts with. Whatever the command line, the server is only started with a
  non-negative number of threads and with numbers in the range of \<open>int\<close>; then every loop exists that
  the options ask for, and the system is in the consistent state from which it runs.
\<close>

theorem boot_consistent:
  assumes "main_boot args d k boot script w fds = Inr (a, d', srv, s)"
    and "0 \<le> fst fds" "\<And>i. 0 \<le> fst (snd (boot i))"
  shows "int_options (opts srv) \<and> 0 \<le> io_threads (opts srv) \<and> int (length (sub_loops srv)) = io_threads (opts srv) \<and>
    running a \<and> main_inv [] (srv, s)"
proof -
  obtain cfg lf lv where o: "main_options args = Inr (cfg, lf, lv)"
    and st: "Server_start k boot (Server_new cfg script w fds) = (True, srv, s)"
    and a: "a = (fst (log_start lf 1000 (256 * 1024 * 1024) AsyncLogger_new d))\<lparr>level := lv\<rparr>"
    by (rule main_boot_started [OF assms(1)])
  have "int_options Options_new" by (simp add: int_options_def Options_new_def)
  with o have "int_options cfg" "0 \<le> io_threads cfg"
    using parse_options_int [of args Options_new "''-''" LOG_INFO] by (auto simp: main_options_def split: sum.splits if_splits)
  moreover have "running a" by (simp add: a log_start_def Let_def case_prod_beta AsyncLogger_new_def)
  ultimately show ?thesis using start_inv [OF assms(2,3) st] by simp
qed

theorem boot_consistent_witness:
  "\<exists>a d' srv s. main_boot [(CHR ''t'', ''2''), (CHR ''p'', ''0'')] disk_demo demo_sockets demo_boot [] (demo_world []) (3, 4) = Inr (a, d', srv, s) \<and>
     int (length (sub_loops srv)) = 2 \<and> main_inv [] (srv, s)"
proof -
  have "main_options [(CHR ''t'', ''2''), (CHR ''p'', ''0'')] = Inr (Options_new\<lparr>io_threads := 2, port := 0\<rparr>, ''-'', LOG_INFO)"
    by code_simp
  then obtain a d' srv s where b: "main_boot [(CHR ''t'', ''2''), (CHR ''p'', ''0'')] disk_demo demo_sockets demo_boot [] (demo_world []) (3, 4) = Inr (a, d', srv, s)"
      "opts srv = Options_new\<lparr>io_threads := 2, port := 0\<rparr>"
    by (auto simp: main_boot_def Let_def case_prod_beta Server_start_def initListenSocket_def Server_new_def demo_sockets_def new_loop_def)
  from boot_consistent [OF b(1) _ demo_descriptors] b show ?thesis by simp
qed

text \<open>
  A signal that interrupts the main loop's own thread sets the flag but does not write to the main loop's
  eventfd, and the interrupted \<open>epoll_wait\<close> is repeated by \<open>Epoller::wait\<close>.
\<close>

lemma signal_in_main_thread:
  "onSignal MainThread (Some (srv, (objs, e))) = Some (srv', (objs', e')) \<Longrightarrow>
     quit_flag (loop e') \<and> eventfd (sys e') = eventfd (sys e)"
  by (auto simp: onSignal_def Server_stop_def quit_loop_def quit_def Let_def)

text \<open>The port is cut to 16 bits without a message.\<close>

lemma port_wraps: "main_options [(CHR ''p'', ''70000'')] = Inr (Options_new\<lparr>port := 4464\<rparr>, ''-'', LOG_INFO)"
  by code_simp

end
