(* ===== verification/Shutdown.thy ===== *)
theory Shutdown
  imports Server_Props
begin

text \<open>
  The end of the server: what \<open>start\<close> (\<open>src/server.cpp\<close>) does from the moment it is told to stop until it returns, the destructors \<open>~Epoller\<close> (\<open>src/epoller.cpp\<close>), \<open>~EventLoop\<close>
  (\<open>src/event_loop.cpp\<close>) and \<open>~Server\<close> (\<open>src/server.cpp\<close>), with the members that C++ destroys after the body of
  a destructor, and the account of all descriptors from the start of the server to its end.
\<close>

section \<open>From \<open>stop\<close> to the return of \<open>start\<close>\<close>

text \<open>
  A loop that is told to quit while it waits or works still finishes its turn, and only then finds
  \<open>quit_\<close> set. A list names the loops that do, 0 the main loop, in the order in which they finish.
\<close>

fun last_turns :: "(u32 \<Rightarrow> string option) \<Rightarrow> filesystem \<Rightarrow> nat list \<Rightarrow> system \<Rightarrow> system option" where
  "last_turns inet_ntop fs [] sy = Some sy"
| "last_turns inet_ntop fs (n # ns) sy =
     (case (case n of 0 \<Rightarrow> main_iteration inet_ntop fs sy
                    | Suc k \<Rightarrow> if k < length (sub_loops (fst sy)) then sub_iteration inet_ntop fs k sy else Some sy) of
        None \<Rightarrow> None | Some sy \<Rightarrow> last_turns inet_ntop fs ns sy)"

definition end_loop :: "task lstate \<Rightarrow> task lstate" where
  "end_loop s = (fst s, (snd s)\<lparr>loop := (loop (snd s))\<lparr>looping := False\<rparr>\<rparr>)"

definition close_listener :: "system \<Rightarrow> system" where
  "close_listener sy =
     (case sy of (srv, (objs, e)) \<Rightarrow>
        if 0 \<le> listen_fd srv then (srv\<lparr>listen_fd := - 1\<rparr>, (objs, fd_close (listen_fd srv) e)) else sy)"

text \<open>
  The rest of \<open>start\<close> when the main loop has returned: the sub loops are told to quit, \<open>join\<close> waits for them,
  among them those of \<open>joins\<close> that are in the middle of a turn, and the listening socket is closed.
\<close>

definition Server_finish :: "(u32 \<Rightarrow> string option) \<Rightarrow> filesystem \<Rightarrow> nat list \<Rightarrow> system \<Rightarrow> system option" where
  "Server_finish inet_ntop fs joins sy =
     (case sy of (srv, s) \<Rightarrow>
        (case last_turns inet_ntop fs (map Suc joins) (srv\<lparr>sub_loops := map (quit_loop False) (sub_loops srv)\<rparr>, end_loop s) of
           None \<Rightarrow> None
         | Some (srv, s) \<Rightarrow> Some (close_listener (srv\<lparr>sub_loops := map end_loop (sub_loops srv)\<rparr>, s))))"

text \<open>The whole way, when thread \<open>t\<close> calls \<open>stop\<close> and the loops of \<open>lasts\<close> are in the middle of a turn.\<close>

definition Server_end :: "(u32 \<Rightarrow> string option) \<Rightarrow> filesystem \<Rightarrow> thread \<Rightarrow> nat list \<Rightarrow> nat list \<Rightarrow> system \<Rightarrow> system option" where
  "Server_end inet_ntop fs t lasts joins sy =
     (case last_turns inet_ntop fs lasts (Server_stop t sy) of None \<Rightarrow> None | Some sy \<Rightarrow> Server_finish inet_ntop fs joins sy)"

section \<open>Destructors\<close>

definition Epoller_destroy :: "Epoller \<Rightarrow> 'task env \<Rightarrow> 'task env" where
  "Epoller_destroy p e = (if 0 \<le> epfd p then fd_close (epfd p) e else e)"

text \<open>
  The members of \<open>EventLoop\<close> that own something go in the reverse order of their declaration: \<open>connections_\<close>,
  whose \<open>shared_ptr\<close>s are the last ones to the connections, \<open>pending_\<close>, whose closures are dropped without
  being run, \<open>timers_\<close> and \<open>poller_\<close>.
\<close>

definition dropConnection :: "nat \<Rightarrow> 'task lstate \<Rightarrow> 'task lstate" where
  "dropConnection i s =
     (case s of (objs, e) \<Rightarrow>
        (case obj objs i of
           None \<Rightarrow> (objs, e)
         | Some c \<Rightarrow> if connections (loop e) (c_fd c) = Some i then (objs[i := None], snd (Connection_destroy c e)) else (objs, e)))"

definition EventLoop_destroy :: "'task lstate \<Rightarrow> 'task lstate" where
  "EventLoop_destroy s =
     (case s of (objs, e) \<Rightarrow>
        let e = (if 0 \<le> wakeup_fd (loop e) then fd_close (wakeup_fd (loop e)) e else e);
            (objs, e) = fold dropConnection [0..<length objs] (objs, e);
            e = e\<lparr>loop := (loop e)\<lparr>connections := Map.empty, pending := [], timers := TimerHeap_new []\<rparr>\<rparr>
        in (objs, Epoller_destroy (poller (loop e)) e))"

definition Server_destroy :: "thread \<Rightarrow> system \<Rightarrow> system" where
  "Server_destroy t sy =
     (case Server_stop t sy of (srv, s) \<Rightarrow> (srv\<lparr>sub_loops := map EventLoop_destroy (sub_loops srv)\<rparr>, EventLoop_destroy s))"

section \<open>What a loop leaves behind\<close>

lemma dropConnections:
  assumes inv: "loop_inv (objs, e0)" and tab: "connections (loop e) = connections (loop e0)" and k: "k \<le> length objs"
  shows "\<exists>e'. fold dropConnection [0..<k] (objs, e) = (replicate k None @ drop k objs, e') \<and>
    connections (loop e') = connections (loop e0) \<and> epfd (poller (loop e')) = epfd (poller (loop e)) \<and>
    closed_fds (sys e') = closed_fds (sys e) @ open_fds (take k objs) \<and> pending (loop e') = pending (loop e)"
  using k
proof (induction k)
  case 0
  show ?case by (simp add: tab)
next
  case (Suc k)
  then obtain e1 where e1: "fold dropConnection [0..<k] (objs, e) = (replicate k None @ drop k objs, e1)"
      "connections (loop e1) = connections (loop e0)" "epfd (poller (loop e1)) = epfd (poller (loop e))"
      "closed_fds (sys e1) = closed_fds (sys e) @ open_fds (take k objs)" "pending (loop e1) = pending (loop e)" by auto
  have o: "obj (replicate k None @ drop k objs) k = objs ! k" using Suc.prems by (simp add: obj_def nth_append)
  have t: "take (Suc k) objs = take k objs @ [objs ! k]" and d: "drop k objs = objs ! k # drop (Suc k) objs"
    using Suc.prems by (simp_all add: take_Suc_conv_app_nth Cons_nth_drop_Suc)
  have u: "(replicate k None @ drop k objs)[k := None] = replicate (Suc k) None @ drop (Suc k) objs"
    by (simp add: d list_update_append replicate_append_same [symmetric])
  have fs: "fold dropConnection [0..<Suc k] (objs, e) = dropConnection k (replicate k None @ drop k objs, e1)" using e1(1) by simp
  show ?case
  proof (cases "objs ! k")
    case None
    have "dropConnection k (replicate k None @ drop k objs, e1) = (replicate (Suc k) None @ drop (Suc k) objs, e1)"
      using o None d by (simp add: dropConnection_def replicate_append_same [symmetric])
    with fs e1(2-5) t None show ?thesis by (intro exI [of _ e1]) simp
  next
    case (Some c)
    then have oc: "obj objs k = Some c" using Suc.prems by (simp add: obj_def)
    note D = loop_invD [OF inv oc]
    let ?e = "fd_close (c_fd c) (on_poller (Epoller_del (c_fd c)) e1)"
    have "fold dropConnection [0..<Suc k] (objs, e) = (replicate (Suc k) None @ drop (Suc k) objs, ?e)"
      unfolding fs using e1(2) o Some D(2,6) u by (simp add: dropConnection_def Connection_destroy_def)
    moreover have "connections (loop ?e) = connections (loop e0)" "epfd (poller (loop ?e)) = epfd (poller (loop e))"
        "closed_fds (sys ?e) = closed_fds (sys e) @ open_fds (take (Suc k) objs)" "pending (loop ?e) = pending (loop e)"
      using e1 t Some by (simp_all add: fd_close_def on_poller_def frame_simps)
    ultimately show ?thesis by blast
  qed
qed

lemma EventLoop_destroy_closes:
  assumes inv: "loop_inv s"
  shows "closed_fds (sys (snd (EventLoop_destroy s))) = closed_fds (sys (snd s)) @ filter (\<lambda>fd. 0 \<le> fd) [wakeup_fd (loop (snd s))] @
      open_fds (fst s) @ [epfd (poller (loop (snd s)))] \<and> open_fds (fst (EventLoop_destroy s)) = []"
proof -
  obtain objs e where s: "s = (objs, e)" by (cases s)
  define e1 where "e1 = (if 0 \<le> wakeup_fd (loop e) then fd_close (wakeup_fd (loop e)) e else e)"
  have l: "loop e1 = loop e" "closed_fds (sys e1) = closed_fds (sys e) @ filter (\<lambda>fd. 0 \<le> fd) [wakeup_fd (loop e)]"
    by (simp_all add: e1_def fd_close_def)
  have ep: "0 \<le> epfd (poller (loop e))" using inv by (simp add: s loop_inv_def loop_ok_def)
  obtain e2 where e2: "fold dropConnection [0..<length objs] (objs, e1) = (replicate (length objs) None @ drop (length objs) objs, e2)"
      "epfd (poller (loop e2)) = epfd (poller (loop e))" "closed_fds (sys e2) = closed_fds (sys e1) @ open_fds objs"
    using dropConnections [OF inv [unfolded s], of e1 "length objs"] l(1) by auto
  have n: "open_fds (replicate k None) = []" for k by (induction k) simp_all
  have "EventLoop_destroy s = (replicate (length objs) None,
      Epoller_destroy (poller (loop e2)) (e2\<lparr>loop := (loop e2)\<lparr>connections := Map.empty, pending := [], timers := TimerHeap_new []\<rparr>\<rparr>))"
    using e2(1) by (simp add: EventLoop_destroy_def s e1_def [symmetric])
  with e2(2,3) l(2) ep n show ?thesis by (simp add: s Epoller_destroy_def fd_close_def)
qed

section \<open>The way to the end keeps the invariant\<close>

text \<open>\<open>l'\<close> is \<open>l\<close> but for its flags and the eventfd.\<close>

definition same_loop :: "task lstate \<Rightarrow> task lstate \<Rightarrow> bool" where
  "same_loop l l' \<longleftrightarrow> (case (loop (snd l), loop (snd l')) of (a, b) \<Rightarrow>
     fst l' = fst l \<and> poller b = poller a \<and> connections b = connections a \<and> timers b = timers a \<and> wakeup_fd b = wakeup_fd a \<and>
     acceptor_fd b = acceptor_fd a \<and> pending b = pending a \<and> closed_fds (sys (snd l')) = closed_fds (sys (snd l)))"

lemma same_quit: "same_loop l (quit_loop b l)"
  by (simp add: same_loop_def quit_loop_def quit_def wakeup_def Let_def)

lemma counters_quit [simp]: "counters (snd (quit_loop b l)) = counters (snd l)"
  by (simp add: quit_loop_def quit_def wakeup_def Let_def)

lemma same_end: "same_loop l (end_loop l)"
  by (simp add: same_loop_def end_loop_def)

lemma same_loop_fds: "same_loop l l' \<Longrightarrow> own_fds l' = own_fds l \<and> loop_fds l' = loop_fds l"
  by (simp add: same_loop_def own_fds_def loop_fds_def)

lemma same_loop_inv:
  assumes "same_loop l l'" "loop_inv l"
  shows "loop_inv l'"
proof -
  have "loop_inv (fst l, snd l')"
    by (rule loop_inv_cong [of _ "snd l"]) (use assms loop_inv_timers [of "fst l" "snd l"] in \<open>simp_all add: same_loop_def\<close>)
  moreover have "(fst l, snd l') = l'" using assms(1) by (simp add: same_loop_def prod_eq_iff)
  ultimately show ?thesis by simp
qed

lemma srv_inv_same:
  assumes "same_loop l l'" "srv_inv lfd N ct todo (add_mset l L)"
  shows "srv_inv lfd N ct todo (add_mset l' L)"
proof -
  have "loop_inv l'" using assms by (auto simp: srv_inv_def intro: same_loop_inv)
  moreover have "own_fds l' = own_fds l" "loop_fds l' = loop_fds l" "fst l' = fst l" "timers (loop (snd l')) = timers (loop (snd l))"
      "closed_fds (sys (snd l')) = closed_fds (sys (snd l))" "acceptor_fd (loop (snd l')) = acceptor_fd (loop (snd l))"
    using assms(1) same_loop_fds [OF assms(1)] by (simp_all add: same_loop_def)
  ultimately show ?thesis
    using assms(2) by (simp add: srv_inv_def fds_ok_def conn_fds_def reserved_def open_count_def closed_in_def idle_cover_def)
qed

lemma srv_inv_same_list:
  "list_all2 same_loop ls ls' \<Longrightarrow> srv_inv lfd N ct todo (mset ls + L) \<Longrightarrow> srv_inv lfd N ct todo (mset ls' + L)"
proof (induction arbitrary: L rule: list_all2_induct)
  case (Cons l ls l' ls')
  from srv_inv_same [OF Cons.hyps(1)] Cons.prems have "srv_inv lfd N ct todo (mset ls + add_mset l' L)" by simp
  from Cons.IH [OF this] show ?case by simp
qed simp

text \<open>The same server with its flags changed.\<close>

definition same_system :: "system \<Rightarrow> system \<Rightarrow> bool" where
  "same_system sy sy' \<longleftrightarrow> listen_fd (fst sy') = listen_fd (fst sy) \<and> granted (fst sy') = granted (fst sy) \<and>
     same_loop (snd sy) (snd sy') \<and> counters (snd (snd sy')) = counters (snd (snd sy)) \<and>
     list_all2 same_loop (sub_loops (fst sy)) (sub_loops (fst sy'))"

lemma same_system_inv:
  assumes same: "same_system sy sy'" and inv: "main_inv [] sy"
  shows "main_inv [] sy' \<and> server_fds sy' = server_fds sy"
proof -
  obtain srv s srv' s' where sy: "sy = (srv, s)" "sy' = (srv', s')" by (cases sy; cases sy')
  have "srv_inv (listen_fd srv) (mset (granted srv)) (counters (snd s)) [] (mset (sub_loops srv') + {#s'#})"
    by (rule srv_inv_same_list [of "sub_loops srv"], use same in \<open>simp add: same_system_def sy\<close>)
      (use srv_inv_same [of s s'] same inv in \<open>simp add: same_system_def sy main_inv_def\<close>)
  moreover have "map own_fds ls' = map own_fds ls" if "list_all2 same_loop ls ls'" for ls ls'
    using that by (induction rule: list_all2_induct) (simp_all add: same_loop_fds)
  then have "map own_fds (sub_loops srv') = map own_fds (sub_loops srv)" using same by (simp add: same_system_def sy)
  ultimately show ?thesis
    using same same_loop_fds [of s s'] by (simp add: same_system_def sy main_inv_def server_fds_def)
qed

lemma same_stop: "same_system sy (Server_stop t sy)"
  by (cases sy) (simp add: same_system_def Server_stop_def list_all2_conv_all_nth same_quit Let_def)

lemma same_map: "(\<And>l. same_loop l (f l)) \<Longrightarrow> list_all2 same_loop ls (map f ls)"
  by (simp add: list_all2_conv_all_nth)

lemma last_turns_inv:
  "main_inv [] sy \<Longrightarrow> \<exists>sy'. last_turns inet_ntop fs ns sy = Some sy' \<and> main_inv [] sy' \<and> server_fds sy' = server_fds sy"
proof (induction ns arbitrary: sy)
  case (Cons n ns)
  let ?turn = "case n of 0 \<Rightarrow> main_iteration inet_ntop fs sy
      | Suc k \<Rightarrow> if k < length (sub_loops (fst sy)) then sub_iteration inet_ntop fs k sy else Some sy"
  have "\<exists>sy1. ?turn = Some sy1 \<and> main_inv [] sy1 \<and> server_fds sy1 = server_fds sy"
    using main_iteration_inv [OF Cons.prems] sub_iteration_inv [OF Cons.prems] Cons.prems by (auto split: nat.split simp del: split_paired_Ex)
  then obtain sy1 where 1: "?turn = Some sy1" "main_inv [] sy1" "server_fds sy1 = server_fds sy" by blast
  from Cons.IH [OF 1(2)] 1(1,3) show ?case by simp
qed simp

text \<open>The server comes to its end from every state, and the invariant holds just before the listening socket is closed.\<close>

lemma Server_end_inv:
  assumes "main_inv [] sy"
  shows "\<exists>sy'. Server_end inet_ntop fs t lasts joins sy = Some (close_listener sy') \<and> main_inv [] sy' \<and> server_fds sy' = server_fds sy"
proof -
  note S = same_system_inv [OF same_stop assms, of t]
  obtain srv s where 1: "last_turns inet_ntop fs lasts (Server_stop t sy) = Some (srv, s)" "main_inv [] (srv, s)"
      "server_fds (srv, s) = server_fds sy"
    using last_turns_inv [OF conjunct1 [OF S], of inet_ntop fs lasts] conjunct2 [OF S] by auto
  let ?sy2 = "(srv\<lparr>sub_loops := map (quit_loop False) (sub_loops srv)\<rparr>, end_loop s)"
  have "same_system (srv, s) ?sy2" by (simp add: same_system_def same_map same_quit same_end) (simp add: end_loop_def)
  note Q = same_system_inv [OF this 1(2)]
  obtain srv3 s3 where 3: "last_turns inet_ntop fs (map Suc joins) ?sy2 = Some (srv3, s3)" "main_inv [] (srv3, s3)"
      "server_fds (srv3, s3) = server_fds sy"
    using last_turns_inv [OF conjunct1 [OF Q], of inet_ntop fs "map Suc joins"] conjunct2 [OF Q] 1(3) by auto
  let ?sy4 = "(srv3\<lparr>sub_loops := map end_loop (sub_loops srv3)\<rparr>, s3)"
  have "same_system (srv3, s3) ?sy4" by (simp add: same_system_def same_map same_end) (simp add: same_loop_def)
  from same_system_inv [OF this 3(2)] 1(1) 3(1,3) show ?thesis
    by (intro exI [of _ ?sy4]) (simp add: Server_end_def Server_finish_def)
qed

section \<open>The account of all descriptors\<close>

definition loops :: "system \<Rightarrow> task lstate list" where
  "loops sy = snd sy # sub_loops (fst sy)"

definition closed_by :: "system \<Rightarrow> int list" where
  "closed_by sy = concat (map (\<lambda>l. closed_fds (sys (snd l))) (loops sy))"

definition queued_fds :: "system \<Rightarrow> int list" where
  "queued_fds sy = concat (map (\<lambda>l. map task_fd (pending (loop (snd l)))) (loops sy))"

text \<open>\<open>l'\<close> is \<open>l\<close> as far as its descriptors are concerned.\<close>

definition same_fds :: "task lstate \<Rightarrow> task lstate \<Rightarrow> bool" where
  "same_fds l l' \<longleftrightarrow> loop_inv l' \<and> open_fds (fst l') = open_fds (fst l) \<and> own_fds l' = own_fds l \<and>
     closed_fds (sys (snd l')) = closed_fds (sys (snd l))"

lemma same_loop_same_fds: "same_loop l l' \<Longrightarrow> loop_inv l \<Longrightarrow> same_fds l l'"
  by (simp add: same_fds_def same_loop_fds same_loop_inv) (simp add: same_loop_def)

lemma destroyed_loops:
  assumes "list_all2 same_fds ls ls'"
  shows "mset (concat (map (\<lambda>l. closed_fds (sys (snd (EventLoop_destroy l)))) ls')) =
    mset (concat (map (\<lambda>l. closed_fds (sys (snd l))) ls)) + mset (concat (map (\<lambda>l. open_fds (fst l)) ls)) +
    mset (filter (\<lambda>fd. 0 \<le> fd) (concat (map own_fds ls))) \<and> (\<forall>l \<in> set ls'. open_fds (fst (EventLoop_destroy l)) = [])"
  using assms
proof (induction rule: list_all2_induct)
  case (Cons l ls l' ls')
  then have "loop_inv l'" by (simp add: same_fds_def)
  moreover from this have "0 \<le> epfd (poller (loop (snd l')))" by (cases l') (simp add: loop_inv_def loop_ok_def)
  ultimately show ?case using Cons EventLoop_destroy_closes [of l'] by (auto simp: same_fds_def own_fds_def)
qed simp

text \<open>What the destructor of a server closes whose \<open>start\<close> has returned, and what is left.\<close>

lemma destroy_account:
  assumes inv: "main_inv [] sy"
  shows "mset (closed_by (Server_destroy t (close_listener sy))) + mset (queued_fds (close_listener sy)) =
      mset (granted (fst (close_listener sy))) + mset (filter (\<lambda>fd. 0 \<le> fd) (server_fds sy)) \<and>
    (\<forall>l \<in> set (loops (Server_destroy t (close_listener sy))). open_fds (fst l) = [])"
proof -
  obtain srv objs e where sy: "sy = (srv, (objs, e))" by (metis prod.collapse)
  let ?s = "(objs, e)"
  let ?ls = "?s # sub_loops srv"
  have loops: "\<forall>l \<in> set ?ls. loop_inv l" using inv by (simp add: main_inv_def srv_inv_def sy)
  have acc: "mset (granted srv) = mset (concat (map (\<lambda>l. closed_fds (sys (snd l))) ?ls)) +
      mset (concat (map (\<lambda>l. open_fds (fst l)) ?ls)) + mset (concat (map (\<lambda>l. map task_fd (pending (loop (snd l)))) ?ls))"
  proof -
    have split: "mset (concat (map loop_fds ls)) = mset (concat (map (\<lambda>l. open_fds (fst l)) ls)) +
        mset (concat (map (\<lambda>l. map task_fd (pending (loop (snd l)))) ls))" for ls
      by (induction ls) (simp_all add: loop_fds_def)
    have "mset (granted srv) = mset (concat (map (\<lambda>l. closed_fds (sys (snd l))) ?ls)) + mset (concat (map loop_fds ?ls))"
      using inv unfolding sy main_inv_def srv_inv_def prod.case mset.simps(2) [symmetric] closed_in_list conn_fds_list by simp
    then show ?thesis unfolding split by (simp add: ac_simps)
  qed
  let ?e = "if 0 \<le> listen_fd srv then fd_close (listen_fd srv) e else e"
  define srv1 where "srv1 = (if 0 \<le> listen_fd srv then srv\<lparr>listen_fd := - 1\<rparr> else srv)"
  define m where "m = quit_loop (t = MainThread) (objs, ?e)"
  define subs where "subs = map (\<lambda>k. quit_loop (t = SubThread k) (sub_loops srv ! k)) [0..<length (sub_loops srv)]"
  have cl: "close_listener sy = (srv1, (objs, ?e))" by (simp add: close_listener_def sy srv1_def)
  have s1: "sub_loops srv1 = sub_loops srv" "granted srv1 = granted srv" by (simp_all add: srv1_def)
  have fin: "Server_destroy t (close_listener sy) = (srv1\<lparr>sub_loops := map EventLoop_destroy subs\<rparr>, EventLoop_destroy m)"
    unfolding cl by (simp add: Server_destroy_def Server_stop_def m_def subs_def Let_def s1)
  have "loop_inv (objs, ?e)"
    by (rule loop_inv_cong [of objs e]) (use loops loop_inv_timers [of objs e] in \<open>simp_all add: fd_close_def\<close>)
  then have "same_fds (objs, ?e) m" unfolding m_def by (rule same_loop_same_fds [OF same_quit])
  moreover have "list_all2 same_fds (sub_loops srv) subs"
    using loops by (auto simp: subs_def list_all2_conv_all_nth intro: same_loop_same_fds [OF same_quit])
  ultimately have all: "list_all2 same_fds ((objs, ?e) # sub_loops srv) (m # subs)" by simp
  have "closed_by (Server_destroy t (close_listener sy)) = concat (map (\<lambda>l. closed_fds (sys (snd (EventLoop_destroy l)))) (m # subs))"
    unfolding fin by (simp add: closed_by_def loops_def comp_def)
  moreover have "loops (Server_destroy t (close_listener sy)) = map EventLoop_destroy (m # subs)" unfolding fin by (simp add: loops_def)
  moreover have "closed_fds (sys ?e) = closed_fds (sys e) @ filter (\<lambda>fd. 0 \<le> fd) [listen_fd srv]" "loop ?e = loop e"
    by (simp_all add: fd_close_def)
  ultimately show ?thesis
    using destroyed_loops [OF all] acc
    by (simp add: cl [unfolded sy] s1 sy queued_fds_def server_fds_def loops_def own_fds_def)
qed

text \<open>
  C13: the end of the server. Started and run for any schedule, it can be stopped by any thread at any moment;
  whichever loops are in the middle of a turn then, and again when the sub loops are joined, \<open>start\<close>
  returns. When the server has been destroyed as well, every descriptor that it ever had is closed, and closed as often as
  the kernel had handed it out: those of the connections, the listening socket, and the epoll and event
  descriptors of the loops. The only exception are the connections whose attachment was still queued when
  their loop ended.
\<close>

theorem shutdown_closes_descriptors:
  assumes "0 \<le> fst fds" "\<And>i. 0 \<le> fst (snd (boot i))"
    and "Server_start k boot (Server_new cfg script w fds) = (True, sy)"
  shows "\<exists>sy' sy''. srv_run inet_ntop fs schedule sy = Some sy' \<and> Server_end inet_ntop fs th lasts joins sy' = Some sy'' \<and>
    mset (closed_by (Server_destroy t sy'')) + mset (queued_fds sy'') =
      mset (granted (fst sy'')) + mset (filter (\<lambda>fd. 0 \<le> fd) (server_fds sy)) \<and>
    (\<forall>l \<in> set (loops (Server_destroy t sy'')). open_fds (fst l) = [])"
proof -
  have "main_inv [] sy" using start_inv [OF assms] by blast
  then obtain sy1 where 1: "srv_run inet_ntop fs schedule sy = Some sy1" "main_inv [] sy1" "server_fds sy1 = server_fds sy"
    using srv_run_keeps by blast
  from Server_end_inv [OF 1(2), of inet_ntop fs th lasts joins] obtain sy2 where
    2: "Server_end inet_ntop fs th lasts joins sy1 = Some (close_listener sy2)" "main_inv [] sy2" "server_fds sy2 = server_fds sy"
    using 1(3) by auto
  show ?thesis
    by (intro exI conjI) (rule 1(1), rule 2(1), use destroy_account [OF 2(2), of t] 2(3) in simp_all)
qed

theorem shutdown_closes_descriptors_witness:
  "\<exists>sy' sy''. srv_run (\<lambda>_. None) no_files [0, 1, 2] (snd demo_server) = Some sy' \<and>
    Server_end (\<lambda>_. None) no_files OtherThread [2, 0] [1] sy' = Some sy'' \<and>
    mset (closed_by (Server_destroy MainThread sy'')) + mset (queued_fds sy'') =
      mset (granted (fst sy'')) + mset (filter (\<lambda>fd. 0 \<le> fd) (server_fds (snd demo_server))) \<and>
    (\<forall>l \<in> set (loops (Server_destroy MainThread sy'')). open_fds (fst l) = [])"
  by (rule shutdown_closes_descriptors [OF _ demo_descriptors demo_started]) simp

text \<open>
  The exception: the main loop accepts two connections and the server ends before the sub loops have taken
  another turn. The descriptors 10 and 11 are never closed. A turn that \<open>epoll_wait\<close> does not refuse, also
  the last one, leaves nothing in the queue.
\<close>

lemma queued_connections_leak:
  "(let sy = onAccept (\<lambda>_. None) (snd demo_server)
    in (granted (fst sy), case Server_end (\<lambda>_. None) no_files OtherThread [] [] sy of None \<Rightarrow> [] | Some sy \<Rightarrow> closed_by (Server_destroy MainThread sy))) =
   ([10, 11], [5, 4, 3, 7, 6, 9, 8])"
  by code_simp

lemma turn_empties_queue:
  assumes "iteration h acceptor (attachConnection inet_ntop cfg) (x, s) = Some (t, x', s')"
    and "fst (Epoller_wait (eps (sys (snd s))) (poller (loop (snd s)))) = Inr n"
  shows "pending (loop (snd s')) = []"
proof -
  have keep: "pending (loop (snd (fold (attachConnection inet_ntop cfg) todo s))) = pending (loop (snd s))" for todo s
    by (induction todo arbitrary: s) (simp_all add: attach_pending)
  have "pending (loop (snd (doPendingFunctors (attachConnection inet_ntop cfg) s))) = []" for s
    using keep [of "pending (loop (snd s))" "(fst s, (snd s)\<lparr>loop := (loop (snd s))\<lparr>calling_pending := True, pending := []\<rparr>\<rparr>)"]
    by (auto simp: doPendingFunctors_def Let_def split: prod.splits)
  with assms show ?thesis
    by (auto simp: iteration_def env_now_def Let_def split: prod.splits sum.splits option.splits)
qed

end
