(* ===== verification/Logger_Run.thy ===== *)
theory Logger_Run
  imports Logger
begin

text \<open>
  The logger at work (\<open>src/logger.cpp\<close>): a logging call from level test to buffer, the log thread as it runs
  on its own, and the way of every byte from the callers into the files.
\<close>

section \<open>A logging call\<close>

text \<open>
  \<open>LOG_INFO(fmt, ...)\<close> and its like: the level test of the macro, the line, and \<open>append\<close>, as one call in one
  thread; the second component says whether the log thread is notified.
\<close>

definition log_call :: "tm \<Rightarrow> int \<Rightarrow> LogLevel \<Rightarrow> string \<Rightarrow> int \<Rightarrow> string \<Rightarrow> AsyncLogger \<Rightarrow> AsyncLogger \<times> bool" where
  "log_call t ms lv file line msg a =
     (case ws_log (level a) lv (write_line t ms lv file line msg) of None \<Rightarrow> (a, False) | Some x \<Rightarrow> log_append x a)"

text \<open>The call is two steps of the system of callers and log thread, or none.\<close>

lemma log_append_steps:
  assumes "log_append x (lg s) = (a, b)" "checked s q = None"
  shows "log_step\<^sup>*\<^sup>* s (s\<lparr>lg := a, inserted := inserted s @ (if running (lg s) then x else [])\<rparr>)"
proof (cases "running (lg s) \<and> x \<noteq> []")
  case True
  let ?s1 = "s\<lparr>checked := (checked s)(q \<mapsto> x)\<rparr>"
  have "log_step s ?s1" by (rule log_step.check) (use True assms(2) in simp_all)
  moreover have "log_step ?s1 (?s1\<lparr>lg := (lg ?s1)\<lparr>current := current (lg ?s1) @ x, enqueued_bytes := enqueued_bytes (lg ?s1) + length x\<rparr>,
      checked := (checked ?s1)(q := None), inserted := inserted ?s1 @ x\<rparr>)"
    by (rule log_step.put) simp
  moreover have "(checked s)(q := None) = checked s" using assms(2) by (simp add: fun_upd_idem)
  ultimately show ?thesis
    using assms(1) True by (auto simp: log_append_def Let_def intro: converse_rtranclp_into_rtranclp)
next
  case False
  then have "s\<lparr>lg := a, inserted := inserted s @ (if running (lg s) then x else [])\<rparr> = s"
    using assms(1) by (cases s) (auto simp: log_append_def)
  then show ?thesis by simp
qed

lemma log_call_levels:
  "log_call t ms lv file line msg a =
     (if level a \<le> lv then log_append (write_line t ms lv file line msg) a else (a, False))"
  by (simp add: log_call_def ws_log_def)

text \<open>The call in the system of callers and log thread, by a thread that nothing interrupts.\<close>

definition log_line :: "tm \<Rightarrow> int \<Rightarrow> LogLevel \<Rightarrow> string \<Rightarrow> int \<Rightarrow> string \<Rightarrow> lsys \<Rightarrow> lsys" where
  "log_line t ms lv file line msg s =
     (case ws_log (level (lg s)) lv (write_line t ms lv file line msg) of
        None \<Rightarrow> s
      | Some x \<Rightarrow> s\<lparr>lg := fst (log_append x (lg s)), inserted := inserted s @ (if running (lg s) then x else [])\<rparr>)"

lemma log_append_two:
  assumes "running (lg s)" "x \<noteq> []" "checked s q = None"
  shows "(log_step ^^ 2) s (s\<lparr>lg := fst (log_append x (lg s)), inserted := inserted s @ (if running (lg s) then x else [])\<rparr>)"
proof -
  let ?s1 = "s\<lparr>checked := (checked s)(q \<mapsto> x)\<rparr>"
  have 1: "log_step s ?s1" by (rule log_step.check) (use assms in simp_all)
  have "log_step ?s1 (s\<lparr>lg := fst (log_append x (lg s)), inserted := inserted s @ (if running (lg s) then x else [])\<rparr>)"
    using log_step.put [of ?s1 q x] assms by (simp add: fun_upd_idem log_append_def Let_def)
  with 1 show ?thesis by (auto simp: numeral_2_eq_2)
qed

lemma log_append_count:
  assumes "checked s q = None"
  shows "\<exists>m \<le> 2. (log_step ^^ m) s (s\<lparr>lg := fst (log_append x (lg s)), inserted := inserted s @ (if running (lg s) then x else [])\<rparr>)"
proof (cases "running (lg s) \<and> x \<noteq> []")
  case True
  with log_append_two [of s x q] assms show ?thesis by blast
next
  case False
  then have "s\<lparr>lg := fst (log_append x (lg s)), inserted := inserted s @ (if running (lg s) then x else [])\<rparr> = s"
    by (cases s) (auto simp: log_append_def)
  then show ?thesis by (intro exI [of _ 0]) simp
qed

lemma log_line_count:
  assumes "checked s q = None"
  shows "\<exists>m \<le> 2. (log_step ^^ m) s (log_line t ms lv file line msg s)"
proof (cases "level (lg s) \<le> lv")
  case True
  then show ?thesis using log_append_count [OF assms] by (simp add: log_line_def ws_log_def)
next
  case False
  then show ?thesis by (intro exI [of _ 0]) (simp add: log_line_def ws_log_def)
qed

lemma log_line_facts:
  "inserted (log_line t ms lv file line msg s) =
     inserted s @ (if level (lg s) \<le> lv \<and> running (lg s) then write_line t ms lv file line msg else [])"
  "tpc (log_line t ms lv file line msg s) = tpc s"
  by (simp_all add: log_line_def ws_log_def)

section \<open>The log thread on its own\<close>

text \<open>
  One step of \<open>threadFunc\<close>; \<open>None\<close> when it waits on the condition variable or has ended. Every step is a
  step of the whole system, and the only one the thread can make.
\<close>

definition thread_turn :: "lsys \<Rightarrow> lsys option" where
  "thread_turn s =
     (case tpc s of
        TLoop \<Rightarrow>
          if current (lg s) = [] then (if stop_requested (lg s) then Some (s\<lparr>tpc := TLast\<rparr>) else None)
          else Some (s\<lparr>lg := swap_buffers (lg s), tpc := TWrite\<rparr>)
      | TWrite \<Rightarrow>
          (case flush_to_write (lg s) (dk s) of (a, d) \<Rightarrow> Some (s\<lparr>lg := a, dk := d, tpc := TLoop, given := given s @ to_write (lg s)\<rparr>))
      | TLast \<Rightarrow>
          (case flush_current (lg s) (dk s) of (a, d) \<Rightarrow> Some (s\<lparr>lg := a, dk := d, tpc := TDone, given := given s @ current (lg s)\<rparr>))
      | TDone \<Rightarrow> None
      | TJoined \<Rightarrow> None)"

fun thread_turns :: "nat \<Rightarrow> lsys \<Rightarrow> lsys" where
  "thread_turns 0 s = s"
| "thread_turns (Suc n) s = (case thread_turn s of None \<Rightarrow> s | Some s' \<Rightarrow> thread_turns n s')"

lemma thread_turn_step: "thread_turn s = Some s' \<Longrightarrow> log_step s s'"
  by (auto simp: thread_turn_def split: tpc.splits if_splits prod.splits
      intro: log_step.swap log_step.hand_over log_step.leave log_step.final_flush)

lemma thread_turns_steps: "log_step\<^sup>*\<^sup>* s (thread_turns n s)"
  by (induction n arbitrary: s) (auto split: option.split intro: converse_rtranclp_into_rtranclp thread_turn_step)

lemma thread_turns_stuck: "thread_turn s = None \<Longrightarrow> thread_turns n s = s"
  by (cases n) simp_all

lemma flush_running:
  "writeAll x a d = (a', d') \<Longrightarrow> stop_requested a' = stop_requested a"
  by (auto simp: writeAll_def rollIfNeeded_def Let_def split: if_splits prod.splits)

lemma thread_idle:
  assumes "lsys_inv s" "tpc s = TLoop" "current (lg s) = []"
  shows "let s' = thread_turns (Suc (Suc n)) s in thread_turn s' = None \<and> inserted s' = inserted s \<and> given s' = inserted s \<and>
    tpc s' = (if stop_requested (lg s) then TDone else TLoop)"
proof (cases "stop_requested (lg s)")
  case True
  have "thread_turns n (s\<lparr>tpc := TDone\<rparr>) = s\<lparr>tpc := TDone\<rparr>" by (rule thread_turns_stuck) (simp add: thread_turn_def)
  with True assms show ?thesis by (auto simp: thread_turn_def flush_current_def lsys_inv_def)
next
  case False
  with assms show ?thesis by (auto simp: thread_turn_def lsys_inv_def)
qed

lemma thread_busy:
  assumes "lsys_inv s" "tpc s = TLoop" "current (lg s) \<noteq> []"
  shows "\<exists>s'. thread_turns (Suc (Suc n)) s = thread_turns n s' \<and> lsys_inv s' \<and> tpc s' = TLoop \<and> current (lg s') = [] \<and>
    inserted s' = inserted s \<and> stop_requested (lg s') = stop_requested (lg s)"
proof -
  let ?s1 = "s\<lparr>lg := swap_buffers (lg s), tpc := TWrite\<rparr>"
  obtain a d where f: "flush_to_write (lg ?s1) (dk ?s1) = (a, d)" by fastforce
  let ?s2 = "?s1\<lparr>lg := a, dk := d, tpc := TLoop, given := given ?s1 @ to_write (lg ?s1)\<rparr>"
  have "to_write (lg s) = []" using assms(1,2) by (auto simp: lsys_inv_def)
  moreover have 1: "thread_turn s = Some ?s1" using assms(2,3) by (simp add: thread_turn_def)
  moreover have 2: "thread_turn ?s1 = Some ?s2" using f by (simp add: thread_turn_def)
  moreover have "lsys_inv ?s2"
    using lsys_inv_step [OF thread_turn_step [OF 2]] lsys_inv_step [OF thread_turn_step [OF 1]] assms(1) by blast
  moreover have "stop_requested a = stop_requested (lg s)"
    using f by (auto simp: flush_to_write_def swap_buffers_def dest: flush_running split: prod.splits)
  ultimately show ?thesis
    using flush_buffers(1) [OF f] by (intro exI [of _ ?s2]) (simp add: swap_buffers_def)
qed

lemma log_thread_catches_up_aux:
  assumes "lsys_init s0" "log_step\<^sup>*\<^sup>* s0 s" "tpc s \<noteq> TDone" "tpc s \<noteq> TJoined"
  shows "let s' = thread_turns 5 s in log_step\<^sup>*\<^sup>* s s' \<and> thread_turn s' = None \<and> inserted s' = inserted s \<and> given s' = inserted s \<and>
    (stop_requested (lg s) \<or> tpc s = TLast \<longleftrightarrow> tpc s' = TDone)"
proof -
  have inv: "lsys_inv s" by (rule logger.inv_reachable [OF assms(1,2)])
  have loop: "let s' = thread_turns (n + 4) s in thread_turn s' = None \<and> inserted s' = inserted s \<and> given s' = inserted s \<and>
      tpc s' = (if stop_requested (lg s) then TDone else TLoop)" if at: "lsys_inv s" "tpc s = TLoop" for s n
  proof (cases "current (lg s) = []")
    case True
    with thread_idle [OF at, of "n + 2"] show ?thesis by (simp add: numeral_eq_Suc)
  next
    case False
    then obtain s1 where "thread_turns (Suc (Suc (Suc (Suc n)))) s = thread_turns (Suc (Suc n)) s1" "lsys_inv s1" "tpc s1 = TLoop"
        "current (lg s1) = []" "inserted s1 = inserted s" "stop_requested (lg s1) = stop_requested (lg s)"
      using thread_busy [OF at False, of "Suc (Suc n)"] by blast
    with thread_idle [of s1 n] show ?thesis by (simp add: numeral_eq_Suc)
  qed
  have "let s' = thread_turns 5 s in thread_turn s' = None \<and> inserted s' = inserted s \<and> given s' = inserted s \<and>
    (stop_requested (lg s) \<or> tpc s = TLast \<longleftrightarrow> tpc s' = TDone)"
  proof (cases "tpc s")
    case TLoop
    with loop [OF inv, of 1] show ?thesis by (auto simp: Let_def numeral_eq_Suc split: if_splits)
  next
    case TWrite
    obtain a d where f: "flush_to_write (lg s) (dk s) = (a, d)" by fastforce
    let ?s1 = "s\<lparr>lg := a, dk := d, tpc := TLoop, given := given s @ to_write (lg s)\<rparr>"
    have t: "thread_turn s = Some ?s1" using TWrite f by (simp add: thread_turn_def)
    have "stop_requested a = stop_requested (lg s)"
      using f by (auto simp: flush_to_write_def dest: flush_running split: prod.splits)
    with loop [OF lsys_inv_step [OF thread_turn_step [OF t] inv], of 0] t TWrite show ?thesis
      by (auto simp: Let_def numeral_eq_Suc split: if_splits)
  next
    case TLast
    obtain a d where f: "flush_current (lg s) (dk s) = (a, d)" by fastforce
    with TLast inv show ?thesis by (auto simp: thread_turn_def lsys_inv_def numeral_eq_Suc)
  qed (use assms(3,4) in simp_all)
  then show ?thesis using thread_turns_steps [of s 5] by (simp add: Let_def)
qed

text \<open>
  The log thread catches up. From every reachable state in which it has not ended, at most five steps of
  the log thread alone hand everything inserted so far to the writer; then it has ended if \<open>stop\<close> has been
  requested, and otherwise waits for more.
\<close>

lemma log_thread_catches_up:
  assumes "lsys_init s0" "log_step\<^sup>*\<^sup>* s0 s" "tpc s \<noteq> TDone" "tpc s \<noteq> TJoined"
  shows "let s' = thread_turns 5 s in log_step\<^sup>*\<^sup>* s s' \<and> thread_turn s' = None \<and> inserted s' = inserted s \<and> given s' = inserted s \<and>
    (stop_requested (lg s) \<or> tpc s = TLast \<longleftrightarrow> tpc s' = TDone)"
  using log_thread_catches_up_aux [OF assms] .

lemma log_thread_catches_up_example:
  "let s' = thread_turns 5 lsys_taken in given s' = ''ab'' \<and> tpc s' = TLoop"
proof -
  have "tpc lsys_taken = TWrite" "inserted lsys_taken = ''ab''" "\<not> stop_requested (lg lsys_taken)"
    by (simp_all add: lsys_taken_def log_demo_def AsyncLogger_new_def)
  moreover have "tpc (thread_turns 5 lsys_taken) = TLoop" by code_simp
  ultimately show ?thesis using log_thread_catches_up [OF lsys_demo] by (simp add: Let_def)
qed

section \<open>The way into the files\<close>

lemma log_ok_cong: "path a' = path a \<Longrightarrow> log_fd a' = log_fd a \<Longrightarrow> log_ok p rs a' d = log_ok p rs a d"
  by (simp add: log_ok_def)

text \<open>A piece of log has been written from disk \<open>d\<close> to disk \<open>d'\<close>, with at most one rotation.\<close>

definition wrote :: "string \<Rightarrow> bytes \<Rightarrow> string list \<Rightarrow> disk \<Rightarrow> string list \<Rightarrow> disk \<Rightarrow> bool" where
  "wrote p x rs d rs' d' \<longleftrightarrow> prefix rs rs' \<and> log_text p rs' d' = log_text p rs d @ x \<and>
     length (opens d) \<le> Suc (length (opens d')) \<and> length (stamps d) \<le> Suc (length (stamps d'))"

lemma writeAll_wrote:
  assumes "log_ok p rs a d" "opens d \<noteq> []" "stamps d \<noteq> []" "writeAll x a d = (a', d')"
  obtains rs' where "log_ok p rs' a' d'" "wrote p x rs d rs' d'"
  using writeAll_ok [OF assms] by (auto simp: wrote_def)

lemma flush_wrote:
  assumes ok: "log_ok p rs a d" "opens d \<noteq> []" "stamps d \<noteq> []"
  shows "flush_to_write a d = (a', d') \<Longrightarrow> \<exists>rs'. log_ok p rs' a' d' \<and> wrote p (to_write a) rs d rs' d'"
    and "flush_current a d = (a', d') \<Longrightarrow> \<exists>rs'. log_ok p rs' a' d' \<and> wrote p (current a) rs d rs' d'"
proof -
  assume f: "flush_to_write a d = (a', d')"
  obtain a1 where w: "writeAll (to_write a) a d = (a1, d')" and a': "a' = a1\<lparr>to_write := []\<rparr>"
    using f by (auto simp: flush_to_write_def split: prod.splits)
  obtain rs' where "log_ok p rs' a1 d'" "wrote p (to_write a) rs d rs' d'" by (rule writeAll_wrote [OF ok w])
  then show "\<exists>rs'. log_ok p rs' a' d' \<and> wrote p (to_write a) rs d rs' d'" using log_ok_cong [of a' a1] a' by auto
next
  assume f: "flush_current a d = (a', d')"
  show "\<exists>rs'. log_ok p rs' a' d' \<and> wrote p (current a) rs d rs' d'"
  proof (cases "current a = []")
    case True
    with f ok show ?thesis by (intro exI [of _ rs]) (simp add: flush_current_def wrote_def)
  next
    case False
    obtain a1 where w: "writeAll (current a) a d = (a1, d')" and a': "a' = a1\<lparr>current := []\<rparr>"
      using f False by (auto simp: flush_current_def split: prod.splits)
    obtain rs' where "log_ok p rs' a1 d'" "wrote p (current a) rs d rs' d'" by (rule writeAll_wrote [OF ok w])
    then show ?thesis using log_ok_cong [of a' a1] a' by auto
  qed
qed

lemma log_text_close [simp]: "log_text p rs (d_close fd d) = log_text p rs d"
  by (simp add: log_text_def content_def [abs_def] d_close_def)

lemma wrote_close: "wrote p x rs d rs' d' \<Longrightarrow> wrote p x rs d rs' (d_close fd d')"
  by (simp add: wrote_def) (simp add: d_close_def)

lemma stop_joined_wrote:
  assumes ok: "log_ok p rs a d" "opens d \<noteq> []" "stamps d \<noteq> []" and e: "to_write a = []" and s: "stop_joined a d = (a', d')"
  shows "\<exists>rs'. wrote p (current a) rs d rs' d'"
proof -
  obtain a1 d1 where f: "flush_current (a\<lparr>running := False\<rparr>) d = (a1, d1)" by fastforce
  have "log_ok p rs (a\<lparr>running := False\<rparr>) d" using ok(1) log_ok_cong [of "a\<lparr>running := False\<rparr>" a] by simp
  then obtain rs' where w: "wrote p (current a) rs d rs' d1" using flush_wrote(2) [OF _ ok(2,3) f] by auto
  have "to_write a1 = []" using flush_buffers(2) [OF f] e by simp
  with s f have "d' = d1 \<or> (\<exists>fd. d' = d_close fd d1)" by (auto simp: stop_joined_def Let_def split: if_splits)
  with w show ?thesis by (auto intro: wrote_close)
qed

text \<open>
  The state after some steps, at most one rotation each: the files hold what was handed over, and the log
  is healthy until \<open>stop\<close> has joined the thread.
\<close>

definition in_files :: "string \<Rightarrow> string list \<Rightarrow> lsys \<Rightarrow> nat \<Rightarrow> lsys \<Rightarrow> bool" where
  "in_files p rs s0 n s \<longleftrightarrow>
     (\<exists>rs'. prefix rs rs' \<and> log_text p rs' (dk s) = log_text p rs (dk s0) @ given s \<and>
       (tpc s \<noteq> TJoined \<longrightarrow> log_ok p rs' (lg s) (dk s)) \<and>
       length (opens (dk s0)) \<le> n + length (opens (dk s)) \<and> length (stamps (dk s0)) \<le> n + length (stamps (dk s)))"

lemma in_files_wrote:
  assumes "wrote p x rs1 (dk s) rs2 (dk s')" "prefix rs rs1" "log_text p rs1 (dk s) = log_text p rs (dk s0) @ given s"
    "length (opens (dk s0)) \<le> n + length (opens (dk s))" "length (stamps (dk s0)) \<le> n + length (stamps (dk s))"
    "given s' = given s @ x" "tpc s' = TJoined \<or> log_ok p rs2 (lg s') (dk s')"
  shows "in_files p rs s0 (Suc n) s'"
  using assms unfolding in_files_def wrote_def by (intro exI [of _ rs2]) (auto intro: prefix_order.trans)

lemma in_files_step:
  assumes "log_step s s'" "lsys_inv s" "in_files p rs s0 n s" "n < length (opens (dk s0))" "n < length (stamps (dk s0))"
  shows "in_files p rs s0 (Suc n) s'"
proof -
  obtain rs1 where R: "prefix rs rs1" "log_text p rs1 (dk s) = log_text p rs (dk s0) @ given s"
      "tpc s \<noteq> TJoined \<longrightarrow> log_ok p rs1 (lg s) (dk s)"
      "length (opens (dk s0)) \<le> n + length (opens (dk s))" "length (stamps (dk s0)) \<le> n + length (stamps (dk s))"
    using assms(3) by (auto simp: in_files_def)
  have room: "opens (dk s) \<noteq> []" "stamps (dk s) \<noteq> []" using R(4,5) assms(4,5) by auto
  have quiet: "in_files p rs s0 (Suc n) s'"
    if "dk s' = dk s" "given s' = given s" "path (lg s') = path (lg s)" "log_fd (lg s') = log_fd (lg s)"
      "tpc s = TJoined \<longrightarrow> tpc s' = TJoined"
    using R that log_ok_cong [of "lg s'" "lg s" p rs1] unfolding in_files_def by (intro exI [of _ rs1]) auto
  note wrote = in_files_wrote [OF _ R(1,2,4,5)]
  from assms(1) show ?thesis
  proof (cases rule: log_step.cases)
    case (hand_over a d)
    then have "log_ok p rs1 (lg s) (dk s)" using R(3) by simp
    with flush_wrote(1) [OF _ room] hand_over(3)
    obtain rs2 where "log_ok p rs2 a d" "wrote p (to_write (lg s)) rs1 (dk s) rs2 d" by blast
    then show ?thesis using wrote [of "to_write (lg s)" rs2 s'] hand_over(1) by simp
  next
    case (final_flush a d)
    then have "log_ok p rs1 (lg s) (dk s)" using R(3) by simp
    with flush_wrote(2) [OF _ room] final_flush(3)
    obtain rs2 where "log_ok p rs2 a d" "wrote p (current (lg s)) rs1 (dk s) rs2 d" by blast
    then show ?thesis using wrote [of "current (lg s)" rs2 s'] final_flush(1) by simp
  next
    case (join a d)
    then have "log_ok p rs1 (lg s) (dk s)" "to_write (lg s) = []" using R(3) assms(2) by (auto simp: lsys_inv_def)
    with stop_joined_wrote [OF _ room _ join(3)]
    obtain rs2 where "wrote p (current (lg s)) rs1 (dk s) rs2 d" by blast
    then show ?thesis using wrote [of "current (lg s)" rs2 s'] join(1) \<open>to_write (lg s) = []\<close> by simp
  qed (use quiet in \<open>simp_all add: swap_buffers_def\<close>)
qed

lemma in_files_run:
  assumes "lsys_init s0" "log_ok p rs (lg s0) (dk s0)"
  shows "(log_step ^^ n) s0 s \<Longrightarrow> n \<le> length (opens (dk s0)) \<Longrightarrow> n \<le> length (stamps (dk s0)) \<Longrightarrow> in_files p rs s0 n s"
proof (induction n arbitrary: s)
  case 0
  then show ?case using assms unfolding in_files_def by (intro exI [of _ rs]) (simp add: lsys_init_def)
next
  case (Suc n)
  then obtain s1 where s1: "(log_step ^^ n) s0 s1" "log_step s1 s" by auto
  then have "lsys_inv s1" using logger.inv_reachable [OF assms(1)] by (blast intro: relpowp_imp_rtranclp)
  with Suc s1 show ?case by (intro in_files_step [OF s1(2)]) simp_all
qed

text \<open>
  C14: on a disk that takes what is written, every byte that a caller inserts is in the files or on its way, in
  order and once. The disk (\<open>log_ok\<close>) may take a write in several pieces or after \<open>EINTR\<close>, but reports no
  other error (\<open>writeAll\<close> drops the rest of a segment then), files can be opened, and the names of the rotations
  to come are unused and pairwise different, which excludes two rotations within one second: the stamp in
  the name has no finer resolution, and the code would truncate the earlier file. Then, for every
  interleaving of callers, log thread and \<open>stop\<close>, with rotations, the rotated files, oldest first, the current
  file, the buffer being written and the buffer being filled are together the old log followed by everything
  inserted. Every step rotates at most once, so that as many names and descriptors as steps are enough.
\<close>

theorem log_reaches_files:
  assumes "lsys_init s0" "log_ok p rs (lg s0) (dk s0)" "(log_step ^^ n) s0 s"
    and "n \<le> length (opens (dk s0))" "n \<le> length (stamps (dk s0))"
  shows "\<exists>rs'. prefix rs rs' \<and>
    concat (map (content (dk s)) (rs' @ [p])) @ to_write (lg s) @ current (lg s) =
      concat (map (content (dk s0)) (rs @ [p])) @ inserted s"
proof -
  have "lsys_inv s" using logger.inv_reachable [OF assms(1)] assms(3) by (blast intro: relpowp_imp_rtranclp)
  moreover obtain rs' where "prefix rs rs'" "log_text p rs' (dk s) = log_text p rs (dk s0) @ given s"
    using in_files_run [OF assms(1,2) assms(3-5)] by (auto simp: in_files_def)
  ultimately show ?thesis unfolding lsys_inv_def log_text_def by (metis append_assoc)
qed

definition lsys_wide :: lsys where
  "lsys_wide = lsys_start\<lparr>dk := disk_demo\<lparr>opens := [6, 7, 8, 9, 10, 11, 12, 13, 14],
     stamps := [''.1'', ''.2'', ''.3'', ''.4'', ''.5'', ''.6'', ''.7'', ''.8'', ''.9'']\<rparr>\<rparr>"

text \<open>One caller logs two bytes.\<close>

definition lsys_filled :: lsys where
  "lsys_filled = lsys_wide\<lparr>lg := log_demo\<lparr>current := ''ab'', enqueued_bytes := 2\<rparr>, inserted := ''ab''\<rparr>"

lemma lsys_wide_demo:
  "lsys_init lsys_wide" "log_ok ''l'' [] (lg lsys_wide) (dk lsys_wide)" "(log_step ^^ 2) lsys_wide lsys_filled"
  "length (opens (dk lsys_wide)) = 9" "length (stamps (dk lsys_wide)) = 9" "concat (map (content (dk lsys_wide)) ([] @ [''l''])) = []"
proof -
  note defs = lsys_filled_def lsys_wide_def lsys_start_def log_demo_def AsyncLogger_new_def
  let ?s1 = "lsys_wide\<lparr>checked := [0 \<mapsto> ''ab'']\<rparr>"
  have "log_step lsys_wide ?s1" using log_step.check [of lsys_wide "''ab''" 0] by (simp add: defs)
  moreover have "log_step ?s1 lsys_filled" using log_step.put [of ?s1 0 "''ab''"] by (simp add: defs fun_upd_idem numeral_2_eq_2)
  ultimately show "(log_step ^^ 2) lsys_wide lsys_filled" by (auto simp: numeral_eq_Suc)
qed (simp_all add: lsys_init_def log_ok_def lsys_wide_def lsys_start_def log_demo_def AsyncLogger_new_def disk_demo_def
    to_stdout_def soft_def next_names_def content_def)

theorem log_reaches_files_witness:
  "\<exists>rs'. concat (map (content (dk lsys_filled)) (rs' @ [''l''])) @ ''ab'' = inserted lsys_filled"
  using log_reaches_files [OF lsys_wide_demo(1-3)] lsys_wide_demo(4-6)
  by (simp add: lsys_filled_def log_demo_def AsyncLogger_new_def)

section \<open>Stopping\<close>

text \<open>
  \<open>stop\<close> with no other caller at work: the request, what the log thread still does before \<open>join\<close> returns (five
  steps are enough, as \<open>log_thread_catches_up\<close> shows), and the rest. Also the destructor.
\<close>

definition log_stop :: "lsys \<Rightarrow> lsys" where
  "log_stop s =
     (if \<not> running (lg s) then s
      else
        let s = thread_turns 5 (s\<lparr>lg := (lg s)\<lparr>stop_requested := True\<rparr>\<rparr>)
        in (case stop_joined (lg s) (dk s) of (a, d) \<Rightarrow>
              s\<lparr>lg := a, dk := d, tpc := TJoined, given := given s @ current (lg s) @ to_write (lg s)\<rparr>))"

lemma writeAll_running: "running (fst (writeAll x a d)) = running a"
  by (simp add: writeAll_def rollIfNeeded_def Let_def case_prod_beta)

lemma flush_keeps_running:
  "flush_to_write a d = (a', d') \<Longrightarrow> running a' = running a" "flush_current a d = (a', d') \<Longrightarrow> running a' = running a"
  using writeAll_running [of "to_write a" a d] writeAll_running [of "current a" a d]
  by (auto simp: flush_to_write_def flush_current_def split: prod.splits if_splits)

lemma stop_joined_ends:
  assumes "stop_joined a d = (a', d')"
  shows "\<not> running a' \<and> log_fd a' = - 1"
proof -
  obtain a1 d1 where f: "flush_current (a\<lparr>running := False\<rparr>) d = (a1, d1)" by fastforce
  obtain a2 d2 where g: "(if to_write a1 = [] then (a1, d1) else flush_to_write a1 d1) = (a2, d2)" by fastforce
  have "running a1 = False" using flush_keeps_running(2) [OF f] by simp
  then have "running a2 = False" using g flush_keeps_running(1) [of a1 d1 a2 d2] by (auto split: if_splits)
  with assms f g show ?thesis by (auto simp: stop_joined_def Let_def)
qed

text \<open>\<open>running_\<close> is set just until the thread has been joined.\<close>

lemma running_step: "log_step s s' \<Longrightarrow> (running (lg s) \<longleftrightarrow> tpc s \<noteq> TJoined) \<Longrightarrow> (running (lg s') \<longleftrightarrow> tpc s' \<noteq> TJoined)"
  by (erule log_stepE) (auto simp: swap_buffers_def dest: flush_keeps_running stop_joined_ends)

lemma running_joined: "log_step\<^sup>*\<^sup>* s0 s \<Longrightarrow> lsys_init s0 \<Longrightarrow> running (lg s) \<longleftrightarrow> tpc s \<noteq> TJoined"
  by (induction rule: rtranclp_induct) (auto simp: lsys_init_def dest: running_step)

lemma thread_turns_count: "\<exists>m \<le> n. (log_step ^^ m) s (thread_turns n s)"
proof (induction n arbitrary: s)
  case (Suc n)
  show ?case
  proof (cases "thread_turn s")
    case (Some s')
    obtain m where "m \<le> n" "(log_step ^^ m) s' (thread_turns n s')" using Suc.IH by blast
    moreover from this have "(log_step ^^ Suc m) s (thread_turns n s')"
      using thread_turn_step [OF Some] by (intro relpowp_Suc_I2)
    ultimately show ?thesis using Some by (intro exI [of _ "Suc m"]) simp
  qed (auto intro: exI [of _ 0])
qed simp

text \<open>\<open>stop\<close> takes at most seven steps and ends with everything handed over.\<close>

lemma log_stop_steps:
  assumes "lsys_init s0" "log_step\<^sup>*\<^sup>* s0 s" "tpc s \<noteq> TJoined"
  obtains m where "m \<le> 7" "(log_step ^^ m) s (log_stop s)" "tpc (log_stop s) = TJoined" "inserted (log_stop s) = inserted s"
    "\<not> running (lg (log_stop s))" "log_fd (lg (log_stop s)) = - 1" "to_write (lg (log_stop s)) = []" "current (lg (log_stop s)) = []"
proof -
  let ?s1 = "s\<lparr>lg := (lg s)\<lparr>stop_requested := True\<rparr>\<rparr>"
  let ?s2 = "thread_turns 5 ?s1"
  have r: "running (lg s)" using running_joined [OF assms(2,1)] assms(3) by simp
  then have 1: "log_step s ?s1" by (rule log_step.request)
  then have reach: "log_step\<^sup>*\<^sup>* s0 ?s1" using assms(2) by (rule rtranclp.rtrancl_into_rtrancl [rotated])
  have 2: "tpc ?s2 = TDone \<and> inserted ?s2 = inserted s"
  proof (cases "tpc s = TDone")
    case True
    then have "?s2 = ?s1" by (intro thread_turns_stuck) (simp add: thread_turn_def)
    with True show ?thesis by simp
  next
    case False
    with log_thread_catches_up_aux [OF assms(1) reach] assms(3) show ?thesis by (simp add: Let_def)
  qed
  obtain a d where j: "stop_joined (lg ?s2) (dk ?s2) = (a, d)" by fastforce
  let ?s3 = "?s2\<lparr>lg := a, dk := d, tpc := TJoined, given := given ?s2 @ current (lg ?s2) @ to_write (lg ?s2)\<rparr>"
  have e: "log_stop s = ?s3" using r j by (simp add: log_stop_def Let_def)
  have 3: "log_step ?s2 ?s3" using 2 j by (intro log_step.join) simp_all
  obtain m where m: "m \<le> 5" "(log_step ^^ m) ?s1 ?s2" using thread_turns_count by blast
  have "(log_step ^^ Suc (Suc m)) s ?s3" using 1 m(2) 3 by (meson relpowp_Suc_I relpowp_Suc_I2)
  with m(1) e 2 stop_joined_ends [OF j] stop_joined_buffers [OF j] show ?thesis by (intro that [of "Suc (Suc m)"]) simp_all
qed

lemma log_stop_writes:
  assumes "lsys_init s0" "log_ok p rs (lg s0) (dk s0)" "(log_step ^^ n) s0 s" "tpc s \<noteq> TJoined"
    and "n + 7 \<le> length (opens (dk s0))" "n + 7 \<le> length (stamps (dk s0))"
  shows "tpc (log_stop s) = TJoined \<and> log_fd (lg (log_stop s)) = - 1 \<and> log_stop (log_stop s) = log_stop s \<and>
    (\<exists>rs'. prefix rs rs' \<and>
      concat (map (content (dk (log_stop s))) (rs' @ [p])) = concat (map (content (dk s0)) (rs @ [p])) @ inserted s)"
proof -
  have reach: "log_step\<^sup>*\<^sup>* s0 s" using assms(3) by (rule relpowp_imp_rtranclp)
  obtain m where m: "m \<le> 7" "(log_step ^^ m) s (log_stop s)" "tpc (log_stop s) = TJoined" "inserted (log_stop s) = inserted s"
      "\<not> running (lg (log_stop s))" "log_fd (lg (log_stop s)) = - 1" "to_write (lg (log_stop s)) = []" "current (lg (log_stop s)) = []"
    by (rule log_stop_steps [OF assms(1) reach assms(4)])
  have run: "(log_step ^^ (n + m)) s0 (log_stop s)" using assms(3) m(2) by (auto simp: relpowp_add)
  obtain rs' where "prefix rs rs'" "log_text p rs' (dk (log_stop s)) = log_text p rs (dk s0) @ given (log_stop s)"
    using in_files_run [OF assms(1,2) run] assms(5,6) m(1) by (auto simp: in_files_def)
  moreover have "given (log_stop s) = inserted s"
    using logger.inv_reachable [OF assms(1) relpowp_imp_rtranclp [OF run]] m(4,7,8) by (simp add: lsys_inv_def)
  moreover have "log_stop (log_stop s) = log_stop s" using m(5) by (simp add: log_stop_def [of "log_stop s"])
  ultimately show ?thesis using m(3,6) by (auto simp: log_text_def)
qed

text \<open>
  C15: \<open>stop\<close> loses nothing and returns. Called at any moment of a run in which the disk accepts writes and
  rotations get new names, it ends the log thread, leaves the logger closed, so that a second call (the
  destructor's) does nothing, and the rotated files and the current file then hold the old log
  followed by every byte that callers have inserted, in order and once.
\<close>

theorem stop_writes_everything:
  assumes "lsys_init s0" "log_ok p rs (lg s0) (dk s0)" "(log_step ^^ n) s0 s" "tpc s \<noteq> TJoined"
    and "n + 7 \<le> length (opens (dk s0))" "n + 7 \<le> length (stamps (dk s0))"
  shows "tpc (log_stop s) = TJoined \<and> log_fd (lg (log_stop s)) = - 1 \<and> log_stop (log_stop s) = log_stop s \<and>
    (\<exists>rs'. prefix rs rs' \<and>
      concat (map (content (dk (log_stop s))) (rs' @ [p])) = concat (map (content (dk s0)) (rs @ [p])) @ inserted s)"
  by (rule log_stop_writes [OF assms])

theorem stop_writes_everything_witness:
  "\<exists>rs'. concat (map (content (dk (log_stop lsys_filled))) (rs' @ [''l''])) = ''ab'' \<and> tpc (log_stop lsys_filled) = TJoined"
proof -
  have "tpc lsys_filled \<noteq> TJoined" "inserted lsys_filled = ''ab''" by (simp_all add: lsys_filled_def lsys_wide_def lsys_start_def)
  with stop_writes_everything [OF lsys_wide_demo(1-3)] lsys_wide_demo(4-6) show ?thesis by auto
qed


end
