(* ===== verification/Log_Start.thy ===== *)
theory Log_Start
  imports Logger_Run
begin

text \<open>
  The logger from its start (\<open>src/logger.cpp\<close>): the state in which \<open>start\<close> leaves it, and its totals. As long as
  less has been logged than \<open>roll_bytes\<close> no file is rotated, and the log file and the two counters that the
  program offers to observers are exact. The log on standard output, and both cases together.
\<close>

section \<open>The logger when it has been started\<close>

text \<open>\<open>start\<close> has created the log thread, which is at the head of its loop.\<close>

definition log_system :: "AsyncLogger \<Rightarrow> disk \<Rightarrow> lsys" where
  "log_system a d = \<lparr>lg = a, dk = d, tpc = TLoop, checked = (\<lambda>_. None), inserted = [], given = []\<rparr>"

text \<open>
  The disk before the program runs, \<open>p\<close> being the log file: writes go through, files can be opened and the
  rotations to come get new names.
\<close>

definition disk_ready :: "string \<Rightarrow> disk \<Rightarrow> bool" where
  "disk_ready p d \<longleftrightarrow> \<not> to_stdout p \<and> list_all soft (log_tx d) \<and> (\<forall>fd \<in> set (opens d). 0 \<le> fd) \<and>
     distinct (p # next_names p d) \<and> (\<forall>n \<in> set (next_names p d). files d n = None)"

text \<open>The log file is opened for appending: what it holds already stays.\<close>

lemma log_start_ok:
  assumes ready: "disk_ready p d" and room: "opens d \<noteq> []" and off: "\<not> running a0"
    and a: "a = (fst (log_start p fl roll a0 d))\<lparr>level := lv\<rparr>" and d': "d' = snd (log_start p fl roll a0 d)"
  shows "lsys_init (log_system a d')" "log_ok p [] a d'" "content d' p = content d p" "length (opens d) = Suc (length (opens d'))"
    "stamps d' = stamps d" "written_this_file a = 0" "roll_bytes a = roll" "log_bytes_written a = log_bytes_written a0"
    "enqueued_bytes a = enqueued_bytes a0" "level a = lv" "\<not> stop_requested a"
proof -
  obtain fd rest where o: "opens d = fd # rest" using room by (cases "opens d") simp_all
  then have fd: "0 \<le> fd" "\<not> to_stdout p" using ready by (simp_all add: disk_ready_def)
  have st: "a = a0\<lparr>path := p, flush_ms := fl, roll_bytes := roll, written_this_file := 0, stop_requested := False, current := [], to_write := [],
        log_fd := fd, running := True, level := lv\<rparr>"
      "d' = d\<lparr>opens := rest, fdt := (fdt d)(fd \<mapsto> File p), files := (files d)(p \<mapsto> content d p)\<rparr>"
    using o fd off by (simp_all add: a d' log_start_def d_open_def content_def Let_def)
  show "lsys_init (log_system a d')" by (simp add: lsys_init_def log_system_def st)
  have "next_names p d' = next_names p d" by (simp add: next_names_def st)
  with ready o fd show "log_ok p [] a d'" by (auto simp: log_ok_def disk_ready_def st)
  show "content d' p = content d p" "length (opens d) = Suc (length (opens d'))" "stamps d' = stamps d" "written_this_file a = 0"
      "roll_bytes a = roll" "log_bytes_written a = log_bytes_written a0" "enqueued_bytes a = enqueued_bytes a0" "level a = lv"
      "\<not> stop_requested a"
    by (simp_all add: st o content_def)
qed

section \<open>Totals\<close>

lemma writeAll_small:
  assumes ok: "log_ok p rs a d" and fits: "written_this_file a + length x \<le> roll_bytes a" and r: "writeAll x a d = (a', d')"
  shows "log_ok p rs a' d' \<and> content d' p = content d p @ x \<and> written_this_file a' = written_this_file a + length x \<and>
    log_bytes_written a' = log_bytes_written a + length x \<and> roll_bytes a' = roll_bytes a \<and> enqueued_bytes a' = enqueued_bytes a"
proof (cases "x = []")
  case True
  with ok r show ?thesis by (simp add: writeAll_def)
next
  case False
  have t: "fdt d (log_fd a) = Some (File p)" "tg_ok (File p) d" "list_all soft (log_tx d)" "0 \<le> log_fd a" "files d p \<noteq> None"
    using ok by (auto simp: log_ok_def)
  obtain s where w: "list_all soft s" "write_loop (log_fd a) x d = (length x, d_put (File p) x (d\<lparr>log_tx := s\<rparr>))"
    using write_loop_complete [OF t(1-3)] by blast
  have "rollIfNeeded (length x) a d = (a, d)" using fits by (simp add: rollIfNeeded_def)
  then have res: "a' = a\<lparr>log_bytes_written := log_bytes_written a + length x, written_this_file := written_this_file a + length x\<rparr>"
      "d' = d_put (File p) x (d\<lparr>log_tx := s\<rparr>)"
    using r False t(4) w(2) by (auto simp: writeAll_def)
  have "log_ok p rs a' d'" using ok w(1) by (auto simp: log_ok_def res next_names_def)
  with t(5) show ?thesis by (auto simp: res content_def)
qed

text \<open>Nothing has been rotated: \<open>w\<close> and \<open>q\<close> are what the counters began with, \<open>old\<close> is what the file held.\<close>

definition unrolled :: "string \<Rightarrow> bytes \<Rightarrow> nat \<Rightarrow> nat \<Rightarrow> nat \<Rightarrow> lsys \<Rightarrow> bool" where
  "unrolled p old w q roll s \<longleftrightarrow> lsys_inv s \<and> content (dk s) p = old @ given s \<and> roll_bytes (lg s) = roll \<and>
     log_bytes_written (lg s) = w + length (given s) \<and> enqueued_bytes (lg s) = q + length (inserted s) \<and>
     (tpc s \<noteq> TJoined \<longrightarrow> log_ok p [] (lg s) (dk s) \<and> written_this_file (lg s) = length (given s))"

lemma flush_small:
  assumes ok: "log_ok p [] a d"
  shows "flush_to_write a d = (a', d') \<Longrightarrow> written_this_file a + length (to_write a) \<le> roll_bytes a \<Longrightarrow>
      log_ok p [] a' d' \<and> content d' p = content d p @ to_write a \<and> written_this_file a' = written_this_file a + length (to_write a) \<and>
      log_bytes_written a' = log_bytes_written a + length (to_write a) \<and> roll_bytes a' = roll_bytes a \<and> enqueued_bytes a' = enqueued_bytes a"
    and "flush_current a d = (a', d') \<Longrightarrow> written_this_file a + length (current a) \<le> roll_bytes a \<Longrightarrow>
      log_ok p [] a' d' \<and> content d' p = content d p @ current a \<and> written_this_file a' = written_this_file a + length (current a) \<and>
      log_bytes_written a' = log_bytes_written a + length (current a) \<and> roll_bytes a' = roll_bytes a \<and> enqueued_bytes a' = enqueued_bytes a"
proof -
  assume f: "flush_to_write a d = (a', d')" and fits: "written_this_file a + length (to_write a) \<le> roll_bytes a"
  obtain a1 where w: "writeAll (to_write a) a d = (a1, d')" and a': "a' = a1\<lparr>to_write := []\<rparr>"
    using f by (auto simp: flush_to_write_def split: prod.splits)
  from writeAll_small [OF ok fits w] show "log_ok p [] a' d' \<and> content d' p = content d p @ to_write a \<and>
      written_this_file a' = written_this_file a + length (to_write a) \<and>
      log_bytes_written a' = log_bytes_written a + length (to_write a) \<and> roll_bytes a' = roll_bytes a \<and> enqueued_bytes a' = enqueued_bytes a"
    by (simp add: a' log_ok_def)
next
  assume f: "flush_current a d = (a', d')" and fits: "written_this_file a + length (current a) \<le> roll_bytes a"
  show "log_ok p [] a' d' \<and> content d' p = content d p @ current a \<and> written_this_file a' = written_this_file a + length (current a) \<and>
      log_bytes_written a' = log_bytes_written a + length (current a) \<and> roll_bytes a' = roll_bytes a \<and> enqueued_bytes a' = enqueued_bytes a"
  proof (cases "current a = []")
    case True
    with f ok show ?thesis by (simp add: flush_current_def)
  next
    case False
    obtain a1 where w: "writeAll (current a) a d = (a1, d')" and a': "a' = a1\<lparr>current := []\<rparr>"
      using f False by (auto simp: flush_current_def split: prod.splits)
    from writeAll_small [OF ok fits w] show ?thesis by (simp add: a' log_ok_def)
  qed
qed

lemma stop_joined_small:
  assumes ok: "log_ok p [] a d" and fits: "written_this_file a + length (current a) \<le> roll_bytes a"
    and e: "to_write a = []" and s: "stop_joined a d = (a', d')"
  shows "content d' p = content d p @ current a \<and> log_bytes_written a' = log_bytes_written a + length (current a) \<and>
    roll_bytes a' = roll_bytes a \<and> enqueued_bytes a' = enqueued_bytes a"
proof -
  let ?a = "a\<lparr>running := False\<rparr>"
  obtain a1 d1 where f: "flush_current ?a d = (a1, d1)" by fastforce
  have "log_ok p [] ?a d" using ok by (simp add: log_ok_def)
  note F = flush_small(2) [OF this f]
  have "to_write a1 = []" using flush_buffers(2) [OF f] e by simp
  with s f have "a' = a1\<lparr>log_fd := - 1\<rparr> \<and> (d' = d1 \<or> (\<exists>fd. d' = d_close fd d1))" by (auto simp: stop_joined_def Let_def split: if_splits)
  moreover have "content (d_close fd d1) p = content d1 p" for fd by (simp add: content_def d_close_def)
  ultimately show ?thesis using F fits by auto
qed

lemma unrolled_step:
  assumes st: "log_step s s'" and u: "unrolled p old w q roll s" and small: "length (inserted s') \<le> roll"
  shows "unrolled p old w q roll s'"
proof -
  have inv: "lsys_inv s'" using lsys_inv_step [OF st] u by (simp add: unrolled_def)
  have parts: "length (given s) + length (to_write (lg s)) + length (current (lg s)) = length (inserted s)"
    using u by (auto simp: unrolled_def lsys_inv_def dest: arg_cong [of _ _ length])
  have U: "tpc s \<noteq> TJoined \<Longrightarrow> log_ok p [] (lg s) (dk s) \<and> written_this_file (lg s) = length (given s)" "roll_bytes (lg s) = roll"
    using u by (simp_all add: unrolled_def)
  from st show ?thesis
  proof (cases rule: log_step.cases)
    case (hand_over a d)
    with flush_small(1) [OF _ hand_over(3), of p] U parts small u inv show ?thesis by (simp add: unrolled_def)
  next
    case (final_flush a d)
    with flush_small(2) [OF _ final_flush(3), of p] U parts small u inv show ?thesis by (simp add: unrolled_def)
  next
    case (join a d)
    have "to_write (lg s) = []" using u join(2) by (auto simp: unrolled_def lsys_inv_def)
    with join stop_joined_small [OF _ _ _ join(3), of p] U parts small u inv show ?thesis by (simp add: unrolled_def)
  qed (use u inv in \<open>auto simp: unrolled_def swap_buffers_def log_ok_def\<close>)
qed

lemma inserted_grows: "log_step s s' \<Longrightarrow> length (inserted s) \<le> length (inserted s')"
  by (erule log_stepE) auto

lemma unrolled_run:
  "log_step\<^sup>*\<^sup>* s0 s \<Longrightarrow> unrolled p old w q roll s0 \<Longrightarrow> length (inserted s) \<le> roll \<Longrightarrow> unrolled p old w q roll s"
proof (induction rule: rtranclp_induct)
  case (step s s')
  with inserted_grows [OF step.hyps(2)] show ?case by (intro unrolled_step [OF step.hyps(2)]) simp_all
qed simp

lemma log_totals_aux:
  assumes "lsys_init s0" "log_ok p [] (lg s0) (dk s0)" "written_this_file (lg s0) = 0" "log_step\<^sup>*\<^sup>* s0 s" "tpc s \<noteq> TJoined"
    and "length (inserted s) \<le> roll_bytes (lg s0)"
  shows "content (dk (log_stop s)) p = content (dk s0) p @ inserted s \<and>
    log_bytes_written (lg (log_stop s)) = log_bytes_written (lg s0) + length (inserted s) \<and>
    enqueued_bytes (lg (log_stop s)) = enqueued_bytes (lg s0) + length (inserted s)"
proof -
  let ?u = "unrolled p (content (dk s0) p) (log_bytes_written (lg s0)) (enqueued_bytes (lg s0)) (roll_bytes (lg s0))"
  have u0: "?u s0" using assms(1-3) by (simp add: unrolled_def lsys_init_def lsys_inv_def)
  obtain m where m: "(log_step ^^ m) s (log_stop s)" "inserted (log_stop s) = inserted s" "to_write (lg (log_stop s)) = []"
      "current (lg (log_stop s)) = []"
    by (rule log_stop_steps [OF assms(1,4,5)])
  have "log_step\<^sup>*\<^sup>* s0 (log_stop s)" using assms(4) relpowp_imp_rtranclp [OF m(1)] by simp
  from unrolled_run [OF this u0] have u: "?u (log_stop s)" using m(2) assms(6) by simp
  then have "given (log_stop s) = inserted s" using m(2-4) by (simp add: unrolled_def lsys_inv_def)
  with u m(2) show ?thesis by (simp add: unrolled_def)
qed

section \<open>A log that goes to standard output\<close>

text \<open>With the path \<open>-\<close>, the default of the program, there is no file and nothing is rotated.\<close>

definition out_ok :: "AsyncLogger \<Rightarrow> disk \<Rightarrow> bool" where
  "out_ok a d \<longleftrightarrow> to_stdout (path a) \<and> log_fd a = STDOUT_FILENO \<and> fdt d STDOUT_FILENO = Some Stdout \<and> list_all soft (log_tx d)"

lemma writeAll_out:
  assumes ok: "out_ok a d" and r: "writeAll x a d = (a', d')"
  shows "out_ok a' d' \<and> stdout_text d' = stdout_text d @ x"
proof (cases "x = []")
  case True
  with ok r show ?thesis by (simp add: writeAll_def)
next
  case False
  have t: "fdt d (log_fd a) = Some Stdout" "tg_ok Stdout d" "list_all soft (log_tx d)" "0 \<le> log_fd a" using ok by (simp_all add: out_ok_def)
  obtain s where w: "list_all soft s" "write_loop (log_fd a) x d = (length x, d_put Stdout x (d\<lparr>log_tx := s\<rparr>))"
    using write_loop_complete [OF t(1-3)] by blast
  have "rollIfNeeded (length x) a d = (a, d)" using ok by (simp add: rollIfNeeded_def out_ok_def)
  with r False t(4) w ok show ?thesis by (auto simp: writeAll_def out_ok_def)
qed

lemma flush_out:
  assumes ok: "out_ok a d"
  shows "flush_to_write a d = (a', d') \<Longrightarrow> out_ok a' d' \<and> stdout_text d' = stdout_text d @ to_write a"
    and "flush_current a d = (a', d') \<Longrightarrow> out_ok a' d' \<and> stdout_text d' = stdout_text d @ current a"
  using writeAll_out [OF ok] ok by (auto simp: flush_to_write_def flush_current_def out_ok_def split: prod.splits if_splits)

lemma stop_joined_out:
  assumes ok: "out_ok a d" and e: "to_write a = []" and s: "stop_joined a d = (a', d')"
  shows "stdout_text d' = stdout_text d @ current a"
proof -
  obtain a1 d1 where f: "flush_current (a\<lparr>running := False\<rparr>) d = (a1, d1)" by fastforce
  have "out_ok (a\<lparr>running := False\<rparr>) d" using ok by (simp add: out_ok_def)
  from flush_out(2) [OF this f] flush_buffers(2) [OF f] e s f show ?thesis
    by (auto simp: stop_joined_def Let_def out_ok_def split: if_splits)
qed

definition printed :: "bytes \<Rightarrow> lsys \<Rightarrow> bool" where
  "printed old s \<longleftrightarrow> lsys_inv s \<and> stdout_text (dk s) = old @ given s \<and> (tpc s \<noteq> TJoined \<longrightarrow> out_ok (lg s) (dk s))"

lemma printed_step:
  assumes st: "log_step s s'" and p: "printed old s"
  shows "printed old s'"
proof -
  have inv: "lsys_inv s'" using lsys_inv_step [OF st] p by (simp add: printed_def)
  from st show ?thesis
  proof (cases rule: log_step.cases)
    case (hand_over a d)
    with flush_out(1) [OF _ hand_over(3)] p inv show ?thesis by (simp add: printed_def)
  next
    case (final_flush a d)
    with flush_out(2) [OF _ final_flush(3)] p inv show ?thesis by (simp add: printed_def)
  next
    case (join a d)
    have "to_write (lg s) = []" using p join(2) by (auto simp: printed_def lsys_inv_def)
    with join stop_joined_out [OF _ _ join(3)] p inv show ?thesis by (simp add: printed_def)
  qed (use p inv in \<open>auto simp: printed_def swap_buffers_def out_ok_def\<close>)
qed

lemma log_stop_prints:
  assumes "lsys_init s0" "out_ok (lg s0) (dk s0)" "log_step\<^sup>*\<^sup>* s0 s" "tpc s \<noteq> TJoined"
  shows "stdout_text (dk (log_stop s)) = stdout_text (dk s0) @ inserted s"
proof -
  have p0: "printed (stdout_text (dk s0)) s0" using assms(1,2) by (simp add: printed_def lsys_init_def lsys_inv_def)
  obtain m where m: "(log_step ^^ m) s (log_stop s)" "inserted (log_stop s) = inserted s" "to_write (lg (log_stop s)) = []"
      "current (lg (log_stop s)) = []"
    by (rule log_stop_steps [OF assms(1,3,4)])
  have "log_step\<^sup>*\<^sup>* s0 (log_stop s)" using assms(3) relpowp_imp_rtranclp [OF m(1)] by simp
  then have "printed (stdout_text (dk s0)) (log_stop s)" by (induction rule: rtranclp_induct) (use p0 printed_step in blast)+
  with m(2-4) show ?thesis by (simp add: printed_def lsys_inv_def)
qed

section \<open>Either way\<close>

text \<open>
  What the log needs of its surroundings for \<open>n\<close> steps, and where it can then be read: on standard output, or
  in the rotated files \<open>rs\<close>, oldest first, and the log file.
\<close>

definition log_ready :: "string \<Rightarrow> nat \<Rightarrow> disk \<Rightarrow> bool" where
  "log_ready p n d \<longleftrightarrow>
     (if to_stdout p then fdt d STDOUT_FILENO = Some Stdout \<and> list_all soft (log_tx d)
      else disk_ready p d \<and> n \<le> length (opens d) \<and> n \<le> length (stamps d))"

definition log_output :: "string \<Rightarrow> string list \<Rightarrow> disk \<Rightarrow> bytes" where
  "log_output p rs d = (if to_stdout p then stdout_text d else log_text p rs d)"

lemma log_step_level: "log_step s s' \<Longrightarrow> level (lg s') = level (lg s)"
proof -
  have w: "level (fst (writeAll x a d)) = level a" for x a d by (simp add: writeAll_def rollIfNeeded_def Let_def case_prod_beta)
  have f: "flush_to_write a d = (a', d') \<Longrightarrow> level a' = level a" "flush_current a d = (a', d') \<Longrightarrow> level a' = level a" for a d a' d'
    using w [of "to_write a" a d] w [of "current a" a d]
    by (auto simp: flush_to_write_def flush_current_def split: prod.splits if_splits)
  have "stop_joined a d = (a', d') \<Longrightarrow> level a' = level a" for a d a' d'
  proof -
    assume s: "stop_joined a d = (a', d')"
    obtain a1 d1 where f1: "flush_current (a\<lparr>running := False\<rparr>) d = (a1, d1)" by fastforce
    obtain a2 d2 where f2: "flush_to_write a1 d1 = (a2, d2)" by fastforce
    show ?thesis using s f(2) [OF f1] f(1) [OF f2] f1 f2 by (auto simp: stop_joined_def Let_def split: if_splits)
  qed
  then show "log_step s s' \<Longrightarrow> ?thesis" by (elim log_stepE) (auto simp: swap_buffers_def dest: f)
qed

text \<open>The log from \<open>start\<close> to the end of \<open>stop\<close>, which the destructor does not disturb.\<close>

lemma log_run_output:
  assumes a: "a = (fst (log_start p fl roll a0 d))\<lparr>level := lv\<rparr>" "d' = snd (log_start p fl roll a0 d)" and off: "\<not> running a0"
    and ready: "log_ready p (n + 8) d" and run: "(log_step ^^ n) (log_system a d') s" "tpc s \<noteq> TJoined"
  shows "tpc (log_stop s) = TJoined \<and> log_stop (log_stop s) = log_stop s \<and> running (lg s) \<and> level (lg s) = lv \<and>
    (\<exists>rs. log_output p rs (dk (log_stop s)) = log_output p [] d @ inserted s)"
proof -
  have s0: "lg (log_system a d') = a" "dk (log_system a d') = d'" by (simp_all add: log_system_def)
  have reach: "log_step\<^sup>*\<^sup>* (log_system a d') s" using run(1) by (rule relpowp_imp_rtranclp)
  have "running a" "current a = []" "to_write a = []" "level a = lv"
    using off by (simp_all add: a(1) log_start_def Let_def case_prod_beta)
  then have init: "lsys_init (log_system a d')" by (simp add: lsys_init_def log_system_def)
  have "level (lg s) = level (lg (log_system a d'))" using reach by (induction rule: rtranclp_induct) (auto dest: log_step_level)
  then have lvl: "level (lg s) = lv" "running (lg s)" using \<open>level a = lv\<close> s0 running_joined [OF reach init] run(2) by simp_all
  obtain m where m: "tpc (log_stop s) = TJoined" "\<not> running (lg (log_stop s))"
    by (rule log_stop_steps [OF init reach run(2)])
  have "\<exists>rs. log_output p rs (dk (log_stop s)) = log_output p [] d @ inserted s"
  proof (cases "to_stdout p")
    case True
    then have "d' = d" "out_ok a d'" using off ready by (simp_all add: a log_start_def Let_def out_ok_def log_ready_def)
    with log_stop_prints [OF init _ reach run(2)] True s0 show ?thesis by (simp add: log_output_def)
  next
    case False
    then have room: "opens d \<noteq> []" "disk_ready p d" using ready by (auto simp: log_ready_def)
    note S = log_start_ok [OF room(2,1) off a]
    from log_stop_writes [OF init _ run, of p "[]"] S(2-5) ready False s0 show ?thesis
      by (auto simp: log_output_def log_text_def log_ready_def)
  qed
  with lvl m show ?thesis by (simp add: log_stop_def [of "log_stop s"])
qed

section \<open>The counters\<close>

text \<open>
  C26: the totals of the log. For every interleaving of callers, log thread and \<open>stop\<close> in which no more is logged
  than fits a file, the log file holds after \<open>stop\<close> what it held before and every byte logged, in order, and
  both counters, of the bytes enqueued and of those written, have advanced by exactly as much. No
  file is rotated, so that nothing is asked of the names and descriptors of rotations.
\<close>

theorem log_totals:
  assumes "lsys_init s0" "log_ok p [] (lg s0) (dk s0)" "written_this_file (lg s0) = 0" "log_step\<^sup>*\<^sup>* s0 s" "tpc s \<noteq> TJoined"
    and "length (inserted s) \<le> roll_bytes (lg s0)"
  shows "content (dk (log_stop s)) p = content (dk s0) p @ inserted s \<and>
    log_bytes_written (lg (log_stop s)) = log_bytes_written (lg s0) + length (inserted s) \<and>
    enqueued_bytes (lg (log_stop s)) = enqueued_bytes (lg s0) + length (inserted s)"
  by (rule log_totals_aux [OF assms])

theorem log_totals_witness:
  "content (dk (log_stop lsys_filled)) ''l'' = ''ab'' \<and> log_bytes_written (lg (log_stop lsys_filled)) = 2"
proof -
  have "tpc lsys_filled \<noteq> TJoined" "inserted lsys_filled = ''ab''" "written_this_file (lg lsys_wide) = 0"
      "length (inserted lsys_filled) \<le> roll_bytes (lg lsys_wide)" "log_bytes_written (lg lsys_wide) = 0"
    by (simp_all add: lsys_filled_def lsys_wide_def lsys_start_def log_demo_def AsyncLogger_new_def)
  with log_totals [OF lsys_wide_demo(1,2) _ relpowp_imp_rtranclp [OF lsys_wide_demo(3)]] lsys_wide_demo(6) show ?thesis by simp
qed

end
