(* ===== verification/Program_Run.thy ===== *)
theory Program_Run
  imports Main_Program Shutdown Log_Start
begin

text \<open>
  The program from its start to its exit (\<open>src/main.cpp\<close> and the end of \<open>Server::start\<close> in
  \<open>src/server.cpp\<close>). Until the loops have ended the logger and the server run side by side: the logger as the
  system of callers and log thread of \<open>Logger\<close>, in which any thread may log anything at any moment, the server
  by the turns of its loops. Then they meet: \<open>start\<close> logs what the server has counted, and \<open>main\<close> ends.
\<close>

section \<open>The end of \<open>start\<close> and of \<open>main\<close>\<close>

text \<open>The last message of \<open>start\<close>, from the counters of the server when its threads have been joined.\<close>

definition stopped_message :: "system \<Rightarrow> string" where
  "stopped_message sy =
     (case sy of (srv, (objs, e)) \<Rightarrow>
        let s = snapshot (pending_timers (loop e)) (timers_of (sub_loops srv)) (counters e)
        in ''ws-server stopped: accepted='' @ pf_llu (s_accepted s) @ '' requests='' @ pf_llu (s_requests s) @
           '' responses='' @ pf_llu (s_responses s) @ '' errors='' @ pf_llu (s_errors s))"

text \<open>
  The loops have ended, their threads are joined and the listening socket is closed (\<open>Server_end\<close>): \<open>start\<close>
  logs its last message, at the time \<open>t\<close>, \<open>ms\<close> and from the place \<open>at\<close>, \<open>line\<close> of the source, and returns; \<open>main\<close> stops
  the logger and returns 0. On the way out the server is destroyed; the logger, a static
  object, is destroyed last, which stops it again.
\<close>

definition main_end :: "tm \<Rightarrow> int \<Rightarrow> string \<Rightarrow> int \<Rightarrow> lsys \<Rightarrow> system \<Rightarrow> int \<times> lsys \<times> system" where
  "main_end t ms at line l sy =
     (let l = log_line t ms LOG_INFO at line (stopped_message sy) l;
          l = log_stop l;
          sy = Server_destroy MainThread sy
      in (0, log_stop l, sy))"

text \<open>
  C3: the program from its start to its exit. The server has come up with some options, has run through any
  schedule of turns, and some thread has told it to stop; meanwhile its threads have logged anything, in
  any interleaving with the log thread. Then all loops end, \<open>main\<close> ends with the log thread joined,
  and the output of the log is what was there before the program, followed by every line logged, in order and
  once, and last, unless the level chosen with \<open>-v\<close> hides it, the line with the numbers of accepted connections, requests,
  responses and errors that the server counted up to its end. Every descriptor of the server is closed
  as often as it was handed out, except those of connections that were never attached.

  The conditions. The server has come up, and the descriptors of its loops are not negative. The thread
  that runs \<open>main\<close> is not in the middle of a logging call (\<open>checked l q = None\<close>), and nobody has stopped the logger
  before. The output of the log takes every write, perhaps in several pieces or after \<open>EINTR\<close>
  (\<open>log_ready\<close>): either the log goes to standard output (\<open>-\<close>, the default), which is open, or to a
  file, all files can be opened and the names of rotations are unused and pairwise different. The last excludes
  two rotations within one second, when the code truncates the earlier of the two files.
\<close>

theorem program_ends_clean:
  assumes "main_options args = Inr (cfg, p, lv)" "main_boot args d k boot script w fds = Inr (a, d', sy)"
    and "0 \<le> fst fds" "\<And>i. 0 \<le> fst (snd (boot i))"
    and "log_ready p (n + 10) d" "(log_step ^^ n) (log_system a d') l" "tpc l \<noteq> TJoined" "checked l q = None"
  shows "\<exists>sy1 sy2 sy3 l'. srv_run inet_ntop fs schedule sy = Some sy1 \<and> Server_end inet_ntop fs th lasts joins sy1 = Some sy2 \<and>
    main_end t ms at line l sy2 = (0, l', sy3) \<and> tpc l' = TJoined \<and>
    (\<exists>rs. log_output p rs (dk l') = log_output p [] d @ inserted l @
       (if lv \<le> LOG_INFO then write_line t ms LOG_INFO at line (stopped_message sy2) else [])) \<and>
    mset (closed_by sy3) + mset (queued_fds sy2) = mset (granted (fst sy2)) + mset (filter (\<lambda>fd. 0 \<le> fd) (server_fds sy))"
proof -
  have st: "Server_start k boot (Server_new cfg script w fds) = (True, sy)"
    and ad: "a = (fst (log_start p 1000 (256 * 1024 * 1024) AsyncLogger_new d))\<lparr>level := lv\<rparr>"
      "d' = snd (log_start p 1000 (256 * 1024 * 1024) AsyncLogger_new d)"
    using assms(1) by (auto intro: main_boot_started [OF assms(2)])
  have "main_inv [] sy" using start_inv [OF assms(3,4) st] by blast
  then obtain sy1 where 1: "srv_run inet_ntop fs schedule sy = Some sy1" "main_inv [] sy1" "server_fds sy1 = server_fds sy"
    using srv_run_keeps by blast
  from Server_end_inv [OF 1(2), of inet_ntop fs th lasts joins] obtain sy2 where
    2: "Server_end inet_ntop fs th lasts joins sy1 = Some (close_listener sy2)" "main_inv [] sy2" "server_fds sy2 = server_fds sy"
    using 1(3) by auto
  have off: "\<not> running AsyncLogger_new" by (simp add: AsyncLogger_new_def)
  let ?sy = "close_listener sy2"
  let ?l = "log_line t ms LOG_INFO at line (stopped_message ?sy) l"
  obtain m where m: "m \<le> 2" "(log_step ^^ m) l ?l" using log_line_count [OF assms(8)] by blast
  have "(log_step ^^ (n + m)) (log_system a d') ?l" unfolding relpowp_add using assms(6) m(2) by blast
  moreover have "log_ready p (n + m + 8) d" using assms(5) m(1) by (auto simp: log_ready_def split: if_splits)
  moreover have "tpc ?l \<noteq> TJoined" using assms(7) by (simp add: log_line_facts)
  ultimately have L: "tpc (log_stop ?l) = TJoined" "log_stop (log_stop ?l) = log_stop ?l"
      "\<exists>rs. log_output p rs (dk (log_stop ?l)) = log_output p [] d @ inserted ?l"
    using log_run_output [OF ad off] by blast+
  have "log_ready p (n + 8) d" using assms(5) by (auto simp: log_ready_def split: if_splits)
  from log_run_output [OF ad off this assms(6,7)] have "running (lg l)" "level (lg l) = lv" by simp_all
  with L(3) have "\<exists>rs. log_output p rs (dk (log_stop ?l)) = log_output p [] d @ inserted l @
      (if lv \<le> LOG_INFO then write_line t ms LOG_INFO at line (stopped_message ?sy) else [])" by (simp add: log_line_facts)
  moreover have "main_end t ms at line l ?sy = (0, log_stop ?l, Server_destroy MainThread ?sy)"
    using L(2) by (simp add: main_end_def Let_def)
  ultimately show ?thesis using 1(1) 2(1) L(1) destroy_account [OF 2(2), of MainThread, unfolded 2(3)] by blast
qed

text \<open>A program with two sub loops and a log file from earlier, whose threads log two bytes.\<close>

definition disk_old :: disk where
  "disk_old = (dk lsys_wide)\<lparr>files := [''l'' \<mapsto> ''old''], opens := map int [20..<32],
     stamps := [''.1'', ''.2'', ''.3'', ''.4'', ''.5'', ''.6'', ''.7'', ''.8'', ''.9'', ''.10'', ''.11'', ''.12'']\<rparr>"

definition demo_tm :: tm where
  "demo_tm = \<lparr>tm_year = 124, tm_mon = 0, tm_mday = 31, tm_hour = 9, tm_min = 5, tm_sec = 7\<rparr>"

theorem program_ends_clean_witness:
  "\<exists>a d' sy l sy1 sy2 l' sy3 rs.
     main_boot [(CHR ''t'', ''2''), (CHR ''l'', ''l'')] disk_old demo_sockets demo_boot [AcConn \<lparr>sin_addr = 0, sin_port = 0\<rparr>]
       (demo_world [EpEvents [(5, EPOLLIN)]]) (3, 4) = Inr (a, d', sy) \<and>
     inserted l = ''ab'' \<and> (log_step ^^ 2) (log_system a d') l \<and>
     srv_run (\<lambda>_. None) no_files [0, 1, 2] sy = Some sy1 \<and> Server_end (\<lambda>_. None) no_files OtherThread [0] [1] sy1 = Some sy2 \<and>
     main_end demo_tm 5 ''server.cpp'' 112 l sy2 = (0, l', sy3) \<and>
     log_output ''l'' rs (dk l') = ''oldab'' @ write_line demo_tm 5 LOG_INFO ''server.cpp'' 112 (stopped_message sy2)"
proof -
  let ?args = "[(CHR ''t'', ''2''), (CHR ''l'', ''l'')]" and ?w = "demo_world [EpEvents [(5, EPOLLIN)]]"
  let ?cfg = "Options_new\<lparr>io_threads := 2\<rparr>" and ?script = "[AcConn \<lparr>sin_addr = 0, sin_port = 0\<rparr>]"
  have o: "main_options ?args = Inr (?cfg, ''l'', LOG_INFO)" by code_simp
  obtain a d' sy where b: "main_boot ?args disk_old demo_sockets demo_boot ?script ?w (3, 4) = Inr (a, d', sy)"
    using o by (auto simp: main_boot_def Let_def case_prod_beta Server_start_def initListenSocket_def Server_new_def demo_sockets_def new_loop_def)
  have r: "log_ready ''l'' (2 + 10) disk_old"
    by (simp add: log_ready_def disk_ready_def disk_old_def lsys_wide_def lsys_start_def disk_demo_def to_stdout_def soft_def next_names_def)
  have old: "log_output ''l'' [] disk_old = ''old''"
    by (simp add: log_output_def log_text_def to_stdout_def disk_old_def lsys_wide_def lsys_start_def content_def)
  let ?start = "log_system a d'"
  let ?l = "?start\<lparr>lg := fst (log_append ''ab'' (lg ?start)), inserted := inserted ?start @ (if running (lg ?start) then ''ab'' else [])\<rparr>"
  have run: "running a" by (rule main_boot_started [OF b]) (simp add: log_start_def Let_def case_prod_beta AsyncLogger_new_def)
  then have l: "(log_step ^^ 2) ?start ?l" by (intro log_append_two [of _ _ 0]) (simp_all add: log_system_def)
  have i: "inserted ?l = ''ab''" "tpc ?l \<noteq> TJoined" "checked ?l 0 = None" using run by (simp_all add: log_system_def)
  have nn: "0 \<le> fst (3 :: int, 4 :: int)" by simp
  from program_ends_clean [OF o b nn demo_descriptors r l i(2,3), of "\<lambda>_. None" no_files "[0, 1, 2]" OtherThread "[0]" "[1]" demo_tm 5 "''server.cpp''" 112,
      unfolded i(1) old]
  obtain sy1 sy2 sy3 l' rs where "srv_run (\<lambda>_. None) no_files [0, 1, 2] sy = Some sy1"
      "Server_end (\<lambda>_. None) no_files OtherThread [0] [1] sy1 = Some sy2" "main_end demo_tm 5 ''server.cpp'' 112 ?l sy2 = (0, l', sy3)"
      "log_output ''l'' rs (dk l') = ''old'' @ ''ab'' @ write_line demo_tm 5 LOG_INFO ''server.cpp'' 112 (stopped_message sy2)"
    by auto
  moreover from this(4) have "log_output ''l'' rs (dk l') = ''oldab'' @ write_line demo_tm 5 LOG_INFO ''server.cpp'' 112 (stopped_message sy2)"
    by simp
  ultimately show ?thesis using b l i(1) by blast
qed

end
