(* ===== verification/Loop_Wakeup.thy ===== *)
theory Loop_Wakeup
  imports Event_Loop
begin

text \<open>
  The task queue of an event loop under concurrency: \<open>queueInLoop\<close>, \<open>quit\<close>, \<open>wakeup\<close>, \<open>handleWakeup\<close>,
  \<open>doPendingFunctors\<close> and the frame of \<open>loop\<close>, of \<open>src/event_loop.cpp\<close>, with any number of producer threads. A step is what one
  thread does atomically: the push under the mutex, the store to \<open>quit_\<close>, the write to the eventfd, the test of
  \<open>quit_\<close>, the return of \<open>epoll_wait\<close>, the read of the eventfd, the swap under the mutex, the call of one task. Between its push
  or store and its write another thread can be delayed for any time. The lists \<open>submitted\<close> and \<open>executed\<close> are history: what
  has been queued and what has been run, in order. The functions of \<open>Event_Loop\<close> are runs of this
  machine without interleaving.
\<close>

section \<open>The machine\<close>

datatype 'task lpc = Testing | Waiting | Events bool | Running "'task list" bool | Ended

text \<open>
  \<open>Testing\<close>: at the condition of \<open>while (!quit_)\<close>; \<open>Ended\<close>: \<open>loop\<close> has returned. \<open>Events True\<close>: the eventfd was
  reported readable and has not been read yet. \<open>Running todo w\<close>: inside \<open>doPendingFunctors\<close>, with \<open>w\<close> when the task
  that runs has pushed and still has to write. \<open>mid_push p\<close>: thread \<open>p\<close>, not the loop's own, has pushed a
  task or stored to \<open>quit_\<close> and still has to write.
\<close>

record 'task tq =
  pend :: "'task list"
  efd :: u64
  mid_push :: "nat \<Rightarrow> bool"
  quitting :: bool
  pc :: "'task lpc"
  submitted :: "'task list"
  executed :: "'task list"

definition tq_init :: "'task tq \<Rightarrow> bool" where
  "tq_init s \<longleftrightarrow> pend s = [] \<and> efd s = 0 \<and> (\<forall>p. \<not> mid_push s p) \<and> \<not> quitting s \<and> pc s = Testing \<and> submitted s = [] \<and> executed s = []"

inductive tq_step :: "'task tq \<Rightarrow> 'task tq \<Rightarrow> bool" where
  push: "\<not> mid_push s p \<Longrightarrow>
    tq_step s (s\<lparr>pend := pend s @ [t], submitted := submitted s @ [t], mid_push := (mid_push s)(p := True)\<rparr>)"
| signal: "mid_push s p \<Longrightarrow> tq_step s (s\<lparr>efd := eventfd_write 1 (efd s), mid_push := (mid_push s)(p := False)\<rparr>)"
| stop: "\<not> mid_push s p \<Longrightarrow> tq_step s (s\<lparr>quitting := True, mid_push := (mid_push s)(p := True)\<rparr>)"
| stop_here: "tq_step s (s\<lparr>quitting := True\<rparr>)"
| enter: "pc s = Testing \<Longrightarrow> \<not> quitting s \<Longrightarrow> tq_step s (s\<lparr>pc := Waiting\<rparr>)"
| leave: "pc s = Testing \<Longrightarrow> quitting s \<Longrightarrow> tq_step s (s\<lparr>pc := Ended\<rparr>)"
| wait: "pc s = Waiting \<Longrightarrow> (sig \<longrightarrow> efd s \<noteq> 0) \<Longrightarrow> tq_step s (s\<lparr>pc := Events sig\<rparr>)"
| wait_fails: "pc s = Waiting \<Longrightarrow> tq_step s (s\<lparr>pc := Testing\<rparr>)"
| clear: "pc s = Events True \<Longrightarrow> tq_step s (s\<lparr>efd := snd (eventfd_read (efd s)), pc := Events False\<rparr>)"
| queue_here: "pc s = Events sig \<Longrightarrow> tq_step s (s\<lparr>pend := pend s @ [t], submitted := submitted s @ [t]\<rparr>)"
| swap: "pc s = Events False \<Longrightarrow> tq_step s (s\<lparr>pend := [], pc := Running (pend s) False\<rparr>)"
| run: "pc s = Running (t # todo) False \<Longrightarrow> tq_step s (s\<lparr>pc := Running todo False, executed := executed s @ [t]\<rparr>)"
| queue_again: "pc s = Running todo False \<Longrightarrow>
    tq_step s (s\<lparr>pend := pend s @ [t], submitted := submitted s @ [t], pc := Running todo True\<rparr>)"
| signal_self: "pc s = Running todo True \<Longrightarrow> tq_step s (s\<lparr>efd := eventfd_write 1 (efd s), pc := Running todo False\<rparr>)"
| again: "pc s = Running [] False \<Longrightarrow> tq_step s (s\<lparr>pc := Testing\<rparr>)"

text \<open>
  \<open>stop_here\<close> is \<open>quit\<close> called by the loop's own thread, from a callback or a signal handler, which does not write.
  \<open>wait_fails\<close> is an \<open>epoll_wait\<close> that reports an error: the loop goes back to its condition.
\<close>

inductive_cases tq_stepE: "tq_step s s'"

section \<open>Its invariant\<close>

fun todo_of :: "'task lpc \<Rightarrow> 'task list" where
  "todo_of (Running todo w) = todo"
| "todo_of c = []"

text \<open>The loop is going to look at the queue without being told.\<close>

fun will_look :: "'task lpc \<Rightarrow> bool" where
  "will_look Testing = False"
| "will_look Waiting = False"
| "will_look (Events sig) = True"
| "will_look (Running todo w) = w"
| "will_look Ended = False"

definition tq_inv :: "'task tq \<Rightarrow> bool" where
  "tq_inv s \<longleftrightarrow> executed s @ todo_of (pc s) @ pend s = submitted s \<and>
     (pend s \<noteq> [] \<longrightarrow> efd s \<noteq> 0 \<or> (\<exists>p. mid_push s p) \<or> will_look (pc s)) \<and> (pc s = Ended \<longrightarrow> quitting s)"

lemma eventfd_write_nonzero: "eventfd_write 1 n \<noteq> 0"
proof (cases "unat n + 1 \<le> 2 ^ 64 - 2")
  case True
  then have "unat (n + 1) = unat n + 1" by (simp add: unat_word_ariths)
  then have "n + 1 \<noteq> 0" by (metis Suc_eq_plus1 nat.distinct(1) unsigned_0)
  with True show ?thesis by (simp add: eventfd_write_def)
next
  case False
  then show ?thesis by (auto simp: eventfd_write_def)
qed

lemma tq_inv_step: "tq_step s s' \<Longrightarrow> tq_inv s \<Longrightarrow> tq_inv s'"
  by (erule tq_stepE) (auto simp: tq_inv_def eventfd_write_nonzero)

interpretation task_queue: inv_system tq_init tq_step tq_inv
proof unfold_locales
  show "tq_init s \<Longrightarrow> tq_inv s" for s :: "'a tq" by (simp add: tq_init_def tq_inv_def)
qed (rule tq_inv_step)

section \<open>The functions of the loop as runs of the machine\<close>

definition tq_of :: "'task env \<Rightarrow> (nat \<Rightarrow> bool) \<Rightarrow> 'task lpc \<Rightarrow> 'task list \<Rightarrow> 'task list \<Rightarrow> 'task tq" where
  "tq_of e P c S R = \<lparr>pend = pending (loop e), efd = eventfd (sys e), mid_push = P, quitting = quit_flag (loop e), pc = c, submitted = S, executed = R\<rparr>"

lemma queueInLoop_run:
  assumes "\<not> P p"
  shows "tq_step\<^sup>*\<^sup>* (tq_of e P c S R) (tq_of (queueInLoop False t e) P c (S @ [t]) R)"
proof -
  let ?s = "tq_of e P c S R"
  let ?s1 = "?s\<lparr>pend := pend ?s @ [t], submitted := submitted ?s @ [t], mid_push := P(p := True)\<rparr>"
  have "tq_step ?s ?s1" using tq_step.push [of ?s p t] assms by (simp add: tq_of_def)
  moreover have "tq_step ?s1 (?s1\<lparr>efd := eventfd_write 1 (efd ?s1), mid_push := (mid_push ?s1)(p := False)\<rparr>)"
    by (rule tq_step.signal) simp
  moreover have "?s1\<lparr>efd := eventfd_write 1 (efd ?s1), mid_push := (mid_push ?s1)(p := False)\<rparr> =
      tq_of (queueInLoop False t e) P c (S @ [t]) R"
    using assms by (simp add: tq_of_def queueInLoop_def wakeup_def Let_def fun_upd_idem)
  ultimately show ?thesis by (metis converse_rtranclp_into_rtranclp r_into_rtranclp)
qed

lemma handleWakeup_run: "tq_step (tq_of e P (Events True) S R) (tq_of (handleWakeup e) P (Events False) S R)"
  using tq_step.clear [of "tq_of e P (Events True) S R"] by (simp add: tq_of_def handleWakeup_eq eventfd_read_def split: if_splits)

lemma tasks_run:
  assumes keep: "\<And>t s. pending (loop (snd (run t s))) = pending (loop (snd s)) \<and> eventfd (sys (snd (run t s))) = eventfd (sys (snd s)) \<and>
    quit_flag (loop (snd (run t s))) = quit_flag (loop (snd s))"
  shows "tq_step\<^sup>*\<^sup>* (tq_of (snd s) P (Running todo False) S R) (tq_of (snd (fold run todo s)) P (Running [] False) S (R @ todo))"
proof (induction todo arbitrary: s R)
  case (Cons t todo)
  have "tq_step (tq_of (snd s) P (Running (t # todo) False) S R) (tq_of (snd (run t s)) P (Running todo False) S (R @ [t]))"
    using tq_step.run [of "tq_of (snd s) P (Running (t # todo) False) S R" t todo] keep by (simp add: tq_of_def)
  with Cons.IH [of "run t s" "R @ [t]"] show ?case by (simp add: converse_rtranclp_into_rtranclp)
qed simp

lemma doPendingFunctors_run:
  assumes keep: "\<And>t s. pending (loop (snd (run t s))) = pending (loop (snd s)) \<and> eventfd (sys (snd (run t s))) = eventfd (sys (snd s)) \<and>
    quit_flag (loop (snd (run t s))) = quit_flag (loop (snd s))"
  shows "tq_step\<^sup>*\<^sup>* (tq_of e P (Events False) S R)
    (tq_of (snd (doPendingFunctors run (objs, e))) P Testing S (R @ pending (loop e)))"
proof -
  let ?s1 = "(objs, e\<lparr>loop := (loop e)\<lparr>calling_pending := True, pending := []\<rparr>\<rparr>)"
  let ?s2 = "fold run (pending (loop e)) ?s1"
  have 1: "tq_step (tq_of e P (Events False) S R) (tq_of (snd ?s1) P (Running (pending (loop e)) False) S R)"
    using tq_step.swap [of "tq_of e P (Events False) S R"] by (simp add: tq_of_def)
  have 3: "tq_step (tq_of (snd ?s2) P (Running [] False) S (R @ pending (loop e))) (tq_of (snd ?s2) P Testing S (R @ pending (loop e)))"
    using tq_step.again [of "tq_of (snd ?s2) P (Running [] False) S (R @ pending (loop e))"] by (simp add: tq_of_def)
  have 4: "tq_of (snd (doPendingFunctors run (objs, e))) P Testing S' R' = tq_of (snd ?s2) P Testing S' R'" for S' R'
    by (simp add: doPendingFunctors_def Let_def tq_of_def case_prod_beta)
  have 2: "tq_step\<^sup>*\<^sup>* (tq_of (snd ?s1) P (Running (pending (loop e)) False) S R) (tq_of (snd ?s2) P (Running [] False) S (R @ pending (loop e)))"
    by (rule tasks_run [OF keep])
  show ?thesis
    unfolding 4
    by (rule rtranclp_trans [OF r_into_rtranclp [where r = tq_step, OF 1] rtranclp_trans [OF 2 r_into_rtranclp [where r = tq_step, OF 3]]])
qed

lemma quit_run:
  assumes "\<not> P p"
  shows "tq_step\<^sup>*\<^sup>* (tq_of e P c S R) (tq_of (quit False e) P c S R)"
proof -
  let ?s1 = "(tq_of e P c S R)\<lparr>quitting := True, mid_push := P(p := True)\<rparr>"
  have "tq_step (tq_of e P c S R) ?s1" using tq_step.stop [of "tq_of e P c S R" p] assms by (simp add: tq_of_def)
  moreover have "tq_step ?s1 (?s1\<lparr>efd := eventfd_write 1 (efd ?s1), mid_push := (mid_push ?s1)(p := False)\<rparr>)"
    by (rule tq_step.signal) simp
  moreover have "?s1\<lparr>efd := eventfd_write 1 (efd ?s1), mid_push := (mid_push ?s1)(p := False)\<rparr> = tq_of (quit False e) P c S R"
    using assms by (simp add: tq_of_def quit_def wakeup_def Let_def fun_upd_idem)
  ultimately show ?thesis by (metis converse_rtranclp_into_rtranclp r_into_rtranclp)
qed

section \<open>The loop's thread alone\<close>

text \<open>
  What the loop's thread does next when nothing new arrives and no timeout helps it: blocked in
  \<open>epoll_wait\<close> it moves only if the eventfd is readable.
\<close>

definition loop_tick :: "'task tq \<Rightarrow> 'task tq" where
  "loop_tick s =
     (case pc s of
        Testing \<Rightarrow> s\<lparr>pc := if quitting s then Ended else Waiting\<rparr>
      | Waiting \<Rightarrow> if efd s \<noteq> 0 then s\<lparr>pc := Events True\<rparr> else s
      | Events True \<Rightarrow> s\<lparr>efd := snd (eventfd_read (efd s)), pc := Events False\<rparr>
      | Events False \<Rightarrow> s\<lparr>pend := [], pc := Running (pend s) False\<rparr>
      | Running todo True \<Rightarrow> s\<lparr>efd := eventfd_write 1 (efd s), pc := Running todo False\<rparr>
      | Running (t # todo) False \<Rightarrow> s\<lparr>pc := Running todo False, executed := executed s @ [t]\<rparr>
      | Running [] False \<Rightarrow> s\<lparr>pc := Testing\<rparr>
      | Ended \<Rightarrow> s)"

lemma loop_tick_step: "loop_tick s = s \<or> tq_step s (loop_tick s)"
proof (cases "pc s")
  case Testing
  then show ?thesis using tq_step.enter [of s] tq_step.leave [of s] by (simp add: loop_tick_def)
next
  case Ended
  then show ?thesis by (simp add: loop_tick_def)
next
  case Waiting
  then show ?thesis using tq_step.wait [of s True] by (simp add: loop_tick_def)
next
  case (Events sig)
  then show ?thesis using tq_step.clear [of s] tq_step.swap [of s] by (cases sig) (simp_all add: loop_tick_def)
next
  case (Running todo w)
  then show ?thesis
    using tq_step.signal_self [of s] tq_step.run [of s] tq_step.again [of s]
    by (cases w; cases todo) (simp_all add: loop_tick_def)
qed

lemma tick_running:
  "pc s = Running todo False \<Longrightarrow>
   (loop_tick ^^ Suc (length todo)) s = s\<lparr>pc := Testing, executed := executed s @ todo\<rparr>"
proof (induction todo arbitrary: s)
  case (Cons t todo)
  let ?s = "s\<lparr>pc := Running todo False, executed := executed s @ [t]\<rparr>"
  have "loop_tick s = ?s" using Cons.prems by (simp add: loop_tick_def)
  with Cons.IH [of ?s] show ?case by (simp add: funpow_swap1 del: funpow.simps) (simp add: funpow_swap1)
qed (simp add: loop_tick_def)

lemma tick_swapped:
  assumes "pc s = Events False"
  shows "(loop_tick ^^ Suc (Suc (length (pend s)))) s = s\<lparr>pend := [], pc := Testing, executed := executed s @ pend s\<rparr>"
proof -
  have "loop_tick s = s\<lparr>pend := [], pc := Running (pend s) False\<rparr>" using assms by (simp add: loop_tick_def)
  with tick_running [of "s\<lparr>pend := [], pc := Running (pend s) False\<rparr>" "pend s"] show ?thesis
    by (simp only: funpow_Suc_right comp_apply) simp
qed

lemma tick_events:
  assumes "pc s = Events sig"
  shows "\<exists>n \<le> length (pend s) + 3. executed ((loop_tick ^^ n) s) = executed s @ pend s \<and> submitted ((loop_tick ^^ n) s) = submitted s \<and>
    pc ((loop_tick ^^ n) s) = Testing \<and> pend ((loop_tick ^^ n) s) = [] \<and> quitting ((loop_tick ^^ n) s) = quitting s"
proof (cases sig)
  case True
  let ?u = "s\<lparr>efd := snd (eventfd_read (efd s)), pc := Events False\<rparr>"
  have "loop_tick s = ?u" using assms True by (simp add: loop_tick_def)
  with tick_swapped [of ?u] show ?thesis
    by (intro exI [of _ "Suc (Suc (Suc (length (pend s))))"]) (simp add: funpow_swap1)
next
  case False
  with tick_swapped [of s] assms show ?thesis by (intro exI [of _ "Suc (Suc (length (pend s)))"]) simp
qed

lemma tick_waiting:
  assumes "pc s = Waiting" "pend s \<noteq> [] \<longrightarrow> efd s \<noteq> 0"
  shows "\<exists>n \<le> length (pend s) + 4. executed ((loop_tick ^^ n) s) = executed s @ pend s \<and> submitted ((loop_tick ^^ n) s) = submitted s"
proof (cases "pend s = []")
  case True
  then show ?thesis by (intro exI [of _ 0]) simp
next
  case False
  let ?u = "s\<lparr>pc := Events True\<rparr>"
  have "loop_tick s = ?u" using assms False by (simp add: loop_tick_def)
  moreover obtain n where "n \<le> length (pend s) + 3" "executed ((loop_tick ^^ n) ?u) = executed s @ pend s" "submitted ((loop_tick ^^ n) ?u) = submitted s"
    using tick_events [of ?u True] by auto
  ultimately show ?thesis by (intro exI [of _ "Suc n"]) (simp add: funpow_swap1)
qed

lemma tick_testing:
  assumes "pc s = Testing" "pend s \<noteq> [] \<longrightarrow> efd s \<noteq> 0" "\<not> quitting s"
  shows "\<exists>n \<le> length (pend s) + 5. executed ((loop_tick ^^ n) s) = executed s @ pend s \<and> submitted ((loop_tick ^^ n) s) = submitted s"
proof -
  have "loop_tick s = s\<lparr>pc := Waiting\<rparr>" using assms by (simp add: loop_tick_def)
  moreover obtain n where "n \<le> length (pend s) + 4" "executed ((loop_tick ^^ n) (s\<lparr>pc := Waiting\<rparr>)) = executed s @ pend s"
      "submitted ((loop_tick ^^ n) (s\<lparr>pc := Waiting\<rparr>)) = submitted s"
    using tick_waiting [of "s\<lparr>pc := Waiting\<rparr>"] assms(2) by auto
  ultimately show ?thesis by (intro exI [of _ "Suc n"]) (simp add: funpow_swap1)
qed

text \<open>The pass over the tasks that has begun ends, whether the running task still has to write or not.\<close>

lemma tick_pass:
  assumes "pc s = Running todo w"
  shows "\<exists>n \<le> length todo + 2. (loop_tick ^^ n) s =
    s\<lparr>efd := if w then eventfd_write 1 (efd s) else efd s, pc := Testing, executed := executed s @ todo\<rparr>"
proof (cases w)
  case True
  then have "loop_tick s = s\<lparr>efd := eventfd_write 1 (efd s), pc := Running todo False\<rparr>"
    using assms by (cases todo) (simp_all add: loop_tick_def)
  with tick_running [of "s\<lparr>efd := eventfd_write 1 (efd s), pc := Running todo False\<rparr>" todo] True show ?thesis
    by (intro exI [of _ "Suc (Suc (length todo))"]) (simp add: funpow_swap1)
next
  case False
  with tick_running [of s todo] assms show ?thesis by (intro exI [of _ "Suc (length todo)"]) simp
qed

section \<open>Properties\<close>

text \<open>One producer queues one task while the loop is blocked.\<close>

definition tq_start :: "nat tq" where
  "tq_start = \<lparr>pend = [], efd = 0, mid_push = (\<lambda>_. False), quitting = False, pc = Testing, submitted = [], executed = []\<rparr>"

definition tq_queued :: "nat tq" where
  "tq_queued = \<lparr>pend = [7], efd = 1, mid_push = (\<lambda>_. False), quitting = False, pc = Waiting, submitted = [7], executed = []\<rparr>"

lemma tq_demo: "tq_init tq_start" "tq_step\<^sup>*\<^sup>* tq_start tq_queued"
proof -
  let ?r = "tq_start\<lparr>pc := Waiting\<rparr>"
  let ?s = "?r\<lparr>pend := [7], submitted := [7], mid_push := (\<lambda>_. False)(0 := True)\<rparr>"
  have "tq_step tq_start ?r" by (rule tq_step.enter) (simp_all add: tq_start_def)
  moreover have "tq_step ?r ?s" using tq_step.push [of ?r 0 7] by (simp add: tq_start_def)
  moreover have "tq_step ?s tq_queued"
    using tq_step.signal [of ?s 0] by (simp add: tq_start_def tq_queued_def eventfd_write_def fun_upd_idem)
  ultimately show "tq_step\<^sup>*\<^sup>* tq_start tq_queued" by simp
qed (simp add: tq_init_def tq_start_def)

text \<open>
  C25: no lost wake-up. In every reachable state, if the loop is blocked in \<open>epoll_wait\<close>, the queue is not
  empty and no producer is between its push and its write, then the eventfd is readable, so that the
  wait returns at once.
\<close>

theorem no_lost_wakeup:
  assumes "tq_init s0" "tq_step\<^sup>*\<^sup>* s0 s" "pc s = Waiting" "pend s \<noteq> []" "\<forall>p. \<not> mid_push s p"
  shows "efd s \<noteq> 0"
  using task_queue.inv_reachable [OF assms(1,2)] assms(3-5) by (simp add: tq_inv_def)

theorem no_lost_wakeup_witness: "efd tq_queued \<noteq> 0"
  using no_lost_wakeup [OF tq_demo] by (simp add: tq_queued_def)

text \<open>
  C35: tasks run in the order in which they were queued and at most once, whatever the interleaving: what
  has run, what the loop has taken and what is still in the queue are together what was queued.
\<close>

theorem tasks_once_in_order:
  assumes "tq_init s0" "tq_step\<^sup>*\<^sup>* s0 s"
  shows "executed s @ todo_of (pc s) @ pend s = submitted s"
  using task_queue.inv_reachable [OF assms] by (simp add: tq_inv_def)

theorem tasks_once_in_order_witness: "executed tq_queued @ todo_of (pc tq_queued) @ pend tq_queued = submitted tq_queued"
  using tasks_once_in_order [OF tq_demo] .

text \<open>
  C12: every queued task is run, as long as the loop is not told to quit. From every reachable state in which \<open>quit_\<close> is
  not set and no other thread is between its push and its write,
  the loop's thread alone, never relying on the timeout of \<open>epoll_wait\<close>, runs everything that was queued
  within a bounded number of its own steps. (A loop that has been told to quit ends instead and drops what it has not taken.)
\<close>

theorem queued_tasks_run:
  assumes "tq_init s0" "tq_step\<^sup>*\<^sup>* s0 s" "\<forall>p. \<not> mid_push s p" "\<not> quitting s"
  shows "\<exists>n \<le> length (todo_of (pc s)) + length (pend s) + 7.
    executed ((loop_tick ^^ n) s) = submitted s \<and> submitted ((loop_tick ^^ n) s) = submitted s"
proof -
  have inv: "executed s @ todo_of (pc s) @ pend s = submitted s" "pend s \<noteq> [] \<longrightarrow> efd s \<noteq> 0 \<or> will_look (pc s)" "pc s \<noteq> Ended"
    using task_queue.inv_reachable [OF assms(1,2)] assms(3,4) by (auto simp: tq_inv_def)
  show ?thesis
  proof (cases "pc s")
    case Testing
    with inv tick_testing [OF Testing _ assms(4)] obtain n where "n \<le> length (pend s) + 5"
        "executed ((loop_tick ^^ n) s) = submitted s \<and> submitted ((loop_tick ^^ n) s) = submitted s" by auto
    then show ?thesis by (intro exI [of _ n]) simp
  next
    case Waiting
    with inv tick_waiting [OF Waiting] obtain n where "n \<le> length (pend s) + 4"
        "executed ((loop_tick ^^ n) s) = submitted s \<and> submitted ((loop_tick ^^ n) s) = submitted s" by auto
    then show ?thesis by (intro exI [of _ n]) simp
  next
    case (Events sig)
    with inv tick_events [OF Events] obtain n where "n \<le> length (pend s) + 3"
        "executed ((loop_tick ^^ n) s) = submitted s \<and> submitted ((loop_tick ^^ n) s) = submitted s" by auto
    then show ?thesis by (intro exI [of _ n]) simp
  next
    case (Running todo w)
    obtain m where m: "m \<le> length todo + 2"
        "(loop_tick ^^ m) s = s\<lparr>efd := if w then eventfd_write 1 (efd s) else efd s, pc := Testing, executed := executed s @ todo\<rparr>"
      using tick_pass [OF Running] by blast
    let ?v = "(loop_tick ^^ m) s"
    have v: "pc ?v = Testing" "pend ?v \<noteq> [] \<longrightarrow> efd ?v \<noteq> 0" "\<not> quitting ?v" "executed ?v @ pend ?v = submitted s"
        "submitted ?v = submitted s" "pend ?v = pend s"
      using inv Running assms(4) by (auto simp: m(2) eventfd_write_nonzero)
    obtain n where "n \<le> length (pend s) + 5" "executed ((loop_tick ^^ n) ?v) = submitted s" "submitted ((loop_tick ^^ n) ?v) = submitted s"
      using tick_testing [OF v(1-3)] v(4-6) by auto
    moreover have "(loop_tick ^^ n) ?v = (loop_tick ^^ (n + m)) s" by (simp add: funpow_add)
    ultimately show ?thesis using m(1) Running by (intro exI [of _ "n + m"]) simp
  qed (use inv in simp)
qed

theorem queued_tasks_run_witness:
  "\<exists>n \<le> 8. executed ((loop_tick ^^ n) tq_queued) = [7] \<and> submitted ((loop_tick ^^ n) tq_queued) = [7]"
  using queued_tasks_run [OF tq_demo] by (simp add: tq_queued_def)

text \<open>
  A loop that has been told to quit ends: its thread is at most one turn away from the test of \<open>quit_\<close>, unless it
  waits and the eventfd is not readable (\<open>quit\<close> called by the loop's own thread while it waits, as a signal handler
  does; every other thread writes). It has then run what it had taken, and what is left in the queue stays there.
\<close>

lemma quitting_loop_ends:
  assumes "tq_init s0" "tq_step\<^sup>*\<^sup>* s0 s" "quitting s" "pc s = Waiting \<longrightarrow> efd s \<noteq> 0"
  shows "\<exists>n \<le> length (todo_of (pc s)) + length (pend s) + 5. let s' = (loop_tick ^^ n) s in
    pc s' = Ended \<and> prefix (executed s @ todo_of (pc s)) (executed s') \<and> executed s' @ pend s' = submitted s"
proof -
  have reach: "tq_step\<^sup>*\<^sup>* s0 ((loop_tick ^^ n) s)" for n
  proof (induction n)
    case (Suc n)
    then show ?case using loop_tick_step [of "(loop_tick ^^ n) s"] by (auto intro: rtranclp.rtrancl_into_rtrancl)
  qed (use assms(2) in simp)
  have sub: "submitted (loop_tick u) = submitted u" for u :: "'a tq"
    by (simp add: loop_tick_def split: lpc.split bool.split list.split)
  have subs: "submitted ((loop_tick ^^ n) s) = submitted s" for n by (induction n) (simp_all add: sub)
  have fin: ?thesis if "(loop_tick ^^ n) s = u" "pc u = Testing" "quitting u" "prefix (executed s @ todo_of (pc s)) (executed u)"
      "n \<le> length (todo_of (pc s)) + length (pend s) + 4" for n u
  proof -
    have u': "(loop_tick ^^ Suc n) s = u\<lparr>pc := Ended\<rparr>" using that(1-3) by (simp add: loop_tick_def)
    have "executed (u\<lparr>pc := Ended\<rparr>) @ pend (u\<lparr>pc := Ended\<rparr>) = submitted s"
      using task_queue.inv_reachable [OF assms(1) reach [of "Suc n"]] subs [of "Suc n"] unfolding u' by (simp add: tq_inv_def)
    with that(4,5) u' show ?thesis by (intro exI [of _ "Suc n"]) (simp add: Let_def)
  qed
  have events: ?thesis if ev: "pc u = Events sig" "(loop_tick ^^ k) s = u" "k \<le> 1" "executed u = executed s" "pend u = pend s" "quitting u"
      "todo_of (pc s) = []" for u sig k
  proof -
    obtain n where n: "n \<le> length (pend u) + 3" "executed ((loop_tick ^^ n) u) = executed u @ pend u" "pc ((loop_tick ^^ n) u) = Testing"
        "quitting ((loop_tick ^^ n) u) = quitting u"
      using tick_events [OF ev(1)] by blast
    have "(loop_tick ^^ (n + k)) s = (loop_tick ^^ n) u" using ev(2) by (simp add: funpow_add)
    then show ?thesis using fin [of "n + k" "(loop_tick ^^ n) u"] n ev by simp
  qed
  show ?thesis
  proof (cases "pc s")
    case Testing
    then show ?thesis using fin [of 0 s] assms(3) by simp
  next
    case Waiting
    then have "(loop_tick ^^ 1) s = s\<lparr>pc := Events True\<rparr>" using assms(4) by (simp add: loop_tick_def)
    from events [OF _ this] assms(3) Waiting show ?thesis by simp
  next
    case (Events sig)
    then show ?thesis using events [of s sig 0] assms(3) by simp
  next
    case (Running todo w)
    obtain m where "m \<le> length todo + 2"
        "(loop_tick ^^ m) s = s\<lparr>efd := if w then eventfd_write 1 (efd s) else efd s, pc := Testing, executed := executed s @ todo\<rparr>"
      using tick_pass [OF Running] by blast
    then show ?thesis using fin [of m, OF _ _ _ _ _] Running assms(3) by simp
  next
    case Ended
    then show ?thesis using task_queue.inv_reachable [OF assms(1,2)] by (intro exI [of _ 0]) (simp add: tq_inv_def Let_def)
  qed
qed

end
