(* ===== verification/Idle_Props.thy ===== *)
theory Idle_Props
  imports Event_Loop
begin

text \<open>
  Idle connections: what one run of the expired timers (\<open>TimerHeap::expire\<close> called from
  \<open>EventLoop::loop\<close>, with the closures of \<open>Connection::armIdleTimer\<close>) does to the connections of a loop.
\<close>

section \<open>One timer that comes up\<close>

lemma idleCheck_closes:
  assumes "\<not> is_closed c" "last_activity c + idle_timeout_s c * 1000000000 \<le> clk_now (clk (sys e))" "idleCheck c e = (c', e')"
  shows "is_closed c'"
proof -
  obtain t e1 where n: "env_now e = (t, e1)" by fastforce
  with assms env_now_facts [OF n] show ?thesis by (auto simp: idleCheck_def conn_close_def Let_def split: if_splits)
qed

lemma idleCheck_live:
  assumes "timer_inv (timers (loop e))" "\<not> is_closed c" "idleCheck c e = (c', e')"
  shows "set (live (timers (loop e))) \<subseteq> set (live (timers (loop e')))"
proof -
  obtain t e1 where n: "env_now e = (t, e1)" by fastforce
  have l: "loop e1 = loop e" using env_now_facts [OF n] by simp
  show ?thesis
  proof (cases "idle_timeout_s c * 1000000000 \<le> t - last_activity c")
    case True
    with assms(3) n l show ?thesis
      by (auto simp: idleCheck_def conn_close_def Let_def bump_def fd_close_def on_poller_def removeConnection_def split: if_splits)
  next
    case False
    then have arm: "armIdleTimer c e1 = (c', e')" using n assms(3) by (simp add: idleCheck_def)
    obtain tid k h where a: "addAfter (idle_timeout_s c * 1000) (Some (IdleCheck (oid c))) (clk (sys e1)) (timers (loop e)) = (tid, k, h)"
      by (metis prod_cases3)
    then obtain w where "h = snd (timer_add w (Some (IdleCheck (oid c))) (timers (loop e)))"
      by (auto simp: addAfter_def Let_def split: prod.splits) (metis snd_conv)
    with set_live_add [OF assms(1)] have "set (live (timers (loop e))) \<subseteq> set (live h)" by auto
    with arm a l show ?thesis by (auto simp: armIdleTimer_def split: if_splits)
  qed
qed

lemma fireTimer_effect:
  assumes inv: "loop_inv (heap_in s hp)" and j: "obj (fst s) j = Some d" and f: "fireTimer (IdleCheck j) s hp = (s', hp')"
  shows "\<exists>v. fst s' = (fst s)[j := v] \<and> j < length (fst s) \<and> set (live hp) \<subseteq> set (live hp') \<and> (\<forall>d'. v = Some d' \<longrightarrow> c_fd d' = c_fd d) \<and>
    (last_activity d + idle_timeout_s d * 1000000000 \<le> clk_now (clk (sys (snd s))) \<longrightarrow> v = None)"
proof -
  obtain objs e where s: "s = (objs, e)" by (cases s)
  let ?e = "e\<lparr>loop := (loop e)\<lparr>timers := hp\<rparr>\<rparr>"
  have inv': "loop_inv (objs, ?e)" using inv by (simp add: heap_in_def s)
  have oj: "obj objs j = Some d" using j s by simp
  note D = loop_invD [OF inv' oj]
  obtain c1 e1 where ic: "idleCheck d ?e = (c1, e1)" by fastforce
  have st: "conn_step d ?e (c1, e1)" using idle_act.act_step [OF D(1)] ic by simp
  have r: "s' = (objs[j := if is_closed c1 then None else Some c1], e1)" "hp' = timers (loop e1)"
    using f oj ic release_eq [OF inv' oj st] by (auto simp: fireTimer_def s)
  have "set (live hp) \<subseteq> set (live hp')" using idleCheck_live [OF _ D(4) ic] loop_inv_timers [OF inv'] r(2) by simp
  moreover have "c_fd c1 = c_fd d" if "\<not> is_closed c1" using st that by (simp add: conn_step_def)
  moreover have "is_closed c1" if "last_activity d + idle_timeout_s d * 1000000000 \<le> clk_now (clk (sys e))"
    using idleCheck_closes [OF D(4) _ ic] that by simp
  ultimately show ?thesis using r(1) s conjunct1 [OF obj_SomeD [OF oj]]
    by (intro exI [of _ "if is_closed c1 then None else Some c1"]) simp
qed

section \<open>A run of the expired timers\<close>

text \<open>
  While the timers are run, connection \<open>c\<close> at \<open>i\<close> is still waiting for its timer \<open>x\<close>, or has gone; the others
  can only go.
\<close>

definition waits_or_gone :: "objs \<Rightarrow> nat \<Rightarrow> Connection \<Rightarrow> timer_cb Entry \<Rightarrow> objs \<Rightarrow> timer_cb TimerHeap \<Rightarrow> bool" where
  "waits_or_gone objs i c x os hp \<longleftrightarrow> covered (obj os) hp \<and> (obj os i = None \<or> obj os i = Some c \<and> x \<in> set (live hp)) \<and>
     (\<forall>j d. obj os j = Some d \<longrightarrow> (\<exists>d0. obj objs j = Some d0 \<and> c_fd d0 = c_fd d))"

lemma waits_or_gone_fire:
  fixes s s' :: "'task lstate"
  assumes inv: "loop_inv (heap_in s hp)" "loop_inv (heap_in s (hp\<lparr>heap := rest\<rparr>))" and Q: "waits_or_gone objs i c x (fst s) hp"
    and y: "heap hp = y # rest" "e_id y \<notin> cancelled hp" "e_cb y = Some cb" and f: "fireTimer cb s (hp\<lparr>heap := rest\<rparr>) = (s', hp')"
    and x: "e_cb x = Some (IdleCheck i)" and idle: "last_activity c + idle_timeout_s c * 1000000000 \<le> clk_now (clk (sys (snd s)))"
  shows "waits_or_gone objs i c x (fst s') hp'"
proof -
  obtain j where cb: "cb = IdleCheck j" by (cases cb)
  note fj = f [unfolded cb] and ti = heap_in_timer_inv [OF inv(1)]
  have cv: "covered (obj (fst s)) hp" using Q by (simp add: waits_or_gone_def)
  obtain d where d: "obj (fst s) j = Some d" "0 < idle_timeout_s d" "covered ((obj (fst s))(j := None)) (hp\<lparr>heap := rest\<rparr>)"
    by (rule covered_pop [OF cv ti y(1,2) y(3) [unfolded cb]])
  obtain v where v: "fst s' = (fst s)[j := v]" "j < length (fst s)" "set (live (hp\<lparr>heap := rest\<rparr>)) \<subseteq> set (live hp')"
      "\<forall>d'. v = Some d' \<longrightarrow> c_fd d' = c_fd d"
      "last_activity d + idle_timeout_s d * 1000000000 \<le> clk_now (clk (sys (snd s))) \<longrightarrow> v = None"
    using fireTimer_effect [OF inv(2) d(1) fj] by blast
  have "covered (obj (fst s')) hp'" by (rule fireTimer_cover [OF inv(2) d(3,1,2) fj])
  moreover have "obj (fst s') i = None \<or> obj (fst s') i = Some c \<and> x \<in> set (live hp')"
  proof (cases "j = i")
    case True
    with Q d(1) have "d = c" by (auto simp: waits_or_gone_def)
    with v(1,2,5) True idle show ?thesis by simp
  next
    case False
    with x y(3) cb have "x \<noteq> y" by auto
    moreover have "live hp = y # live (hp\<lparr>heap := rest\<rparr>)" using y(1,2) by (simp add: live_def)
    ultimately show ?thesis using Q v(1-3) False by (auto simp: waits_or_gone_def)
  qed
  moreover have "\<exists>d0. obj objs k = Some d0 \<and> c_fd d0 = c_fd d'" if "obj (fst s') k = Some d'" for k d'
  proof (cases "k = j")
    case True
    obtain d0 where "obj objs j = Some d0" "c_fd d0 = c_fd d" using Q d(1) by (auto simp: waits_or_gone_def)
    with True that v(1,2,4) show ?thesis by simp
  next
    case False
    with that v(1,2) Q show ?thesis by (simp add: waits_or_gone_def)
  qed
  ultimately show ?thesis by (simp add: waits_or_gone_def)
qed

lemma expireTimers_reaps:
  fixes e :: "'task env"
  assumes inv: "loop_inv (objs, e)" and cov: "idle_cover (objs, e)" and i: "obj objs i = Some c"
    and x: "x \<in> set (live (timers (loop e)))" "e_cb x = Some (IdleCheck i)"
    and due: "e_when x \<le> clk_now (clk (sys e))" and idle: "last_activity c + idle_timeout_s c * 1000000000 \<le> clk_now (clk (sys e))"
  shows "\<exists>objs' e'. expireTimers (objs, e) = Some (objs', e') \<and> loop_move (objs, e) (objs', e') \<and> obj objs' i = None \<and>
    (\<forall>j d. obj objs' j = Some d \<longrightarrow> (\<exists>d0. obj objs j = Some d0 \<and> c_fd d0 = c_fd d))"
proof -
  let ?t = "clk_now (clk (sys e))" and ?Q = "waits_or_gone objs i c x"
  have "\<exists>objs' e'. expireTimers (objs, e) = Some (objs', e') \<and> loop_move (objs, e) (objs', e') \<and> ?Q objs' (timers (loop e')) \<and>
      (\<forall>x \<in> set (heap (timers (loop e'))). ?t < e_when x)"
  proof (rule expireTimers_rule [OF inv refl, where Q = ?Q])
    show "?Q objs (timers (loop e))" using cov i x(1) by (simp add: waits_or_gone_def idle_cover_def)
  next
    fix s :: "'task lstate" and hp y rest
    assume a: "loop_inv (heap_in s hp)" "?Q (fst s) hp" "heap hp = y # rest" "e_id y \<in> cancelled hp"
    note ti = heap_in_timer_inv [OF a(1)]
    from a(2) covered_skip [OF _ ti a(3,4)] live_skip(1) [OF ti a(3,4)]
    show "?Q (fst s) (hp\<lparr>heap := rest, cancelled := cancelled hp - {e_id y}\<rparr>)" by (simp add: waits_or_gone_def)
  next
    fix s :: "'task lstate" and hp y rest
    assume a: "?Q (fst s) hp" "heap hp = y # rest" "e_id y \<notin> cancelled hp" "e_cb y = None"
    then have "y \<in> set (live hp)" "covered (obj (fst s)) hp" by (simp_all add: live_def waits_or_gone_def)
    with a(4) show "?Q (fst s) (hp\<lparr>heap := rest\<rparr>)" by (auto simp: covered_def)
  next
    fix s s' :: "'task lstate" and hp y rest cb hp'
    assume a: "loop_inv (heap_in s hp)" "loop_inv (heap_in s (hp\<lparr>heap := rest\<rparr>))" "?t \<le> clk_now (clk (sys (snd s)))" "?Q (fst s) hp"
      "heap hp = y # rest" "e_id y \<notin> cancelled hp" "e_cb y = Some cb" "fireTimer cb s (hp\<lparr>heap := rest\<rparr>) = (s', hp')"
    show "?Q (fst s') hp'" by (rule waits_or_gone_fire [OF a(1,2,4-8) x(2)]) (use idle a(3) in simp)
  qed
  then obtain objs' e' where r: "expireTimers (objs, e) = Some (objs', e')" "loop_move (objs, e) (objs', e')" "?Q objs' (timers (loop e'))"
      "\<forall>x \<in> set (heap (timers (loop e'))). ?t < e_when x" by blast
  have "x \<notin> set (live (timers (loop e')))" using r(4) due live_subset [of "timers (loop e')"] by fastforce
  with r show ?thesis by (auto simp: waits_or_gone_def)
qed

text \<open>
  C16: idle connections are closed. In a loop whose timers and connections correspond, when the expired timers
  are run, a connection whose timer is due and which has received nothing for its idle timeout is gone
  afterwards: its object is destroyed, its descriptor is closed and neither the table nor epoll knows it.
\<close>

theorem idle_connection_closed:
  assumes "loop_inv (objs, e)" "idle_cover (objs, e)" "obj objs i = Some c" "0 < idle_timeout_s c"
    and "\<forall>x \<in> set (live (timers (loop e))). e_cb x = Some (IdleCheck i) \<longrightarrow> e_when x \<le> clk_now (clk (sys e))"
    and "last_activity c + idle_timeout_s c * 1000000000 \<le> clk_now (clk (sys e))"
    and "c_fd c \<noteq> wakeup_fd (loop e)" "c_fd c \<noteq> acceptor_fd (loop e)"
  shows "\<exists>objs' e'. expireTimers (objs, e) = Some (objs', e') \<and> loop_inv (objs', e') \<and> obj objs' i = None \<and>
    connections (loop e') (c_fd c) = None \<and> interest (poller (loop e')) (c_fd c) = None \<and> c_fd c \<in> set (closed_fds (sys e'))"
proof -
  obtain x where x: "x \<in> set (live (timers (loop e)))" "e_cb x = Some (IdleCheck i)"
    using covered_conn [OF assms(2) [unfolded idle_cover_def fst_conv snd_conv] assms(3)] assms(4) by auto
  obtain objs' e' where r: "expireTimers (objs, e) = Some (objs', e')" "loop_move (objs, e) (objs', e')" "obj objs' i = None"
      "\<forall>j d. obj objs' j = Some d \<longrightarrow> (\<exists>d0. obj objs j = Some d0 \<and> c_fd d0 = c_fd d)"
    using expireTimers_reaps [OF assms(1-3) x _ assms(6)] assms(5) x by blast
  note D = loop_invD [OF assms(1,3)] and inv' = loop_move_inv [OF r(2)]
  have tab: "connections (loop e') (c_fd c) = None"
  proof (rule ccontr)
    assume "connections (loop e') (c_fd c) \<noteq> None"
    then obtain j where "connections (loop e') (c_fd c) = Some j" by auto
    then obtain d where j: "obj objs' j = Some d" "c_fd d = c_fd c"
      using inv' unfolding loop_inv_def prod.case by blast
    with r(4) obtain d0 where "obj objs j = Some d0" "c_fd d0 = c_fd c" by metis
    with loop_invD(2) [OF assms(1)] D(2) have "j = i" by force
    with j(1) r(3) show False by simp
  qed
  have "c_fd c \<in># mset (open_fds objs)" using set_open_fds [of objs] assms(3) by auto
  moreover have "c_fd c \<notin># mset (open_fds objs')" using loop_inv_table [OF inv', of "c_fd c"] tab by simp
  moreover have "mset (closed_fds (sys e')) + mset (open_fds objs') = mset (closed_fds (sys e)) + mset (open_fds objs)"
    using r(2) by (simp add: loop_move_def)
  ultimately have "c_fd c \<in># mset (closed_fds (sys e'))" by (metis union_iff)
  moreover have "interest (poller (loop e')) (c_fd c) = None"
    using inv' tab D(6) assms(7,8) r(2) unfolding loop_inv_def by (auto simp: loop_move_def loop_same_def)
  ultimately show ?thesis using r(1,3) inv' tab by auto
qed

text \<open>A connection that was accepted at time 0 with a timeout of a minute and has been silent for two.\<close>

definition idle_conn :: Connection where
  "idle_conn = sample_conn\<lparr>oid := 0, idle_timer := 1\<rparr>"

definition idle_env :: "unit env" where
  "idle_env = (sample_env [] [])\<lparr>loop := (loop (sample_env [] []))\<lparr>connections := [5 \<mapsto> 0],
     timers := snd (timer_add 60000000000 (Some (IdleCheck 0)) (TimerHeap_new []))\<rparr>,
     sys := (sys (sample_env [] []))\<lparr>clk := \<lparr>clk_now = 120000000000, clk_ticks = []\<rparr>\<rparr>\<rparr>"

theorem idle_connection_closed_witness:
  "\<exists>objs' e'. expireTimers ([Some idle_conn], idle_env) = Some (objs', e') \<and> obj objs' 0 = None \<and> 5 \<in> set (closed_fds (sys e'))"
proof -
  have h: "timers (loop idle_env) = \<lparr>heap = [\<lparr>e_when = 60000000000, e_cb = Some (IdleCheck 0), e_id = 1\<rparr>], cancelled = {}, next_id = 2, ties = []\<rparr>"
    by (simp add: idle_env_def timer_add_def TimerHeap_new_def Let_def)
  have o: "obj [Some idle_conn] i = (if i = 0 then Some idle_conn else None)" for i by (simp add: obj_def)
  have c: "c_fd idle_conn = 5" "oid idle_conn = 0" "idle_timer idle_conn = 1" "idle_timeout_s idle_conn = 60" "last_activity idle_conn = 0"
      "shared idle_conn" "\<not> is_closed idle_conn" "conn_events idle_conn = kConnBaseEvents"
      "buf_inv (inbuf idle_conn)" "buf_inv (outbuf idle_conn)" "parser_ok (parser idle_conn)"
    by (simp_all add: idle_conn_def sample_conn_def conn_events_def)
  have e: "connections (loop idle_env) = [5 \<mapsto> 0]" "interest (poller (loop idle_env)) = [5 \<mapsto> kConnBaseEvents]"
      "0 \<le> epfd (poller (loop idle_env))" "clk_now (clk (sys idle_env)) = 120000000000"
      "wakeup_fd (loop idle_env) \<noteq> 5" "acceptor_fd (loop idle_env) \<noteq> 5"
    by (simp_all add: idle_env_def sample_env_def)
  have lo: "loop_ok idle_env" using e(3) by (simp add: loop_ok_def timer_inv_def h)
  then have ok: "conn_ok idle_conn idle_env" using c e by (simp add: conn_ok_def h)
  have li: "loop_inv ([Some idle_conn], idle_env)" using lo ok c e by (simp add: loop_inv_def o)
  have "idle_cover ([Some idle_conn], idle_env)" using c by (simp add: idle_cover_def covered_def h live_def o)
  from idle_connection_closed [OF li this, of 0 idle_conn] c e h show ?thesis by (auto simp: o live_def)
qed

end
