(* ===== verification/Delivery.thy ===== *)
theory Delivery
  imports Event_Loop
begin

text \<open>
  How the output of a connection leaves (\<open>handleWrite\<close>, \<open>enableWriting\<close> in \<open>src/connection.cpp\<close>, the EPOLLOUT branch
  of \<open>EventLoop::loop\<close>): a socket that takes a little at a time gets everything, because the connection asks for
  EPOLLOUT as long as something is left, and every such event makes progress.
\<close>

section \<open>Sockets that go on taking\<close>

text \<open>
  An answer of \<open>write\<close> that is not a failure of the socket: it takes some or nothing, or its buffer is full. An
  interruption counts only where the connection already asks for EPOLLOUT (\<open>w\<close>); elsewhere
  \<open>interrupted_write_not_watched\<close> shows that the output is forgotten.
\<close>

fun gentle :: "bool \<Rightarrow> tx \<Rightarrow> bool" where
  "gentle w (TxAccept n) = True"
| "gentle w (TxErr er) = (er = EAGAIN \<or> w \<and> er = EINTR)"

fun stalling :: "tx \<Rightarrow> bool" where
  "stalling (TxAccept n) = (n = 0)"
| "stalling (TxErr er) = True"

definition stalls :: "tx list \<Rightarrow> nat" where
  "stalls s = length (filter stalling s)"

lemma stalls_simps [simp]: "stalls [] = 0" "stalls (t # s) = (if stalling t then Suc (stalls s) else stalls s)"
  by (simp_all add: stalls_def)

lemma gentle_mono: "gentle False t \<Longrightarrow> gentle w t"
  by (cases t) auto

text \<open>What a connection still owes its socket: the bytes, and the turns on which the socket takes none.\<close>

definition owed :: "Connection \<Rightarrow> 'task env \<Rightarrow> int \<Rightarrow> nat" where
  "owed c e fd = length (contents (outbuf c)) + stalls (txs (sys e) fd)"

text \<open>
  The state between two calls: a closed connection has sent everything; an open one watches for EPOLLOUT while
  something is left, and otherwise neither watches for it nor is about to close.
\<close>

definition sending :: "bool \<Rightarrow> int \<Rightarrow> Connection \<Rightarrow> 'task env \<Rightarrow> bool" where
  "sending w fd c e \<longleftrightarrow> conn_ok c e \<and>
     (if is_closed c then contents (outbuf c) = [] \<and> close_after_write c
      else c_fd c = fd \<and> list_all (gentle w) (txs (sys e) fd) \<and>
        (if contents (outbuf c) = [] then \<not> close_after_write c \<and> \<not> writing c else writing c))"

section \<open>One call of handleWrite\<close>

text \<open>The three ways \<open>writeSome\<close> ends on such a socket.\<close>

lemma writeSome_gentle:
  assumes "conn_ok c e" "contents (outbuf c) \<noteq> []" "list_all (gentle w) (txs (sys e) (c_fd c))"
  shows "(\<exists>n e1. writeSome c e = Inr (c\<lparr>outbuf := retrieve (outbuf c) n\<rparr>, e1) \<and> 0 < n \<and> n \<le> length (contents (outbuf c)) \<and>
      wire (sys e1) (c_fd c) = wire (sys e) (c_fd c) @ take n (contents (outbuf c)) \<and>
      list_all (gentle w) (txs (sys e1) (c_fd c)) \<and> stalls (txs (sys e1) (c_fd c)) \<le> stalls (txs (sys e) (c_fd c))) \<or>
    (\<exists>e1. (writeSome c e = Inr (c, e1) \<or> w \<and> writeSome c e = Inl (c, e1)) \<and> wire (sys e1) (c_fd c) = wire (sys e) (c_fd c) \<and>
      list_all (gentle w) (txs (sys e1) (c_fd c)) \<and> stalls (txs (sys e1) (c_fd c)) < stalls (txs (sys e) (c_fd c)))"
proof -
  have n: "0 < readableBytes (outbuf c)" "readableBytes (outbuf c) = length (contents (outbuf c))"
    using assms(1,2) by (simp_all add: conn_ok_def readableBytes_contents)
  have pk: "peek_n (outbuf c) (readableBytes (outbuf c)) = contents (outbuf c)" by (simp add: contents_def)
  let ?d = "contents (outbuf c)"
  obtain t s where s: "txs (sys e) (c_fd c) = t # s \<or> txs (sys e) (c_fd c) = [] \<and> t = TxAccept (length ?d) \<and> s = []"
    by (cases "txs (sys e) (c_fd c)") auto
  have g: "gentle w t" "list_all (gentle w) s" "stalls s \<le> stalls (txs (sys e) (c_fd c))"
      "stalling t \<Longrightarrow> stalls s < stalls (txs (sys e) (c_fd c))"
    using s assms(2,3) by auto
  define r where "r = (case t of TxAccept n \<Rightarrow> Inr (min n (length ?d)) | TxErr er \<Rightarrow> Inl er)"
  have "sys_write ?d (txs (sys e) (c_fd c)) = (r, s)" using s by (auto simp: r_def split: tx.split)
  then obtain e1 where e1: "env_write (c_fd c) ?d e = (r, e1)" "txs (sys e1) (c_fd c) = s"
      "wire (sys e1) (c_fd c) = wire (sys e) (c_fd c) @ (case r of Inl _ \<Rightarrow> [] | Inr n \<Rightarrow> take n ?d)"
    by (simp add: env_write_def split: sum.split)
  show ?thesis
  proof (cases "stalling t")
    case True
    have "writeSome c e = Inr (c, e1) \<or> w \<and> writeSome c e = Inl (c, e1)"
      using True g(1) n(1) pk e1(1) by (cases t) (auto simp: writeSome_def r_def)
    moreover have "wire (sys e1) (c_fd c) = wire (sys e) (c_fd c)" using True e1(3) by (cases t) (auto simp: r_def)
    ultimately show ?thesis using True g(2,4) e1(2) by auto
  next
    case False
    then obtain m where t: "t = TxAccept m" "0 < m" by (cases t) auto
    let ?n = "min m (length ?d)" and ?e2 = "bump (bytes_written_update (\<lambda>k. k + of_nat (min m (length ?d)))) e1"
    have pos: "0 < ?n" using t(2) assms(2) by simp
    have "writeSome c e = Inr (c\<lparr>outbuf := retrieve (outbuf c) ?n\<rparr>, ?e2)"
      using t pos n(1) pk e1(1) by (simp add: writeSome_def r_def)
    moreover have "sys ?e2 = sys e1" by (simp add: bump_def)
    moreover have "wire (sys e1) (c_fd c) = wire (sys e) (c_fd c) @ take ?n ?d" using e1(3) t(1) by (simp add: r_def)
    ultimately show ?thesis using pos g(2,3) e1(2) by (intro disjI1 exI [of _ ?n] exI [of _ ?e2]) simp
  qed
qed

lemma close_frame_sys: "txs (sys (snd (conn_close c e))) = txs (sys e)" "is_closed (fst (conn_close c e))"
  by (simp_all add: conn_close_def Let_def bump_def fd_close_def on_poller_def on_timers_def)

lemma enableWriting_open:
  "\<not> is_closed c \<Longrightarrow> enableWriting on c e = (c\<lparr>writing := on\<rparr>, snd (enableWriting on c e)) \<and>
     sys (snd (enableWriting on c e)) = sys e"
  by (simp add: enableWriting_def on_poller_def Let_def)

lemma handleWrite_gentle:
  assumes ok: "conn_ok c e" and op: "\<not> is_closed c" and ne: "contents (outbuf c) \<noteq> []"
    and g: "list_all (gentle w) (txs (sys e) (c_fd c))" "w \<longrightarrow> writing c" and r: "handleWrite c e = (c', e')"
  shows "sending w (c_fd c) c' e' \<and> close_after_write c' = close_after_write c \<and> owed c' e' (c_fd c) < owed c e (c_fd c)"
proof -
  have ok': "conn_ok c' e'" using handleWrite_step [OF ok] r conn_step_ok by metis
  have left: "readableBytes (outbuf c1) = length (contents (outbuf c1))" if "writeSome c e = Inr (c1, e1)" for c1 e1
    using conn_step_ok [OF writeSome_step [OF ok disjI2 [OF that]]] by (simp add: conn_ok_def readableBytes_contents)
  from writeSome_gentle [OF ok ne g(1)] show ?thesis
  proof (elim disjE exE conjE)
    fix n e1
    let ?c1 = "c\<lparr>outbuf := retrieve (outbuf c) n\<rparr>"
    assume w: "writeSome c e = Inr (?c1, e1)" "0 < n" "n \<le> length (contents (outbuf c))"
      "list_all (gentle w) (txs (sys e1) (c_fd c))" "stalls (txs (sys e1) (c_fd c)) \<le> stalls (txs (sys e) (c_fd c))"
    have o: "contents (outbuf ?c1) = drop n (contents (outbuf c))" using ok by (simp add: conn_ok_def buf_simps)
    show ?thesis
    proof (cases "contents (outbuf ?c1) = []")
      case True
      obtain c2 e2 where 2: "(if writing c then enableWriting False ?c1 e1 else (?c1, e1)) = (c2, e2)" by fastforce
      then have f: "\<not> is_closed c2" "c_fd c2 = c_fd c" "outbuf c2 = outbuf ?c1" "close_after_write c2 = close_after_write c" "sys e2 = sys e1"
        using op enableWriting_open [of ?c1 False e1] by (auto split: if_splits)
      have wr: "\<not> writing c2" using 2 op enableWriting_open [of ?c1 False e1] by (auto split: if_splits)
      have "(if close_after_write c then conn_close c2 e2 else (c2, e2)) = (c', e')"
        using r op w(1) 2 f left [OF w(1)] True by (simp add: handleWrite_def)
      then show ?thesis
        using ok' w f wr True ne close_frame_sys [of c2 e2] conn_close_frame(2,5) [of c2 e2]
        by (auto simp: sending_def owed_def split: if_splits dest: sym)
    next
      case False
      have "(if writing c then (?c1, e1) else enableWriting True ?c1 e1) = (c', e')"
        using r op w(1) left [OF w(1)] False by (simp add: handleWrite_def split: if_splits)
      then show ?thesis
        using ok' w o op False enableWriting_open [of ?c1 True e1] by (auto simp: sending_def owed_def split: if_splits)
    qed
  next
    fix e1
    assume w: "writeSome c e = Inr (c, e1)"
      "list_all (gentle w) (txs (sys e1) (c_fd c))" "stalls (txs (sys e1) (c_fd c)) < stalls (txs (sys e) (c_fd c))"
    have "(if writing c then (c, e1) else enableWriting True c e1) = (c', e')"
      using r op w(1) left [OF w(1)] ne by (simp add: handleWrite_def split: if_splits)
    then show ?thesis
      using ok' w op ne enableWriting_open [of c True e1] by (auto simp: sending_def owed_def split: if_splits)
  next
    fix e1
    assume w: "w" "writeSome c e = Inl (c, e1)"
      "list_all (gentle w) (txs (sys e1) (c_fd c))" "stalls (txs (sys e1) (c_fd c)) < stalls (txs (sys e) (c_fd c))"
    then have "c' = c" "e' = e1" using r op by (simp_all add: handleWrite_def)
    then show ?thesis using ok' w op ne g(2) by (simp add: sending_def owed_def)
  qed
qed

section \<open>The events that epoll delivers\<close>

text \<open>The kernel reports a socket as writable only to who has asked for it, here at most \<open>k\<close> times.\<close>

definition asks_out :: "int \<Rightarrow> 'task env \<Rightarrow> bool" where
  "asks_out fd e \<longleftrightarrow> (case interest (poller (loop e)) fd of None \<Rightarrow> False | Some ev \<Rightarrow> ev AND EPOLLOUT \<noteq> 0)"

fun out_events ::
  "'task handler \<Rightarrow> ('x \<times> 'task lstate \<Rightarrow> 'x \<times> 'task lstate) \<Rightarrow> nat \<Rightarrow> int \<Rightarrow> 'x \<times> 'task lstate \<Rightarrow> 'x \<times> 'task lstate" where
  "out_events h acceptor 0 fd xs = xs"
| "out_events h acceptor (Suc k) fd xs =
     (if asks_out fd (snd (snd xs)) then out_events h acceptor k fd (dispatch h acceptor (fd, EPOLLOUT) xs) else xs)"

text \<open>An event of a connection, in the loop.\<close>

lemma dispatch_conn:
  assumes inv: "loop_inv (objs, e)" and i: "obj objs i = Some c"
    and fd: "c_fd c \<noteq> wakeup_fd (loop e)" "c_fd c \<noteq> acceptor_fd (loop e)" and r: "connEvent h ev c e = (c', e')"
  shows "dispatch h acceptor (c_fd c, ev) (x, (objs, e)) = (x, (objs[i := if is_closed c' then None else Some c'], e'))"
    and "loop_inv (objs[i := if is_closed c' then None else Some c'], e')" "loop_same e e'" "conn_step c e (c', e')"
proof -
  show st: "conn_step c e (c', e')" using connEvent_step [OF loop_invD(1) [OF inv i], of h ev] r by simp
  note rel = release_eq [OF inv i st]
  show "dispatch h acceptor (c_fd c, ev) (x, (objs, e)) = (x, (objs[i := if is_closed c' then None else Some c'], e'))"
    using i fd r loop_invD(2) [OF inv i] rel by (simp add: dispatch_def findConnection_def)
  have m: "loop_move (objs, e) (objs[i := if is_closed c' then None else Some c'], e')"
    using release_move [OF inv i st] unfolding rel .
  show "loop_inv (objs[i := if is_closed c' then None else Some c'], e')" by (rule loop_move_inv [OF m])
  show "loop_same e e'" using m by (simp add: loop_move_def)
qed

lemma connEvent_out: "0 \<le> c_fd c \<Longrightarrow> connEvent h EPOLLOUT c e = handleWrite c e"
proof -
  have "EPOLLOUT AND (EPOLLHUP OR EPOLLERR) = 0" "EPOLLOUT AND (EPOLLIN OR EPOLLRDHUP) = 0" "EPOLLOUT AND EPOLLOUT \<noteq> 0"
    by code_simp+
  then show "0 \<le> c_fd c \<Longrightarrow> ?thesis" by (simp add: connEvent_def)
qed

lemma asks_out_open: "conn_ok c e \<Longrightarrow> \<not> is_closed c \<Longrightarrow> asks_out (c_fd c) e = writing c"
  using conn_events_EPOLLOUT [of c] by (simp add: asks_out_def conn_ok_def)

lemma out_events_quiet: "\<not> asks_out fd (snd (snd xs)) \<Longrightarrow> out_events h acceptor k fd xs = xs"
  by (cases k) simp_all

lemma asks_out_gone: "loop_inv (objs, e) \<Longrightarrow> 0 \<le> fd \<Longrightarrow> fd \<noteq> wakeup_fd (loop e) \<Longrightarrow> fd \<noteq> acceptor_fd (loop e) \<Longrightarrow>
    connections (loop e) fd = None \<Longrightarrow> \<not> asks_out fd e"
  unfolding loop_inv_def asks_out_def by (auto split: option.split)

text \<open>What has become of the connection: it has gone, or it is idle and watches only for input.\<close>

definition settled :: "bool \<Rightarrow> int \<Rightarrow> nat \<Rightarrow> 'task lstate \<Rightarrow> bool" where
  "settled gone fd i s \<longleftrightarrow> (case s of (objs, e) \<Rightarrow> loop_inv s \<and> \<not> asks_out fd e \<and>
     (if gone then obj objs i = None \<and> connections (loop e) fd = None
      else \<exists>c. obj objs i = Some c \<and> c_fd c = fd \<and> contents (outbuf c) = [] \<and> \<not> close_after_write c))"

text \<open>One event: the loop stays consistent, the bytes move on to the wire and less is owed.\<close>

lemma out_turn:
  assumes inv: "loop_inv (objs, e)" and i: "obj objs i = Some c" and fd: "c_fd c \<noteq> wakeup_fd (loop e)" "c_fd c \<noteq> acceptor_fd (loop e)"
    and S: "sending True (c_fd c) c e" and ne: "contents (outbuf c) \<noteq> []"
  obtains c' e' where "asks_out (c_fd c) e"
    "dispatch h acceptor (c_fd c, EPOLLOUT) (x, (objs, e)) = (x, (objs[i := if is_closed c' then None else Some c'], e'))"
    "loop_inv (objs[i := if is_closed c' then None else Some c'], e')" "loop_same e e'" "conn_step c e (c', e')"
    "sending True (c_fd c) c' e'" "close_after_write c' = close_after_write c" "owed c' e' (c_fd c) < owed c e (c_fd c)"
    "wire (sys e') (c_fd c) @ contents (outbuf c') = wire (sys e) (c_fd c) @ contents (outbuf c)"
proof -
  note D = loop_invD [OF inv i]
  have wr: "writing c" "list_all (gentle True) (txs (sys e) (c_fd c))" using S D(4) ne by (auto simp: sending_def)
  obtain c' e' where r: "handleWrite c e = (c', e')" by fastforce
  have ce: "connEvent h EPOLLOUT c e = (c', e')" using connEvent_out [OF D(6), of h e] r by simp
  have "wire (sys e') (c_fd c) @ contents (outbuf c') = wire (sys e) (c_fd c) @ contents (outbuf c)"
    using handleWrite_stream [of c e] D(1) r by (simp add: stream_def conn_ok_def)
  then show ?thesis
    using that [OF _ dispatch_conn [OF inv i fd ce]] handleWrite_gentle [OF D(1,4) ne wr(2) _ r] wr(1) asks_out_open [OF D(1,4)] by simp
qed

lemma out_events_flush:
  assumes "loop_inv (objs, e)" "obj objs i = Some c" "c_fd c \<noteq> wakeup_fd (loop e)" "c_fd c \<noteq> acceptor_fd (loop e)"
    and "sending True (c_fd c) c e" "owed c e (c_fd c) \<le> k"
  shows "\<exists>s'. out_events h acceptor k (c_fd c) (x, (objs, e)) = (x, s') \<and> settled (close_after_write c) (c_fd c) i s' \<and>
    wire (sys (snd s')) (c_fd c) = wire (sys e) (c_fd c) @ contents (outbuf c)"
  using assms
proof (induction k arbitrary: objs e c)
  case 0
  note D = loop_invD [OF 0(1,2)]
  have "contents (outbuf c) = []" using 0(6) by (simp add: owed_def)
  with 0(1,2,5) D asks_out_open [OF D(1,4)] show ?case by (auto simp: settled_def sending_def)
next
  case (Suc k)
  note D = loop_invD [OF Suc.prems(1,2)]
  show ?case
  proof (cases "contents (outbuf c) = []")
    case True
    with Suc.prems(5) D(4) asks_out_open [OF D(1,4)] have "\<not> asks_out (c_fd c) e" by (simp add: sending_def)
    with True Suc.prems(1,2,5) D show ?thesis by (auto simp: settled_def sending_def)
  next
    case False
    obtain c' e' where t: "asks_out (c_fd c) e"
        "dispatch h acceptor (c_fd c, EPOLLOUT) (x, (objs, e)) = (x, (objs[i := if is_closed c' then None else Some c'], e'))"
        "loop_inv (objs[i := if is_closed c' then None else Some c'], e')" "loop_same e e'" "conn_step c e (c', e')"
        "sending True (c_fd c) c' e'" "close_after_write c' = close_after_write c" "owed c' e' (c_fd c) < owed c e (c_fd c)"
        "wire (sys e') (c_fd c) @ contents (outbuf c') = wire (sys e) (c_fd c) @ contents (outbuf c)"
      by (rule out_turn [OF Suc.prems(1-5) False])
    have step: "out_events h acceptor (Suc k) (c_fd c) (x, (objs, e)) =
        out_events h acceptor k (c_fd c) (x, (objs[i := if is_closed c' then None else Some c'], e'))"
      using t(1,2) by simp
    have il: "i < length objs" using obj_SomeD [OF Suc.prems(2)] by blast
    have fds: "c_fd c \<noteq> wakeup_fd (loop e')" "c_fd c \<noteq> acceptor_fd (loop e')"
      using t(4) Suc.prems(3,4) by (simp_all add: loop_same_def)
    show ?thesis
    proof (cases "is_closed c'")
      case True
      then have gone: "connections (loop e') (c_fd c) = None" "close_after_write c" "contents (outbuf c') = []"
        using t(5-7) D(4) by (auto simp: conn_step_def sending_def)
      with asks_out_gone [OF t(3) D(6) fds] have "\<not> asks_out (c_fd c) e'" by simp
      with True gone t(3,9) il show ?thesis unfolding step by (auto simp: out_events_quiet settled_def)
    next
      case False
      then have fd: "c_fd c' = c_fd c" using t(5) by (simp add: conn_step_def)
      have "obj (objs[i := Some c']) i = Some c'" using il by simp
      with Suc.IH [of "objs[i := Some c']" e' c'] Suc.prems(6) False t(3,6-9) fds fd show ?thesis unfolding step by auto
    qed
  qed
qed

section \<open>Reading on such a socket\<close>

lemma input_used:
  "(OK, p', rest) = aparse p xs \<Longrightarrow>
     2 * length rest + (if pstate HttpParser_new = REQUEST_LINE then 0 else 1) < 2 * length xs + (if pstate p = REQUEST_LINE then 0 else 1)"
  using aparse_shorter [of p xs OK p' rest] aparse_fresh [of p xs p' rest] by (simp add: HttpParser_new_def)

text \<open>Whether the input ends in a request after which the connection closes.\<close>

function closes :: "(HttpRequest \<Rightarrow> HttpResponse) \<Rightarrow> HttpParser \<Rightarrow> bytes \<Rightarrow> bool" where
  "closes h p xs =
     (case aparse p xs of (r, p', rest) \<Rightarrow>
        (case r of
           INCOMPLETE \<Rightarrow> False
         | ERROR \<Rightarrow> True
         | OK \<Rightarrow> if reply_keeps h (request p') then rest \<noteq> [] \<and> closes h HttpParser_new rest else True))"
  by pat_completeness auto
termination
  by (relation "measure (\<lambda>(h, p, xs). 2 * length xs + (if pstate p = REQUEST_LINE then 0 else 1))") (auto dest!: input_used)

declare closes.simps [simp del]

text \<open>The requests that the input puts to the handler.\<close>

function asked :: "(HttpRequest \<Rightarrow> HttpResponse) \<Rightarrow> HttpParser \<Rightarrow> bytes \<Rightarrow> HttpRequest list" where
  "asked h p xs =
     (case aparse p xs of (r, p', rest) \<Rightarrow>
        if r = OK then request p' # (if reply_keeps h (request p') \<and> rest \<noteq> [] then asked h HttpParser_new rest else [])
        else [])"
  by pat_completeness auto
termination
  by (relation "measure (\<lambda>(h, p, xs). 2 * length xs + (if pstate p = REQUEST_LINE then 0 else 1))") (auto dest!: input_used)

declare asked.simps [simp del]

text \<open>
  The answers that an input may get from a handler that looks at more than the request: the list of response
  texts, and whether the connection closes after the last. Each request is answered in some environment; of that
  the relation says that its counter of requests includes the request and, from \<open>n\<close> on, those before it.
\<close>

inductive answers :: "'task handler \<Rightarrow> u64 \<Rightarrow> HttpParser \<Rightarrow> bytes \<Rightarrow> string list \<Rightarrow> bool \<Rightarrow> bool" for handler where
  incomplete: "aparse p xs = (INCOMPLETE, p', rest) \<Longrightarrow> answers handler n p xs [] False"
| reject: "aparse p xs = (ERROR, p', rest) \<Longrightarrow> answers handler n p xs [bad_request] True"
| last: "aparse p xs = (OK, p', rest) \<Longrightarrow> requests (counters e) = n + 1 \<Longrightarrow>
    \<not> (reply_keeps (\<lambda>r. handler e r HttpResponse_new) (request p') \<and> rest \<noteq> []) \<Longrightarrow>
    answers handler n p xs [reply_text (\<lambda>r. handler e r HttpResponse_new) (request p')]
      (\<not> reply_keeps (\<lambda>r. handler e r HttpResponse_new) (request p'))"
| more: "aparse p xs = (OK, p', rest) \<Longrightarrow> requests (counters e) = n + 1 \<Longrightarrow>
    reply_keeps (\<lambda>r. handler e r HttpResponse_new) (request p') \<Longrightarrow> rest \<noteq> [] \<Longrightarrow> answers handler (n + 1) HttpParser_new rest outs cl \<Longrightarrow>
    answers handler n p xs (reply_text (\<lambda>r. handler e r HttpResponse_new) (request p') # outs) cl"

lemma reply_cong: "h r = h' r \<Longrightarrow> reply_keeps h r = reply_keeps h' r \<and> reply_text h r = reply_text h' r"
  by (simp add: reply_keeps_def reply_text_def)

text \<open>A handler that looks only at the request leaves no choice.\<close>

lemma answers_determined:
  assumes "answers handler n p xs outs cl" "\<forall>r \<in> set (asked h p xs). \<forall>e. handler e r HttpResponse_new = h r"
  shows "outs = replies h p xs \<and> cl = closes h p xs"
  using assms
proof (induction rule: answers.induct)
  case (incomplete p xs p' rest n)
  then show ?case by (simp add: replies.simps [of h p xs] closes.simps [of h p xs])
next
  case (reject p xs p' rest n)
  then show ?case by (simp add: replies.simps [of h p xs] closes.simps [of h p xs])
next
  case (last p xs p' rest e n)
  have "request p' \<in> set (asked h p xs)" using last.hyps(1) by (simp add: asked.simps [of h p xs])
  then have "handler e (request p') HttpResponse_new = h (request p')" using last.prems by blast
  note same = reply_cong [of "\<lambda>r. handler e r HttpResponse_new" "request p'" h, OF this]
  with last.hyps show ?case by (auto simp: replies.simps [of h p xs] closes.simps [of h p xs])
next
  case (more p xs p' rest e n outs cl)
  have "request p' \<in> set (asked h p xs)" using more.hyps(1) by (simp add: asked.simps [of h p xs])
  then have "handler e (request p') HttpResponse_new = h (request p')" using more.prems by blast
  note same = reply_cong [of "\<lambda>r. handler e r HttpResponse_new" "request p'" h, OF this]
  have "set (asked h HttpParser_new rest) \<subseteq> set (asked h p xs)"
    using more.hyps(1,3,4) same by (auto simp: asked.simps [of h p xs])
  with more.prems have "\<forall>r \<in> set (asked h HttpParser_new rest). \<forall>e. handler e r HttpResponse_new = h r" by blast
  with more.IH more.hyps(1,3,4) same show ?case by (simp add: replies.simps [of h p xs] closes.simps [of h p xs])
qed

lemma toString_nonempty: "toString r \<noteq> []"
  by (simp add: toString_def)

lemma reply_nonempty: "reply_text h r \<noteq> []" "bad_request \<noteq> []"
  by (simp_all add: reply_text_def bad_request_def toString_nonempty)

lemma send_gentle:
  assumes ok: "conn_ok c e" and op: "\<not> is_closed c" and g: "list_all (gentle False) (txs (sys e) (c_fd c))"
    and d: "d \<noteq> []" and r: "conn_send d c e = (c', e')"
  shows "sending False (c_fd c) c' e' \<and> close_after_write c' = close_after_write c \<and>
    owed c' e' (c_fd c) \<le> owed c e (c_fd c) + length d \<and> stream (c_fd c) c' e' = stream (c_fd c) c e @ d"
proof -
  let ?c = "c\<lparr>outbuf := append_bytes (outbuf c) d\<rparr>"
  have b: "buf_inv (append_bytes (outbuf c) d)" "contents (outbuf ?c) = contents (outbuf c) @ d"
    using ok by (auto simp: conn_ok_def buf_simps)
  have ok1: "conn_ok ?c e" by (rule conn_step_ok [OF conn_step_fields(6) [OF conn_step_refl [OF ok] b(1)]])
  have w: "handleWrite ?c e = (c', e')" using r op d by (simp add: conn_send_def)
  have "sending False (c_fd ?c) c' e' \<and> close_after_write c' = close_after_write ?c \<and> owed c' e' (c_fd ?c) < owed ?c e (c_fd ?c)"
    by (rule handleWrite_gentle [OF ok1 _ _ _ _ w]) (use op g d b(2) in simp_all)
  moreover have "stream (c_fd c) c' e' = stream (c_fd c) c e @ d"
    using send_stream [of c d e] ok op r by (simp add: conn_ok_def)
  ultimately show ?thesis using b(2) by (simp add: owed_def)
qed

lemma reject_gentle:
  assumes ok: "conn_ok c e" and op: "\<not> is_closed c" and g: "list_all (gentle False) (txs (sys e) (c_fd c))"
    and r: "rejectRequest c e = (c', e')"
  shows "sending False (c_fd c) c' e' \<and> close_after_write c' \<and> owed c' e' (c_fd c) \<le> owed c e (c_fd c) + length bad_request \<and>
    stream (c_fd c) c' e' = stream (c_fd c) c e @ bad_request"
proof -
  let ?c = "c\<lparr>close_after_write := True, keep_alive := False\<rparr>" and ?e = "bump (errors_update (\<lambda>n. n + 1)) e"
  have s: "conn_send bad_request ?c ?e = (c', e')" using r by (simp add: rejectRequest_def)
  have "conn_step c e (?c, ?e)"
    using conn_step_bump [OF conn_step_fields(2) [OF conn_step_fields(3) [OF conn_step_refl [OF ok]]]] by simp
  from send_gentle [OF conn_step_ok [OF this] _ _ reply_nonempty(2) s] op g show ?thesis
    by (simp add: owed_def stream_def bump_def)
qed

lemma answer_gentle:
  assumes ok: "conn_ok c e" and op: "\<not> is_closed c" and g: "list_all (gentle False) (txs (sys e) (c_fd c))"
    and caw: "\<not> close_after_write c" and r: "answerRequest (\<lambda>_ r _. h r) c e = (c', e')"
  shows "sending False (c_fd c) c' e' \<and> close_after_write c' = (\<not> reply_keeps h (request (parser c))) \<and>
    owed c' e' (c_fd c) \<le> owed c e (c_fd c) + length (reply_text h (request (parser c)))"
proof -
  let ?r = "request (parser c)"
  let ?c = "if reply_keeps h ?r then c\<lparr>keep_alive := True\<rparr> else c\<lparr>keep_alive := False, close_after_write := True\<rparr>"
  let ?e = "bump (requests_update (\<lambda>n. n + 1)) e"
  obtain c1 e1 where s: "conn_send (reply_text h ?r) ?c ?e = (c1, e1)" by fastforce
  have eq: "c' = c1\<lparr>parser := parser_reset (parser c1)\<rparr>" "e' = bump (responses_update (\<lambda>n. n + 1)) e1"
    using r s by (auto simp: answerRequest_def Let_def reply_text_def reply_keeps_def split: prod.splits if_splits)
  have "conn_step c e (?c, ?e)"
    using conn_step_bump [OF conn_step_fields(2) [OF conn_step_refl [OF ok]]]
      conn_step_bump [OF conn_step_fields(3) [OF conn_step_fields(2) [OF conn_step_refl [OF ok]]]] by simp
  note S = send_gentle [OF conn_step_ok [OF this] _ _ reply_nonempty(1) s]
  have f: "is_closed ?c = is_closed c" "c_fd ?c = c_fd c" "outbuf ?c = outbuf c" "close_after_write ?c = (\<not> reply_keeps h ?r)" "sys ?e = sys e"
    using caw by (simp_all add: bump_def)
  have S: "sending False (c_fd c) c1 e1" "close_after_write c1 = (\<not> reply_keeps h ?r)"
      "owed c1 e1 (c_fd c) \<le> owed c e (c_fd c) + length (reply_text h ?r)"
    using S [unfolded f owed_def, OF op g] by (simp_all add: owed_def)
  have "conn_ok c' e'" using answerRequest_step [OF ok, of "\<lambda>_ r _. h r"] r conn_step_ok by metis
  moreover have "outbuf c' = outbuf c1" "is_closed c' = is_closed c1" "close_after_write c' = close_after_write c1"
      "c_fd c' = c_fd c1" "writing c' = writing c1" "sys e' = sys e1"
    by (simp_all add: eq bump_def)
  ultimately show ?thesis using S by (auto simp: sending_def owed_def split: if_splits)
qed

text \<open>One answer, for any handler: the handler is asked once, in the environment with the request counted.\<close>

definition counted :: "'task env \<Rightarrow> 'task env" where
  "counted e = bump (requests_update (\<lambda>n. n + 1)) e"

lemma answer_once:
  "answerRequest handler c e = answerRequest (\<lambda>_ r _. (\<lambda>r. handler (counted e) r HttpResponse_new) r) c e"
  by (simp add: answerRequest_def Let_def counted_def)

lemma close_requests: "requests (counters (snd (conn_close c e))) = requests (counters e)"
  by (simp add: conn_close_def Let_def bump_def fd_close_def on_poller_def on_timers_def)

lemma enableWriting_counters: "counters (snd (enableWriting on c e)) = counters e"
  by (simp add: enableWriting_def on_poller_def Let_def)

lemma writeSome_requests:
  "writeSome c e = Inl r \<or> writeSome c e = Inr r \<Longrightarrow> requests (counters (snd r)) = requests (counters e)"
  by (auto simp: writeSome_def env_write_def handleError_def close_requests bump_def split: if_splits sum.splits prod.splits)

lemma handleWrite_requests: "requests (counters (snd (handleWrite c e))) = requests (counters e)"
  using writeSome_requests [of c e]
  by (auto simp: handleWrite_def Let_def case_prod_beta close_requests enableWriting_counters split: sum.split)

lemma answer_requests: "requests (counters (snd (answerRequest h c e))) = requests (counters e) + 1"
  by (simp add: answerRequest_def Let_def case_prod_beta conn_send_def handleWrite_requests bump_def)

text \<open>
  \<open>handleRequest\<close> on an idle connection: all the responses that the input calls for are sent or waiting, and the
  connection has closed, or is about to, just when the input says so.
\<close>

lemma handleRequest_gentle:
  assumes "sending False (c_fd c) c e" "\<not> is_closed c" "\<not> close_after_write c" "handleRequest handler c e = (c', e')"
  shows "\<exists>outs. answers handler (requests (counters e)) (parser c) (contents (inbuf c)) outs (close_after_write c') \<and>
    sending False (c_fd c) c' e' \<and> stream (c_fd c) c' e' = stream (c_fd c) c e @ concat outs \<and>
    owed c' e' (c_fd c) \<le> owed c e (c_fd c) + length (concat outs)"
  using assms
proof (induction handler c e arbitrary: c' e' rule: handleRequest.induct)
  case (1 handler c e)
  have ok: "conn_ok c e" and g: "list_all (gentle False) (txs (sys e) (c_fd c))" using "1.prems" by (auto simp: sending_def)
  obtain r p b where p: "parse (parser c) (inbuf c) = (r, p, b)" by (metis prod_cases3)
  let ?c = "c\<lparr>parser := p, inbuf := b\<rparr>" and ?h = "\<lambda>r. handler (counted e) r HttpResponse_new"
  have b: "buf_inv b" "aparse (parser c) (contents (inbuf c)) = (r, p, contents b)"
    using parse_refines [OF _ p] ok by (auto simp: conn_ok_def)
  have ok1: "conn_ok ?c e" by (rule conn_step_ok [OF parse_step [OF ok p]])
  show ?case
  proof (cases r)
    case INCOMPLETE
    with p b "1.prems"(4) have "c' = ?c" "e' = e" by (auto simp: handleRequest.simps)
    with "1.prems" ok1 answers.incomplete [OF b(2) [unfolded INCOMPLETE]] show ?thesis
      by (intro exI [of _ "[]"]) (simp add: sending_def owed_def stream_def)
  next
    case ERROR
    have "rejectRequest ?c e = (c', e')" using ERROR p "1.prems"(4) by (simp add: handleRequest.simps [of _ c e])
    from reject_gentle [OF ok1 _ _ this] "1.prems"(2) g answers.reject [OF b(2) [unfolded ERROR]] show ?thesis
      by (intro exI [of _ "[bad_request]"]) (simp add: owed_def stream_def)
  next
    case OK
    obtain c2 e2 where a: "answerRequest handler ?c e = (c2, e2)" by fastforce
    note step = handleRequest_answered [OF ok p [unfolded OK] a] and a' = a [unfolded answer_once [of handler]]
    have G: "sending False (c_fd c) c2 e2" "close_after_write c2 = (\<not> reply_keeps ?h (request p))"
        "owed c2 e2 (c_fd c) \<le> owed c e (c_fd c) + length (reply_text ?h (request p))"
      using answer_gentle [OF ok1 _ _ _ a'] "1.prems"(2,3) g by (simp_all add: owed_def)
    have f: "stream (c_fd c) c2 e2 = stream (c_fd c) c e @ reply_text ?h (request p)" "keep_alive c2 = reply_keeps ?h (request p)"
      using answer_facts [OF ok1 a'] "1.prems"(2) by (simp_all add: stream_def)
    have n: "requests (counters (counted e)) = requests (counters e) + 1" "requests (counters e2) = requests (counters e) + 1"
      using answer_requests [of handler ?c e] a by (simp_all add: counted_def bump_def)
    show ?thesis
    proof (cases "reply_keeps ?h (request p) \<and> contents b \<noteq> []")
      case False
      with step(4) f(2) "1.prems"(4) have "c' = c2" "e' = e2" by auto
      with answers.last [where handler = handler and e = "counted e", OF b(2) [unfolded OK] n(1) False] G f show ?thesis
        by (intro exI [of _ "[reply_text ?h (request p)]"]) simp
    next
      case True
      then have op: "\<not> is_closed c2" using G(1,2) by (auto simp: sending_def)
      then have fd: "c_fd c2 = c_fd c" using G(1) by (simp add: sending_def)
      have rec: "handleRequest handler c2 e2 = (c', e')" using step(4) True f(2) "1.prems"(4) by simp
      have "\<exists>outs. answers handler (requests (counters e2)) (parser c2) (contents (inbuf c2)) outs (close_after_write c') \<and>
          sending False (c_fd c2) c' e' \<and> stream (c_fd c2) c' e' = stream (c_fd c2) c2 e2 @ concat outs \<and>
          owed c' e' (c_fd c2) \<le> owed c2 e2 (c_fd c2) + length (concat outs)"
        by (rule "1.IH" [OF p [symmetric] refl refl OK a [symmetric] _ _ _ op _ rec])
          (use True G f fd op step(2) readableBytes_contents [OF b(1)] in auto)
      then obtain outs where o: "answers handler (requests (counters e) + 1) HttpParser_new (contents b) outs (close_after_write c')"
          "sending False (c_fd c) c' e'" "stream (c_fd c) c' e' = stream (c_fd c) c2 e2 @ concat outs"
          "owed c' e' (c_fd c) \<le> owed c2 e2 (c_fd c) + length (concat outs)"
        using n(2) step(2,3) fd by auto
      from answers.more [where handler = handler and e = "counted e", OF b(2) [unfolded OK] n(1) conjunct1 [OF True] conjunct2 [OF True] o(1)] o(2-4) f(1) G(3) show ?thesis
        by (intro exI [of _ "reply_text ?h (request p) # outs"]) simp
    qed
  qed
qed

text \<open>The same from the socket: one read event takes everything in and answers it.\<close>

lemma handleRead_gentle:
  assumes "sending False (c_fd c) c e" "\<not> is_closed c" "\<not> close_after_write c" "rxs (sys e) (c_fd c) = map Rx segs"
    and "handleRead handler c e = (c', e')"
  shows "\<exists>outs. answers handler (requests (counters e)) (parser c) (contents (inbuf c) @ concat segs) outs (close_after_write c') \<and>
    sending False (c_fd c) c' e' \<and> stream (c_fd c) c' e' = stream (c_fd c) c e @ concat outs \<and>
    owed c' e' (c_fd c) \<le> owed c e (c_fd c) + length (concat outs)"
proof -
  have ok: "conn_ok c e" using assms(1) by (simp add: sending_def)
  obtain b t e2 where r: "\<And>handler. handleRead handler c e = handleRequest handler (c\<lparr>inbuf := b, last_activity := t\<rparr>) e2"
      "conn_ok (c\<lparr>inbuf := b, last_activity := t\<rparr>) e2" "contents b = contents (inbuf c) @ concat segs"
      "wire (sys e2) = wire (sys e)" "txs (sys e2) = txs (sys e)" "requests (counters e2) = requests (counters e)"
    by (rule handleRead_input [OF ok assms(2,4)]) blast
  let ?c = "c\<lparr>inbuf := b, last_activity := t\<rparr>"
  have h: "handleRequest handler ?c e2 = (c', e')" using assms(5) r(1) by simp
  have "sending False (c_fd ?c) ?c e2" using assms(1,2) r(2,4,5) by (simp add: sending_def)
  from handleRequest_gentle [OF this _ _ h] assms(2,3) r(3-6) show ?thesis by (simp add: stream_def owed_def)
qed

section \<open>From one read event to the last byte\<close>

lemma answered_in_full:
  assumes inv: "loop_inv (objs, e)" and i: "obj objs i = Some c"
    and fd: "c_fd c \<noteq> wakeup_fd (loop e)" "c_fd c \<noteq> acceptor_fd (loop e)"
    and idle: "\<not> close_after_write c" "contents (outbuf c) = []" "\<not> writing c"
    and sock: "rxs (sys e) (c_fd c) = map Rx segs" "list_all (gentle False) (txs (sys e) (c_fd c))"
  shows "\<exists>outs cl. answers handler (requests (counters e)) (parser c) (contents (inbuf c) @ concat segs) outs cl \<and>
    (\<forall>k \<ge> length (concat outs) + stalls (txs (sys e) (c_fd c)).
      \<exists>s'. out_events handler acceptor k (c_fd c) (dispatch handler acceptor (c_fd c, EPOLLIN) (x, (objs, e))) = (x, s') \<and>
        wire (sys (snd s')) (c_fd c) = wire (sys e) (c_fd c) @ concat outs \<and> settled cl (c_fd c) i s')"
proof -
  note D = loop_invD [OF inv i]
  have S: "sending False (c_fd c) c e" using D idle sock(2) by (simp add: sending_def)
  obtain c' e' where r: "handleRead handler c e = (c', e')" by fastforce
  have bits: "EPOLLIN AND (EPOLLHUP OR EPOLLERR) = 0" "EPOLLIN AND (EPOLLIN OR EPOLLRDHUP) \<noteq> 0" "EPOLLIN AND EPOLLOUT = 0"
    by code_simp+
  have ce: "connEvent handler EPOLLIN c e = (c', e')" using r bits by (simp add: connEvent_def)
  note ev = dispatch_conn [OF inv i fd ce]
  obtain outs where G: "answers handler (requests (counters e)) (parser c) (contents (inbuf c) @ concat segs) outs (close_after_write c')"
      "sending False (c_fd c) c' e'" "wire (sys e') (c_fd c) @ contents (outbuf c') = wire (sys e) (c_fd c) @ concat outs"
      "owed c' e' (c_fd c) \<le> length (concat outs) + stalls (txs (sys e) (c_fd c))"
    using handleRead_gentle [OF S D(4) idle(1) sock(1) r] idle(2) by (auto simp: stream_def owed_def)
  have il: "i < length objs" using obj_SomeD [OF i] by blast
  have fds: "c_fd c \<noteq> wakeup_fd (loop e')" "c_fd c \<noteq> acceptor_fd (loop e')"
    using ev(3) fd by (simp_all add: loop_same_def)
  have "\<exists>s'. out_events handler acceptor k (c_fd c) (dispatch handler acceptor (c_fd c, EPOLLIN) (x, (objs, e))) = (x, s') \<and>
      wire (sys (snd s')) (c_fd c) = wire (sys e) (c_fd c) @ concat outs \<and> settled (close_after_write c') (c_fd c) i s'"
    if "length (concat outs) + stalls (txs (sys e) (c_fd c)) \<le> k" for k
  proof (cases "is_closed c'")
    case True
    then have gone: "connections (loop e') (c_fd c) = None" "contents (outbuf c') = []" "close_after_write c'"
      using ev(4) D(4) G(2) by (auto simp: conn_step_def sending_def)
    with asks_out_gone [OF ev(2) D(6) fds] have "\<not> asks_out (c_fd c) e'" by simp
    with True gone ev(1) [of acceptor x] ev(2) G(3) il show ?thesis
      by (simp add: out_events_quiet settled_def)
  next
    case False
    then have fd': "c_fd c' = c_fd c" using ev(4) by (simp add: conn_step_def)
    have "sending True (c_fd c) c' e'" using G(2) by (auto simp: sending_def list_all_iff gentle_mono split: if_splits)
    with out_events_flush [of "objs[i := Some c']" e' i c' k handler acceptor x] False ev(1) [of acceptor x] ev(2) fds fd' G(3,4) that il
    show ?thesis by auto
  qed
  with G(1) show ?thesis by blast
qed

lemma sample_loop: "loop_inv (replicate 7 None @ [Some sample_conn], sample_env rx tx)"
proof -
  have "obj (replicate 7 None @ [Some sample_conn]) i = (if i = 7 then Some sample_conn else None)" for i
    by (auto simp: obj_def nth_append)
  moreover have "oid sample_conn = 7" "shared sample_conn" by (simp_all add: sample_conn_def)
  moreover have "connections (loop (sample_env rx tx)) = [5 \<mapsto> 7]" "interest (poller (loop (sample_env rx tx))) = [5 \<mapsto> kConnBaseEvents]"
    by (simp_all add: sample_env_def)
  moreover have "loop_ok (sample_env rx tx)" using sample_ok [of rx tx] by (simp add: conn_ok_def)
  ultimately show ?thesis using sample_ok [of rx tx] by (simp add: loop_inv_def)
qed

lemma sample_fds: "c_fd sample_conn \<noteq> wakeup_fd (loop (sample_env rx tx))" "c_fd sample_conn \<noteq> acceptor_fd (loop (sample_env rx tx))"
  by (simp_all add: sample_env_def)

end
