(* ===== verification/Test_Http.thy ===== *)
theory Test_Http
  imports Http_Parser_Props
begin

text \<open>
  The program's own unit tests of buffer, parser and response (\<open>tests/test_buffer.cpp\<close>,
  \<open>tests/test_http_parser.cpp\<close>) as definitions: each test case does to the model what its source does to the
  classes, and is true when all its expectations hold. The lemmas show that the model passes them.
\<close>

section \<open>Buffer\<close>

definition capacityOf :: "Buffer \<Rightarrow> nat" where
  "capacityOf b = prependableBytes b + readableBytes b + writableBytes b"

definition Buffer_AppendAndRetrieve :: bool where
  "Buffer_AppendAndRetrieve \<longleftrightarrow>
     (let b = append_bytes (Buffer_new 16) ''hello'';
          b1 = retrieve b 2
      in readableBytes b = 5 \<and> peek_n b 5 = ''hello'' \<and> readableBytes b1 = 3 \<and> peek_n b1 3 = ''llo'')"

definition Buffer_RetrieveBeyondReadableClears :: bool where
  "Buffer_RetrieveBeyondReadableClears \<longleftrightarrow>
     (let b = append_bytes (Buffer_new kInitialSize) ''abc'';
          b = retrieve b 100
      in readableBytes b = 0 \<and> writableBytes b = capacityOf b)"

definition Buffer_GrowsWithoutLosingData :: bool where
  "Buffer_GrowsWithoutLosingData \<longleftrightarrow>
     (let big = replicate 5000 CHR ''x'';
          b = append_bytes (Buffer_new 8) big
      in readableBytes b = length big \<and> peek_n b (length big) = big)"

definition Buffer_ReclaimsPrependSpaceWithoutGrowing :: bool where
  "Buffer_ReclaimsPrependSpaceWithoutGrowing \<longleftrightarrow>
     (let b = Buffer_new 64;
          initial_capacity = capacityOf b;
          b1 = append_bytes b (replicate 40 CHR ''a'');
          b2 = retrieve b1 40;
          b3 = append_bytes b2 (replicate 40 CHR ''b'')
      in initial_capacity = 64 \<and> readableBytes b3 = 40 \<and> capacityOf b3 = initial_capacity \<and> peek_n b3 4 = ''bbbb'')"

definition Buffer_FindCRLF :: bool where
  "Buffer_FindCRLF \<longleftrightarrow>
     (let raw = ''GET / HTTP/1.1'' @ CRLF @ ''Host: x'' @ CRLF;
          b = append_bytes (Buffer_new kInitialSize) raw
      in case search CRLF raw of
           None \<Rightarrow> False
         | Some first \<Rightarrow>
             let second = map_option (\<lambda>i. first + 2 + i) (search CRLF (drop (first + 2) raw))
             in findCRLF b 0 = Some first \<and> findCRLF b (first + 2) = second \<and>
                findCRLF b (readableBytes b) = None \<and> findCRLF b (readableBytes b + 10) = None)"

definition Buffer_RetrieveAsStringConsumes :: bool where
  "Buffer_RetrieveAsStringConsumes \<longleftrightarrow>
     (let b = append_bytes (Buffer_new kInitialSize) ''abcdef'' in
      case retrieveAsString b 3 of (s1, b1) \<Rightarrow>
      case retrieveAllAsString b1 of (s2, b2) \<Rightarrow>
        s1 = ''abc'' \<and> readableBytes b1 = 3 \<and> s2 = ''def'' \<and> readableBytes b2 = 0)"

lemma buffer_tests_pass:
  "Buffer_AppendAndRetrieve" "Buffer_RetrieveBeyondReadableClears" "Buffer_GrowsWithoutLosingData"
  "Buffer_ReclaimsPrependSpaceWithoutGrowing" "Buffer_FindCRLF" "Buffer_RetrieveAsStringConsumes"
proof -
  show Buffer_AppendAndRetrieve by code_simp
  show Buffer_RetrieveBeyondReadableClears
  proof -
    have "readableBytes (append_bytes (Buffer_new kInitialSize) ''abc'') \<le> 100" by (simp add: readableBytes_contents buf_simps)
    then show ?thesis
      by (simp add: Buffer_RetrieveBeyondReadableClears_def retrieve_def)
        (simp add: retrieveAll_def readableBytes_def writableBytes_def capacityOf_def prependableBytes_def)
  qed
  show Buffer_GrowsWithoutLosingData
    by (simp add: Buffer_GrowsWithoutLosingData_def Let_def readableBytes_contents peek_n_contents buf_simps)
  show Buffer_ReclaimsPrependSpaceWithoutGrowing by code_simp
  show Buffer_FindCRLF
  proof -
    have "search CRLF (''GET / HTTP/1.1'' @ CRLF @ ''Host: x'' @ CRLF) = Some 14" by code_simp
    then show ?thesis
      by (simp add: Buffer_FindCRLF_def Let_def readableBytes_contents buf_simps)
  qed
  show Buffer_RetrieveAsStringConsumes
    by (simp add: Buffer_RetrieveAsStringConsumes_def Let_def retrieveAllAsString_def readableBytes_contents buf_simps)
qed

section \<open>Parser\<close>

text \<open>The helper \<open>feed\<close> of the tests: one piece of data, one call of the parser.\<close>

definition feed_piece :: "HttpParser \<Rightarrow> Buffer \<Rightarrow> bytes \<Rightarrow> Ret \<times> HttpParser \<times> Buffer" where
  "feed_piece p b data = parse p (append_bytes b data)"

abbreviation new_buffer :: Buffer where "new_buffer \<equiv> Buffer_new kInitialSize"

definition HttpParser_SimpleGet :: bool where
  "HttpParser_SimpleGet \<longleftrightarrow>
     (let raw = ''GET /index.html HTTP/1.1'' @ CRLF @ ''Host: example.com'' @ CRLF @ ''User-Agent: wrk'' @ CRLF @ CRLF in
      case feed_piece HttpParser_new new_buffer raw of (r, p, b) \<Rightarrow>
        r = OK \<and> req_method (request p) = ''GET'' \<and> req_path (request p) = ''/index.html'' \<and> req_version (request p) = ''HTTP/1.1'' \<and>
        getHeader (request p) ''host'' = ''example.com'' \<and> getHeader (request p) ''user-agent'' = ''wrk'' \<and> req_body (request p) = [])"

text \<open>The loop over all bytes but the last, then the last one.\<close>

fun feed_bytes :: "HttpParser \<Rightarrow> Buffer \<Rightarrow> bytes \<Rightarrow> (HttpParser \<times> Buffer) option" where
  "feed_bytes p b [] = Some (p, b)"
| "feed_bytes p b (x # xs) =
     (case feed_piece p b [x] of (r, p, b) \<Rightarrow> if r = INCOMPLETE then feed_bytes p b xs else None)"

definition HttpParser_ByteByByteDeliveryResumesFromState :: bool where
  "HttpParser_ByteByByteDeliveryResumesFromState \<longleftrightarrow>
     (let raw = ''GET /a HTTP/1.1'' @ CRLF @ ''Host: h'' @ CRLF @ CRLF in
      case feed_bytes HttpParser_new new_buffer (butlast raw) of
        None \<Rightarrow> False
      | Some (p, b) \<Rightarrow> (case feed_piece p b [last raw] of (r, p, b) \<Rightarrow> r = OK \<and> req_path (request p) = ''/a''))"

definition HttpParser_PartialHeaders :: bool where
  "HttpParser_PartialHeaders \<longleftrightarrow>
     (case feed_piece HttpParser_new new_buffer (''GET /x HTTP/1.1'' @ CRLF @ ''Host: abc'') of (r, p, b) \<Rightarrow>
        r = INCOMPLETE \<and>
        (case feed_piece p b (CRLF @ CRLF) of (r, p, b) \<Rightarrow> r = OK \<and> getHeader (request p) ''host'' = ''abc''))"

definition HttpParser_MissingBlankLineTerminator :: bool where
  "HttpParser_MissingBlankLineTerminator \<longleftrightarrow>
     (case feed_piece HttpParser_new new_buffer (''GET /x HTTP/1.1'' @ CRLF @ ''Host: abc'' @ CRLF) of (r, p, b) \<Rightarrow>
        r = INCOMPLETE \<and>
        (case feed_piece p b CRLF of (r, p, b) \<Rightarrow> r = OK \<and> getHeader (request p) ''host'' = ''abc''))"

definition HttpParser_PostWithContentLength :: bool where
  "HttpParser_PostWithContentLength \<longleftrightarrow>
     (let raw = ''POST /echo HTTP/1.1'' @ CRLF @ ''Host: h'' @ CRLF @ ''Content-Length: 11'' @ CRLF @ CRLF @ ''hello world'' in
      case feed_piece HttpParser_new new_buffer raw of (r, p, b) \<Rightarrow>
        r = OK \<and> req_method (request p) = ''POST'' \<and> req_body (request p) = ''hello world'')"

definition HttpParser_BodyArrivesInPieces :: bool where
  "HttpParser_BodyArrivesInPieces \<longleftrightarrow>
     (case feed_piece HttpParser_new new_buffer (''POST /echo HTTP/1.1'' @ CRLF @ ''Content-Length: 11'' @ CRLF @ CRLF @ ''hell'') of
        (r, p, b) \<Rightarrow> r = INCOMPLETE \<and>
          (case feed_piece p b ''o wor'' of (r, p, b) \<Rightarrow> r = INCOMPLETE \<and>
            (case feed_piece p b ''ld'' of (r, p, b) \<Rightarrow> r = OK \<and> req_body (request p) = ''hello world'')))"

definition HttpParser_QueryStringIsSplitOff :: bool where
  "HttpParser_QueryStringIsSplitOff \<longleftrightarrow>
     (case feed_piece HttpParser_new new_buffer (''GET /search?q=c%2B%2B&page=2 HTTP/1.1'' @ CRLF @ CRLF) of (r, p, b) \<Rightarrow>
        r = OK \<and> req_path (request p) = ''/search'' \<and> req_query (request p) = ''q=c%2B%2B&page=2'')"

definition HttpParser_HeaderKeysLowercasedAndValuesTrimmed :: bool where
  "HttpParser_HeaderKeysLowercasedAndValuesTrimmed \<longleftrightarrow>
     (let raw = ''GET / HTTP/1.1'' @ CRLF @ ''Content-TYPE:   text/plain   '' @ CRLF @ ''X-Thing:'' @ [CHR 0x09] @ ''v'' @ CRLF @ CRLF in
      case feed_piece HttpParser_new new_buffer raw of (r, p, b) \<Rightarrow>
        r = OK \<and> hasHeader (request p) ''content-type'' \<and> getHeader (request p) ''content-type'' = ''text/plain'' \<and>
        getHeader (request p) ''x-thing'' = ''v'')"

text \<open>The five blocks of the test differ in the request and in the answer.\<close>

definition keepAlive_block :: "bytes \<Rightarrow> bool \<Rightarrow> bool" where
  "keepAlive_block raw expected =
     (case feed_piece HttpParser_new new_buffer raw of (r, p, b) \<Rightarrow> r = OK \<and> keepAlive (request p) = expected)"

definition HttpParser_KeepAliveSemantics :: bool where
  "HttpParser_KeepAliveSemantics \<longleftrightarrow>
     keepAlive_block (''GET / HTTP/1.1'' @ CRLF @ CRLF) True \<and>
     keepAlive_block (''GET / HTTP/1.1'' @ CRLF @ ''Connection: close'' @ CRLF @ CRLF) False \<and>
     keepAlive_block (''GET / HTTP/1.1'' @ CRLF @ ''Connection: Keep-Alive'' @ CRLF @ CRLF) True \<and>
     keepAlive_block (''GET / HTTP/1.0'' @ CRLF @ CRLF) False \<and>
     keepAlive_block (''GET / HTTP/1.0'' @ CRLF @ ''Connection: keep-alive'' @ CRLF @ CRLF) True"

definition HttpParser_PipelinedRequestsWithReset :: bool where
  "HttpParser_PipelinedRequestsWithReset \<longleftrightarrow>
     (case feed_piece HttpParser_new new_buffer (''GET /one HTTP/1.1'' @ CRLF @ CRLF) of (r, p, b) \<Rightarrow>
        r = OK \<and> req_path (request p) = ''/one'' \<and> readableBytes b = 0 \<and>
        (case feed_piece (parser_reset p) b (''GET /two HTTP/1.1'' @ CRLF @ CRLF) of (r, p, b) \<Rightarrow>
           r = OK \<and> req_path (request p) = ''/two''))"

definition HttpParser_TwoRequestsInOneBufferConsumeOnlyFirst :: bool where
  "HttpParser_TwoRequestsInOneBufferConsumeOnlyFirst \<longleftrightarrow>
     (let both = ''GET /one HTTP/1.1'' @ CRLF @ CRLF @ ''GET /two HTTP/1.1'' @ CRLF @ CRLF in
      case feed_piece HttpParser_new new_buffer both of (r, p, b) \<Rightarrow>
        r = OK \<and> req_path (request p) = ''/one'' \<and>
        (case parse (parser_reset p) b of (r, p, b) \<Rightarrow> r = OK \<and> req_path (request p) = ''/two'' \<and> readableBytes b = 0))"

text \<open>The tests of rejected input have blocks of the same form.\<close>

definition error_block :: "bytes \<Rightarrow> bool" where
  "error_block raw = (case feed_piece HttpParser_new new_buffer raw of (r, p, b) \<Rightarrow> r = ERROR)"

definition HttpParser_MalformedRequestLineIsError :: bool where
  "HttpParser_MalformedRequestLineIsError \<longleftrightarrow>
     error_block (''GARBAGE'' @ CRLF @ CRLF) \<and> error_block (''GET /only-two-parts'' @ CRLF @ CRLF) \<and>
     error_block (''GET / HTTP/9.9'' @ CRLF @ CRLF)"

definition HttpParser_OversizedRequestLineIsError :: bool where
  "HttpParser_OversizedRequestLineIsError \<longleftrightarrow> error_block (''GET /'' @ replicate (kMaxRequestLine + 64) CHR ''a'')"

definition HttpParser_MalformedHeaderIsError :: bool where
  "HttpParser_MalformedHeaderIsError \<longleftrightarrow> error_block (''GET / HTTP/1.1'' @ CRLF @ ''NoColonHere'' @ CRLF @ CRLF)"

definition HttpParser_NegativeContentLengthIsError :: bool where
  "HttpParser_NegativeContentLengthIsError \<longleftrightarrow> error_block (''POST / HTTP/1.1'' @ CRLF @ ''Content-Length: -5'' @ CRLF @ CRLF)"

definition HttpParser_ChunkedIsRejected :: bool where
  "HttpParser_ChunkedIsRejected \<longleftrightarrow> error_block (''POST / HTTP/1.1'' @ CRLF @ ''Transfer-Encoding: chunked'' @ CRLF @ CRLF)"

text \<open>
  The parser does not see the buffer but through its unread bytes, so that a test needs only be
  evaluated on these.
\<close>

lemma parse_then:
  assumes "buf_inv b" "contents b = x"
    and "\<And>b'. buf_inv b' \<Longrightarrow> contents b' = snd (snd (aparse p x)) \<Longrightarrow> Q (fst (aparse p x)) (fst (snd (aparse p x))) b'"
  shows "case parse p b of (r, p, b) \<Rightarrow> Q r p b"
proof -
  obtain r p' b' where run: "parse p b = (r, p', b')" by (cases "parse p b")
  with parse_refines [OF assms(1) run] assms(2,3) show ?thesis by auto
qed

lemma feed_step:
  assumes "buf_inv b" "contents b = x"
    and "\<And>b'. buf_inv b' \<Longrightarrow> contents b' = snd (snd (aparse p (x @ d))) \<Longrightarrow>
      Q (fst (aparse p (x @ d))) (fst (snd (aparse p (x @ d)))) b'"
  shows "case feed_piece p b d of (r, p, b) \<Rightarrow> Q r p b"
  unfolding feed_piece_def by (rule parse_then) (use assms in \<open>simp_all add: buf_simps\<close>)

lemmas feed_new = feed_step [OF buf_inv_new contents_new, simplified append_Nil]

lemma feed_new_abs:
  "feed_piece HttpParser_new new_buffer d = (r, p, b) \<Longrightarrow> aparse HttpParser_new d = (r, p, contents b)"
  using parse_refines [of "append_bytes new_buffer d" HttpParser_new r p b] by (simp add: feed_piece_def buf_simps)

lemma error_block_iff: "error_block d \<longleftrightarrow> fst (aparse HttpParser_new d) = ERROR"
  by (cases "feed_piece HttpParser_new new_buffer d") (simp add: error_block_def feed_new_abs)

lemma keepAlive_block_iff:
  "keepAlive_block d e \<longleftrightarrow> (case aparse HttpParser_new d of (r, p, x) \<Rightarrow> r = OK \<and> keepAlive (request p) = e)"
  by (cases "feed_piece HttpParser_new new_buffer d") (simp add: keepAlive_block_def feed_new_abs)

text \<open>The byte by byte test on the unread bytes.\<close>

fun afeed_bytes :: "HttpParser \<Rightarrow> bytes \<Rightarrow> bytes \<Rightarrow> (HttpParser \<times> bytes) option" where
  "afeed_bytes p x [] = Some (p, x)"
| "afeed_bytes p x (d # ds) =
     (case aparse p (x @ [d]) of (r, p, x) \<Rightarrow> if r = INCOMPLETE then afeed_bytes p x ds else None)"

lemma feed_bytes_abs:
  "buf_inv b \<Longrightarrow> afeed_bytes p (contents b) ds = Some (p', x) \<Longrightarrow> \<exists>b'. feed_bytes p b ds = Some (p', b') \<and> buf_inv b' \<and> contents b' = x"
proof (induction ds arbitrary: p b)
  case (Cons d ds)
  obtain r p1 b1 where run: "parse p (append_bytes b [d]) = (r, p1, b1)" by (cases "parse p (append_bytes b [d])")
  with parse_refines [OF _ run] Cons.prems have ref: "buf_inv b1" "aparse p (contents b @ [d]) = (r, p1, contents b1)"
    by (simp_all add: buf_simps)
  with Cons.IH [OF ref(1)] Cons.prems(2) run show ?case by (auto simp: feed_piece_def split: if_splits)
qed auto

section \<open>The tests pass\<close>

lemma request_tests_pass:
  "HttpParser_SimpleGet" "HttpParser_PostWithContentLength" "HttpParser_QueryStringIsSplitOff"
  "HttpParser_HeaderKeysLowercasedAndValuesTrimmed"
  unfolding HttpParser_SimpleGet_def HttpParser_PostWithContentLength_def HttpParser_QueryStringIsSplitOff_def
    HttpParser_HeaderKeysLowercasedAndValuesTrimmed_def Let_def
  by (rule feed_new, code_simp)+

lemma byte_by_byte_passes: "HttpParser_ByteByByteDeliveryResumesFromState"
proof -
  let ?raw = "''GET /a HTTP/1.1'' @ CRLF @ ''Host: h'' @ CRLF @ CRLF"
  have "case afeed_bytes HttpParser_new [] (butlast ?raw) of
      None \<Rightarrow> False
    | Some (p, x) \<Rightarrow> fst (aparse p (x @ [last ?raw])) = OK \<and> req_path (request (fst (snd (aparse p (x @ [last ?raw]))))) = ''/a''"
    by code_simp
  then obtain p x where a: "afeed_bytes HttpParser_new [] (butlast ?raw) = Some (p, x)"
      "fst (aparse p (x @ [last ?raw])) = OK" "req_path (request (fst (snd (aparse p (x @ [last ?raw]))))) = ''/a''"
    by (simp only: split: option.splits prod.splits)
  obtain b where b: "feed_bytes HttpParser_new new_buffer (butlast ?raw) = Some (p, b)" "buf_inv b" "contents b = x"
    using feed_bytes_abs [OF buf_inv_new, unfolded contents_new, OF a(1)] by blast
  have "case feed_piece p b [last ?raw] of (r, p, b) \<Rightarrow> r = OK \<and> req_path (request p) = ''/a''"
    by (rule feed_step [OF b(2,3)]) (use a(2,3) in simp)
  then show ?thesis unfolding HttpParser_ByteByByteDeliveryResumesFromState_def Let_def b(1) option.case prod.case .
qed

lemma pieces_tests_pass:
  "HttpParser_PartialHeaders" "HttpParser_MissingBlankLineTerminator" "HttpParser_BodyArrivesInPieces"
proof -
  show HttpParser_PartialHeaders HttpParser_MissingBlankLineTerminator
    unfolding HttpParser_PartialHeaders_def HttpParser_MissingBlankLineTerminator_def
    by (rule feed_new, rule conjI, code_simp, rule feed_step, assumption, assumption, code_simp)+
  show HttpParser_BodyArrivesInPieces
    unfolding HttpParser_BodyArrivesInPieces_def
    by (rule feed_new, rule conjI, code_simp, rule feed_step, assumption, assumption, rule conjI, code_simp,
        rule feed_step, assumption, assumption, code_simp)
qed

lemma keepAlive_tests_pass: "HttpParser_KeepAliveSemantics"
  unfolding HttpParser_KeepAliveSemantics_def keepAlive_block_iff by code_simp

lemma pipelining_tests_pass: "HttpParser_PipelinedRequestsWithReset" "HttpParser_TwoRequestsInOneBufferConsumeOnlyFirst"
proof -
  let ?one = "''GET /one HTTP/1.1'' @ CRLF @ CRLF" and ?two = "''GET /two HTTP/1.1'' @ CRLF @ CRLF"
  have "snd (snd (aparse HttpParser_new ?one)) = []" by code_simp
  then have empty: "readableBytes b = 0" if "buf_inv b" "contents b = snd (snd (aparse HttpParser_new ?one))" for b
    using that by (simp add: readableBytes_contents)
  show HttpParser_PipelinedRequestsWithReset
    unfolding HttpParser_PipelinedRequestsWithReset_def
    by (rule feed_new, intro conjI, code_simp, code_simp, erule empty, assumption, rule feed_step, assumption, assumption, code_simp)
  let ?p1 = "fst (snd (aparse HttpParser_new (''GET /one HTTP/1.1'' @ CRLF @ CRLF @ ?two)))"
    and ?rest = "snd (snd (aparse HttpParser_new (''GET /one HTTP/1.1'' @ CRLF @ CRLF @ ?two)))"
  have "snd (snd (aparse (parser_reset ?p1) ?rest)) = []" by code_simp
  then have empty: "readableBytes b = 0" if "buf_inv b" "contents b = snd (snd (aparse (parser_reset ?p1) ?rest))" for b
    using that by (simp add: readableBytes_contents)
  show HttpParser_TwoRequestsInOneBufferConsumeOnlyFirst
    unfolding HttpParser_TwoRequestsInOneBufferConsumeOnlyFirst_def Let_def
    by (rule feed_new, intro conjI, code_simp, code_simp, rule parse_then, assumption, assumption, intro conjI, code_simp, code_simp,
        erule empty, assumption)
qed

lemma error_tests_pass:
  "HttpParser_MalformedRequestLineIsError" "HttpParser_OversizedRequestLineIsError" "HttpParser_MalformedHeaderIsError"
  "HttpParser_NegativeContentLengthIsError" "HttpParser_ChunkedIsRejected"
proof -
  show HttpParser_OversizedRequestLineIsError
  proof -
    let ?huge = "''GET /'' @ replicate (kMaxRequestLine + 64) CHR ''a''"
    have "search CRLF ?huge = None" by (rule search_CRLF_no_CR) simp
    then show ?thesis
      by (simp add: HttpParser_OversizedRequestLineIsError_def error_block_iff aparse_def HttpParser_new_def arequest_line_def
          aline_def ashort_def del: search.simps)
  qed
qed (unfold HttpParser_MalformedRequestLineIsError_def HttpParser_MalformedHeaderIsError_def HttpParser_NegativeContentLengthIsError_def
    HttpParser_ChunkedIsRejected_def error_block_iff, code_simp+)

section \<open>Response\<close>

text \<open>\<open>std::string::rfind\<close> of a string.\<close>

definition str_rfind_str :: "string \<Rightarrow> string \<Rightarrow> nat option" where
  "str_rfind_str pat s =
     (case filter (\<lambda>i. prefix pat (drop i s)) [0..<length s + 1] of [] \<Rightarrow> None | is \<Rightarrow> Some (last is))"

definition HttpResponse_SerializesWithContentLength :: bool where
  "HttpResponse_SerializesWithContentLength \<longleftrightarrow>
     (let r = HttpResponse_make 200 ''hi'' ''text/plain'';
          out = toString r
      in search (''HTTP/1.1 200 OK'' @ CRLF) out \<noteq> None \<and> search (''Content-Length: 2'' @ CRLF) out \<noteq> None \<and>
         search (CRLF @ CRLF @ ''hi'') out \<noteq> None)"

definition HttpResponse_ExplicitContentLengthIsNotDuplicated :: bool where
  "HttpResponse_ExplicitContentLengthIsNotDuplicated \<longleftrightarrow>
     (let r = HttpResponse_make 200 [] text_plain;
          r = setHeader r ''Content-Length'' ''123'';
          out = toString r
      in search ''Content-Length: 123'' out = str_rfind_str ''Content-Length: 123'' out)"

lemma response_tests_pass: "HttpResponse_SerializesWithContentLength" "HttpResponse_ExplicitContentLengthIsNotDuplicated"
  by code_simp+

end
