(* ===== verification/Test_Core.thy ===== *)
theory Test_Core
  imports Timer Memory_Pool
begin

text \<open>
  The program's own unit tests of timers and memory pool (\<open>tests/test_timer.cpp\<close>, \<open>tests/test_memory_pool.cpp\<close>)
  as definitions, as in \<open>Test_Http\<close>. A timer test is a function of the clock, which may advance between any two
  readings, of how much longer than asked the thread sleeps, and of the order of equal deadlines; a pool test is a function of
  \<open>aligned_alloc\<close> and the memory, and fails with \<open>bad_alloc\<close> when these have no memory for it. The lemmas say
  when the model passes the tests: the pool's tests for every allocator that keeps its promise, those timer
  tests that measure time if the thread is not held up too long.
\<close>

section \<open>Timers\<close>

text \<open>\<open>sleep_for\<close> sleeps at least as long as asked.\<close>

definition sleep_for :: "int \<Rightarrow> nat \<Rightarrow> clock \<Rightarrow> clock" where
  "sleep_for ms late c = c\<lparr>clk_now := clk_now c + ms * ns_per_ms + int late\<rparr>"

text \<open>One call of \<open>expire\<close>; the callbacks of the tests note that they ran.\<close>

definition expire_now :: "'cb list \<Rightarrow> clock \<Rightarrow> 'cb TimerHeap \<Rightarrow> (nat \<times> 'cb list \<times> clock \<times> 'cb TimerHeap) option" where
  "expire_now fired c h =
     (case clk_read c of (t, c) \<Rightarrow>
        (case expire log_fire t fired h of None \<Rightarrow> None | Some (n, fired, h) \<Rightarrow> Some (n, fired, c, h)))"

definition TimerHeap_FiresInOrder :: "nat list \<Rightarrow> clock \<Rightarrow> nat \<Rightarrow> bool" where
  "TimerHeap_FiresInOrder ts c late =
     (case addAfter 30 (Some (3::nat)) c (TimerHeap_new ts) of (_, c, h) \<Rightarrow>
      case addAfter 10 (Some 1) c h of (_, c, h) \<Rightarrow>
      case addAfter 20 (Some 2) c h of (_, c, h) \<Rightarrow>
        timer_size h = 3 \<and>
        (case expire_now [] c h of
           None \<Rightarrow> False
         | Some (n, order, c, h) \<Rightarrow> n = 0 \<and>
             (case expire_now order (sleep_for 80 late c) h of
                None \<Rightarrow> False
              | Some (n, order, c, h) \<Rightarrow> n = 3 \<and> order = [1, 2, 3] \<and> timer_empty h)))"

definition TimerHeap_CancelPreventsFiring :: "nat list \<Rightarrow> clock \<Rightarrow> nat \<Rightarrow> bool" where
  "TimerHeap_CancelPreventsFiring ts c late =
     (case addAfter 10 (Some ()) c (TimerHeap_new ts) of (t, c, h) \<Rightarrow>
      case expire_now [] (sleep_for 40 late c) (cancel t h) of
        None \<Rightarrow> False
      | Some (n, fired, c, h) \<Rightarrow> n = 0 \<and> length fired = 0 \<and> timer_empty h)"

definition TimerHeap_CancelOneOfSeveral :: "nat list \<Rightarrow> clock \<Rightarrow> nat \<Rightarrow> bool" where
  "TimerHeap_CancelOneOfSeveral ts c late =
     (case addAfter 10 (Some CHR ''a'') c (TimerHeap_new ts) of (_, c, h) \<Rightarrow>
      case addAfter 10 (Some CHR ''b'') c h of (tb, c, h) \<Rightarrow>
      case expire_now [] (sleep_for 40 late c) (cancel tb h) of
        None \<Rightarrow> False
      | Some (n, fired, c, h) \<Rightarrow> n = 1 \<and> count_list fired CHR ''a'' = 1 \<and> count_list fired CHR ''b'' = 0)"

definition TimerHeap_CancelUnknownIdIsHarmless :: "nat list \<Rightarrow> clock \<Rightarrow> nat \<Rightarrow> bool" where
  "TimerHeap_CancelUnknownIdIsHarmless ts c late =
     (let h = cancel 999999 (cancel 0 (TimerHeap_new ts)) in
      case addAfter 5 (Some ()) c h of (_, c, h) \<Rightarrow>
      case expire_now [] (sleep_for 40 late c) h of
        None \<Rightarrow> False
      | Some (n, fired, c, h) \<Rightarrow> n = 1 \<and> length fired = 1)"

definition TimerHeap_NextTimeoutMs :: "nat list \<Rightarrow> clock \<Rightarrow> bool" where
  "TimerHeap_NextTimeoutMs ts c =
     (let h = TimerHeap_new ts in
      nextTimeoutMs (clk_now c) h = - 1 \<and>
      (case addAfter 50 (Some ()) c h of (_, c, h) \<Rightarrow>
       case clk_read c of (now, c) \<Rightarrow>
         let t = nextTimeoutMs now h in
         t > 30 \<and> t \<le> 50 \<and>
         (case addAfter 0 (Some ()) c h of (_, c, h) \<Rightarrow>
          case clk_read c of (now, c) \<Rightarrow> nextTimeoutMs now h = 0)))"

definition TimerHeap_ExpireRunsCallbackOnce :: "nat list \<Rightarrow> clock \<Rightarrow> nat \<Rightarrow> bool" where
  "TimerHeap_ExpireRunsCallbackOnce ts c late =
     (case addAfter 5 (Some ()) c (TimerHeap_new ts) of (_, c, h) \<Rightarrow>
      case expire_now [] (sleep_for 40 late c) h of
        None \<Rightarrow> False
      | Some (n, fired, c, h) \<Rightarrow> n = 1 \<and>
          (case expire_now fired c h of
             None \<Rightarrow> False
           | Some (n, fired, c, h) \<Rightarrow> n = 0 \<and> length fired = 1))"

text \<open>Evaluation of \<open>expire\<close> on a heap that is written out.\<close>

lemma expire_log_eval [simp]:
  "expire_loop log_fire t s \<lparr>heap = [], cancelled = C, next_id = i, ties = ks\<rparr> n = Some (n, s, \<lparr>heap = [], cancelled = C, next_id = i, ties = ks\<rparr>)"
  "expire_loop log_fire t s \<lparr>heap = e # q, cancelled = C, next_id = i, ties = ks\<rparr> n =
     (if t < e_when e then Some (n, s, \<lparr>heap = e # q, cancelled = C, next_id = i, ties = ks\<rparr>)
      else if e_id e \<in> C then expire_loop log_fire t s \<lparr>heap = q, cancelled = C - {e_id e}, next_id = i, ties = ks\<rparr> n
      else case e_cb e of
          None \<Rightarrow> expire_loop log_fire t s \<lparr>heap = q, cancelled = C, next_id = i, ties = ks\<rparr> (n + 1)
        | Some cb \<Rightarrow> expire_loop log_fire t (s @ [cb]) \<lparr>heap = q, cancelled = C, next_id = i, ties = ks\<rparr> (n + 1))"
  by (simp_all add: expire_stop heap_top_def expire_turn [of _ e q] log_fire_def split: option.split)

lemmas timer_test_defs = addAfter_def timer_add_def TimerHeap_new_def expire_now_def expire_def cancel_def timer_size_def timer_empty_def
  sleep_for_def clk_read_def Let_def

lemma timer_tests_pass:
  "TimerHeap_CancelPreventsFiring ts c late" "TimerHeap_CancelOneOfSeveral ts c late" "TimerHeap_CancelUnknownIdIsHarmless ts c late"
  "TimerHeap_ExpireRunsCallbackOnce ts c late"
  unfolding TimerHeap_CancelPreventsFiring_def TimerHeap_CancelOneOfSeveral_def TimerHeap_CancelUnknownIdIsHarmless_def
    TimerHeap_ExpireRunsCallbackOnce_def
  by (auto simp: timer_test_defs split: list.split nat.split)

text \<open>
  Two tests expect that hardly any time passes between their calls: less than 10 milliseconds, respectively
  20, or they may fail.
\<close>

lemma FiresInOrder_passes:
  assumes "clk_ticks c = d1 # d2 # d3 # ds" "d1 + d2 + d3 < 10000000"
  shows "TimerHeap_FiresInOrder ts c late"
proof -
  have "int d1 + int d2 + int d3 < 10000000" using assms(2) by linarith
  then show ?thesis
    unfolding TimerHeap_FiresInOrder_def using assms(1) by (auto simp: timer_test_defs split: list.split nat.split)
qed

lemma FiresInOrder_held_up: "\<not> TimerHeap_FiresInOrder ts \<lparr>clk_now = 0, clk_ticks = [0, 0, 10000000]\<rparr> late"
  by (simp add: TimerHeap_FiresInOrder_def timer_test_defs)

lemma timeout_due:
  assumes "timer_inv h" "e \<in> set (heap h)" "e_when e \<le> t"
  shows "nextTimeoutMs t h = 0"
proof -
  have "e_when (heap_top (heap h)) \<le> t" using assms timers.top_least [of "heap h" e] by (simp add: timer_inv_def)
  then have "duration_ms (e_when (heap_top (heap h)) - t) \<le> 0" by (auto simp: duration_ms_def pos_imp_zdiv_nonneg_iff)
  moreover have "heap h \<noteq> []" using assms(2) by auto
  ultimately show ?thesis by (simp add: nextTimeoutMs_def Let_def)
qed

lemma NextTimeoutMs_passes:
  assumes "clk_ticks c = d1 # ds" "d1 \<le> 19000000"
  shows "TimerHeap_NextTimeoutMs ts c"
proof -
  define x where "x = (50000000 - int d1) div 1000000"
  have x: "30 < x" "x \<le> 50" using assms(2) by (simp_all add: x_def)
  then have s: "sint (word_of_int x :: 32 word) = x" by (simp add: int_word_sint)
  let ?e = "\<lparr>e_when = clk_now c + 50000000, e_cb = Some (), e_id = 1\<rparr>"
  let ?h = "\<lparr>heap = [?e], cancelled = {}, next_id = 2, ties = tl ts\<rparr>"
  let ?c = "c\<lparr>clk_now := clk_now c + int d1, clk_ticks := ds\<rparr>"
  have a: "addAfter 50 (Some ()) c (TimerHeap_new ts) = (1, ?c, ?h)" using assms(1) by (simp add: timer_test_defs)
  have t: "nextTimeoutMs (clk_now c + int d1) ?h = x"
    using x s assms(2) by (simp add: nextTimeoutMs_def heap_top_def duration_ms_def x_def)
  obtain now c1 where r1: "clk_read ?c = (now, c1)" by fastforce
  obtain tid c2 h2 where r2: "addAfter 0 (Some ()) c1 ?h = (tid, c2, h2)" by (metis prod_cases3)
  obtain now3 c3 where r3: "clk_read c2 = (now3, c3)" by fastforce
  have now: "now = clk_now c + int d1" using r1 by (simp add: clk_read_def Let_def split: prod.splits list.splits)
  obtain w where w: "clk_read c1 = (w, c2)" "timer_add w (Some ()) ?h = (tid, h2)"
    using r2 by (auto simp: addAfter_def Let_def split: prod.splits)
  have "timer_inv ?h" by (simp add: timer_inv_def)
  with timer_inv_add [OF this w(2)] have "timer_inv h2" by blast
  moreover have "\<lparr>e_when = w, e_cb = Some (), e_id = 2\<rparr> \<in> set (heap h2)"
    using w(2) by (auto simp: timer_add_def Let_def set_heap_push simp del: heap_push.simps)
  moreover have "w \<le> now3" using clk_read_mono [OF w(1)] w(1) r3 by (auto simp: clk_read_def split: list.splits)
  ultimately have "nextTimeoutMs now3 h2 = 0"
    using timeout_due [of h2 "\<lparr>e_when = w, e_cb = Some (), e_id = 2\<rparr>" now3] by simp
  with x t now show ?thesis
    unfolding TimerHeap_NextTimeoutMs_def Let_def a prod.case r1 r2 r3 by (simp add: nextTimeoutMs_def TimerHeap_new_def)
qed

section \<open>Memory pool\<close>

text \<open>Sequencing of calls that may throw.\<close>

definition and_then :: "pool_error + 'a \<Rightarrow> ('a \<Rightarrow> pool_error + 'b) \<Rightarrow> pool_error + 'b" where
  "and_then r f = (case r of Inl e \<Rightarrow> Inl e | Inr x \<Rightarrow> f x)"

lemma and_then_Inr: "and_then r f = Inr y \<longleftrightarrow> (\<exists>x. r = Inr x \<and> f x = Inr y)"
  by (simp add: and_then_def split: sum.split)

definition MemoryPool_ReusesFreedBlocks :: "alloc_fn \<Rightarrow> memory \<Rightarrow> pool_error + bool" where
  "MemoryPool_ReusesFreedBlocks aa m =
     and_then (MemoryPool_new aa 64 4 m) (\<lambda>(pool, m).
     and_then (pool_allocate aa pool m) (\<lambda>(a, pool, m).
     case pool_deallocate a pool m of (pool, m) \<Rightarrow>
     and_then (pool_allocate aa pool m) (\<lambda>(b, pool, m).
     Inr (a = b))))"

definition MemoryPool_GrowsInChunks :: "alloc_fn \<Rightarrow> memory \<Rightarrow> pool_error + bool" where
  "MemoryPool_GrowsInChunks aa m =
     and_then (MemoryPool_new aa 64 4 m) (\<lambda>(pool, m).
     let one = (length (chunks pool) = 1) in
     and_then (alloc_many aa 9 pool m) (\<lambda>(blocks, pool, m).
     Inr (one \<and> length (chunks pool) = 3 \<and> capacity pool = 12 \<and> in_use pool = 9)))"

definition MemoryPool_BlocksAreAlignedAndDistinct :: "alloc_fn \<Rightarrow> memory \<Rightarrow> pool_error + bool" where
  "MemoryPool_BlocksAreAlignedAndDistinct aa m =
     and_then (MemoryPool_new aa 64 16 m) (\<lambda>(pool, m).
     and_then (alloc_many aa 16 pool m) (\<lambda>(blocks, pool, m).
     Inr (list_all (\<lambda>p. p mod 16 = 0) blocks \<and> distinct blocks)))"

definition MemoryPool_BlocksDoNotOverlap :: "alloc_fn \<Rightarrow> memory \<Rightarrow> pool_error + bool" where
  "MemoryPool_BlocksDoNotOverlap aa m =
     and_then (MemoryPool_new aa 64 8 m) (\<lambda>(pool, m).
     and_then (alloc_many aa 8 pool m) (\<lambda>(blocks, pool, m).
     let addrs = sort blocks in
     Inr (list_all (\<lambda>i. unat (block_size pool) \<le> addrs ! i - addrs ! (i - 1)) [1..<length addrs])))"

fun dealloc_many :: "nat list \<Rightarrow> MemoryPool \<Rightarrow> memory \<Rightarrow> MemoryPool \<times> memory" where
  "dealloc_many [] pool m = (pool, m)"
| "dealloc_many (p # ps) pool m = (case pool_deallocate p pool m of (pool, m) \<Rightarrow> dealloc_many ps pool m)"

definition MemoryPool_ManyAllocationsNeedFewChunks :: "alloc_fn \<Rightarrow> memory \<Rightarrow> pool_error + bool" where
  "MemoryPool_ManyAllocationsNeedFewChunks aa m =
     and_then (MemoryPool_new aa 128 512 m) (\<lambda>(pool, m).
     and_then (alloc_many aa 10000 pool m) (\<lambda>(v, pool, m).
     let few = (length (chunks pool) = 20 \<and> capacity pool = 20 * 512) in
     case dealloc_many v pool m of (pool, m) \<Rightarrow> Inr (few \<and> in_use pool = 0)))"

definition MemoryPool_InUseAccounting :: "alloc_fn \<Rightarrow> memory \<Rightarrow> pool_error + bool" where
  "MemoryPool_InUseAccounting aa m =
     and_then (MemoryPool_new aa 32 8 m) (\<lambda>(pool, m).
     and_then (pool_allocate aa pool m) (\<lambda>(a, pool, m).
     and_then (pool_allocate aa pool m) (\<lambda>(b, pool, m).
     let two = (in_use pool = 2) in
     case pool_deallocate a pool m of (pool, m) \<Rightarrow>
     let one = (in_use pool = 1) in
     case pool_deallocate b pool m of (pool, m) \<Rightarrow>
     let none = (in_use pool = 0) in
     case pool_deallocate 0 pool m of (pool, m) \<Rightarrow>
     Inr (two \<and> one \<and> none \<and> in_use pool = 0))))"

definition MemoryPool_TinyRequestIsRaised :: "alloc_fn \<Rightarrow> memory \<Rightarrow> pool_error + bool" where
  "MemoryPool_TinyRequestIsRaised aa m =
     and_then (MemoryPool_new aa 1 4 m) (\<lambda>(pool, m).
     and_then (pool_allocate aa pool m) (\<lambda>(a, pool', m).
     Inr (sizeof_ptr \<le> block_size pool \<and> a \<noteq> 0)))"

definition MemoryPool_ThreadLocalPoolIsStablePerSizeClass :: "alloc_fn \<Rightarrow> tls_pools \<Rightarrow> memory \<Rightarrow> pool_error + bool" where
  "MemoryPool_ThreadLocalPoolIsStablePerSizeClass aa tls m =
     and_then (tlsPoolFor aa 64 tls m) (\<lambda>(a, tls, m).
     and_then (tlsPoolFor aa 64 tls m) (\<lambda>(b, tls, m).
     and_then (tlsPoolFor aa 128 tls m) (\<lambda>(c, tls, m).
     Inr (a = b \<and> a \<noteq> c))))"

text \<open>A new pool, and what its counters count.\<close>

lemma normalize_tests:
  "normalizeBlockSize 64 = 64" "normalizeBlockSize 128 = 128" "normalizeBlockSize 32 = 32" "normalizeBlockSize 1 = 16"
  by (simp_all add: normalizeBlockSize_def align_up_def)

lemma new_pool:
  assumes "alloc_ok aa" "MemoryPool_new aa bs n m = Inr (p, m')" "bs \<in> {64, 128, 32, 1}" "n \<in> {4, 16, 8, 512}"
  shows "pool_inv p m'" "used_blocks p m' = {}" "length (chunks p) = 1" "blocks_per_chunk p = n" "block_size p = normalizeBlockSize bs"
proof -
  have "unat bs \<le> 2 ^ 64 - 16" "unat (normalizeBlockSize bs) * unat (if n = 0 then 1 else n) \<le> 2 ^ 64 - 16" "n \<noteq> 0"
    using assms(3,4) by (auto simp: normalize_tests)
  with MemoryPool_new_inv [OF assms(1,2)]
  show "pool_inv p m'" "used_blocks p m' = {}" "length (chunks p) = 1" "blocks_per_chunk p = n" "block_size p = normalizeBlockSize bs"
    by simp_all
qed

lemma in_use_card:
  assumes "pool_inv p m"
  shows "in_use p = of_nat (card (used_blocks p m))"
proof -
  have "pool_shape p m" "distinct (free_blocks p m)" "set (free_blocks p m) \<subseteq> set (pool_blocks p)"
      "in_use p = of_nat (length (pool_blocks p) - length (free_blocks p m))"
    using assms by (simp_all add: pool_inv_def)
  with distinct_pool_blocks [of p m] show ?thesis by (simp add: used_blocks_def card_Diff_subset distinct_card)
qed

lemma capacity_chunks: "pool_inv p m \<Longrightarrow> capacity p = of_nat (length (chunks p) * unat (blocks_per_chunk p))"
  by (simp add: pool_inv_def length_pool_blocks)

lemma used_block:
  assumes "pool_inv p m" "a \<in> used_blocks p m"
  shows "a \<noteq> 0 \<and> a mod 16 = 0" "b \<in> used_blocks p m \<Longrightarrow> a \<noteq> b \<Longrightarrow> a + unat (block_size p) \<le> b \<or> b + unat (block_size p) \<le> a"
proof -
  have "pool_shape p m" "used_blocks p m \<subseteq> set (pool_blocks p)" using assms(1) by (auto simp: pool_inv_def used_blocks_def)
  with assms(2) show "a \<noteq> 0 \<and> a mod 16 = 0" "b \<in> used_blocks p m \<Longrightarrow> a \<noteq> b \<Longrightarrow> a + unat (block_size p) \<le> b \<or> b + unat (block_size p) \<le> a"
    using pool_blocks_aligned [of p m a] pool_blocks_apart [of p m a b] by auto
qed

lemma dealloc_many_inv:
  "pool_inv p m \<Longrightarrow> distinct as \<Longrightarrow> set as \<subseteq> used_blocks p m \<Longrightarrow> dealloc_many as p m = (p', m') \<Longrightarrow>
     pool_inv p' m' \<and> used_blocks p' m' = used_blocks p m - set as"
proof (induction as arbitrary: p m)
  case (Cons a as)
  obtain p1 m1 where d: "pool_deallocate a p m = (p1, m1)" by fastforce
  with pool_inv_give [OF Cons.prems(1) _ d] Cons.prems have 1: "pool_inv p1 m1" "used_blocks p1 m1 = used_blocks p m - {a}" by auto
  with Cons.IH [OF 1(1)] Cons.prems d show ?case by auto
qed simp

text \<open>The state after a row of allocations from a new pool.\<close>

lemma alloc_many_new:
  assumes "alloc_ok aa" "MemoryPool_new aa bs n m = Inr (p, m')" "bs \<in> {64, 128, 32, 1}" "n \<in> {4, 16, 8, 512}"
    and "alloc_many aa k p m' = Inr (as, p', m'')"
  shows "pool_inv p' m''" "used_blocks p' m'' = set as" "distinct as" "length as = k" "in_use p' = of_nat k"
    "length (chunks p') = max 1 ((k + unat n - 1) div unat n)" "capacity p' = of_nat (length (chunks p') * unat n)"
proof -
  note N = new_pool [OF assms(1-4)]
  show A: "pool_inv p' m''" "used_blocks p' m'' = set as" "distinct as" "length as = k"
      "length (chunks p') = max 1 ((k + unat n - 1) div unat n)"
    using alloc_many_inv [OF assms(1) N(1-3) assms(5)] N(4) by auto
  show "in_use p' = of_nat k" using in_use_card [OF A(1)] A(2-4) by (simp add: distinct_card)
  show "capacity p' = of_nat (length (chunks p') * unat n)"
    using capacity_chunks [OF A(1)] alloc_many_inv [OF assms(1) N(1-3) assms(5)] N(4) by auto
qed

lemma pool_tests_pass:
  assumes aa: "alloc_ok aa"
  shows "MemoryPool_ReusesFreedBlocks aa m = Inr r \<Longrightarrow> r" "MemoryPool_GrowsInChunks aa m = Inr r \<Longrightarrow> r"
    "MemoryPool_BlocksAreAlignedAndDistinct aa m = Inr r \<Longrightarrow> r" "MemoryPool_ManyAllocationsNeedFewChunks aa m = Inr r \<Longrightarrow> r"
    "MemoryPool_TinyRequestIsRaised aa m = Inr r \<Longrightarrow> r"
proof -
  show r if t: "MemoryPool_ReusesFreedBlocks aa m = Inr r"
  proof -
    obtain p m1 a p2 m2 b p4 m4 where s: "MemoryPool_new aa 64 4 m = Inr (p, m1)" "pool_allocate aa p m1 = Inr (a, p2, m2)"
        "pool_allocate aa (fst (pool_deallocate a p2 m2)) (snd (pool_deallocate a p2 m2)) = Inr (b, p4, m4)" "r = (a = b)"
      using t by (auto simp: MemoryPool_ReusesFreedBlocks_def and_then_Inr case_prod_beta)
    obtain p3 m3 where d: "pool_deallocate a p2 m2 = (p3, m3)" by fastforce
    have "pool_inv p2 m2" "a \<in> used_blocks p2 m2"
      using pool_allocate_inv [OF aa new_pool(1) [OF aa s(1)] s(2)] by simp_all
    from pool_reuses_last_freed [OF this d, of aa] s(3,4) show ?thesis by (auto simp: d)
  qed
  show r if t: "MemoryPool_GrowsInChunks aa m = Inr r"
  proof -
    obtain p m1 as p2 m2 where s: "MemoryPool_new aa 64 4 m = Inr (p, m1)" "alloc_many aa 9 p m1 = Inr (as, p2, m2)"
        "r = (length (chunks p) = 1 \<and> length (chunks p2) = 3 \<and> capacity p2 = 12 \<and> in_use p2 = 9)"
      using t by (fastforce simp: MemoryPool_GrowsInChunks_def and_then_Inr Let_def split: prod.splits)
    show ?thesis using alloc_many_new [OF aa s(1) _ _ s(2)] new_pool(3) [OF aa s(1)] by (simp add: s(3))
  qed
  show r if t: "MemoryPool_BlocksAreAlignedAndDistinct aa m = Inr r"
  proof -
    obtain p m1 as p2 m2 where s: "MemoryPool_new aa 64 16 m = Inr (p, m1)" "alloc_many aa 16 p m1 = Inr (as, p2, m2)"
        "r = (list_all (\<lambda>p. p mod 16 = 0) as \<and> distinct as)"
      using t by (fastforce simp: MemoryPool_BlocksAreAlignedAndDistinct_def and_then_Inr split: prod.splits)
    note A = alloc_many_new [OF aa s(1) _ _ s(2)]
    have "pool_inv p2 m2" "used_blocks p2 m2 = set as" "distinct as" using A by simp_all
    then show ?thesis using used_block(1) by (auto simp: s(3) list_all_iff)
  qed
  show r if t: "MemoryPool_ManyAllocationsNeedFewChunks aa m = Inr r"
  proof -
    obtain p m1 as p2 m2 where s: "MemoryPool_new aa 128 512 m = Inr (p, m1)" "alloc_many aa 10000 p m1 = Inr (as, p2, m2)"
        "r = (length (chunks p2) = 20 \<and> capacity p2 = 20 * 512 \<and> in_use (fst (dealloc_many as p2 m2)) = 0)"
      using t by (fastforce simp: MemoryPool_ManyAllocationsNeedFewChunks_def and_then_Inr Let_def case_prod_beta)
    obtain p3 m3 where d: "dealloc_many as p2 m2 = (p3, m3)" by fastforce
    note A = alloc_many_new [OF aa s(1) _ _ s(2)]
    have "pool_inv p2 m2" "used_blocks p2 m2 = set as" "distinct as" using A by simp_all
    with dealloc_many_inv [OF _ _ _ d] have "pool_inv p3 m3" "used_blocks p3 m3 = {}" by auto
    with in_use_card [of p3 m3] A(6,7) show ?thesis by (simp add: s(3) d)
  qed
  show r if t: "MemoryPool_TinyRequestIsRaised aa m = Inr r"
  proof -
    obtain p m1 a p2 m2 where s: "MemoryPool_new aa 1 4 m = Inr (p, m1)" "pool_allocate aa p m1 = Inr (a, p2, m2)"
        "r = (sizeof_ptr \<le> block_size p \<and> a \<noteq> 0)"
      using t by (fastforce simp: MemoryPool_TinyRequestIsRaised_def and_then_Inr split: prod.splits)
    have "pool_inv p2 m2" "a \<in> used_blocks p2 m2"
      using pool_allocate_inv [OF aa new_pool(1) [OF aa s(1)] s(2)] by simp_all
    with used_block(1) [of p2 m2 a] new_pool(5) [OF aa s(1)] show ?thesis by (simp add: s(3) normalize_tests)
  qed
qed

lemma overlap_test_passes:
  assumes aa: "alloc_ok aa" and t: "MemoryPool_BlocksDoNotOverlap aa m = Inr r"
  shows r
proof -
  obtain p m1 as p2 m2 where s: "MemoryPool_new aa 64 8 m = Inr (p, m1)" "alloc_many aa 8 p m1 = Inr (as, p2, m2)"
      "r = list_all (\<lambda>i. unat (block_size p2) \<le> sort as ! i - sort as ! (i - 1)) [1..<length (sort as)]"
    using t by (auto simp: MemoryPool_BlocksDoNotOverlap_def and_then_Inr Let_def split: prod.splits)
  note A = alloc_many_new [OF aa s(1) _ _ s(2)]
  have inv: "pool_inv p2 m2" "used_blocks p2 m2 = set as" "distinct as" using A by simp_all
  have "unat (block_size p2) \<le> sort as ! i - sort as ! (i - 1)" if i: "1 \<le> i" "i < length as" for i
  proof -
    have i': "i - 1 < length as" "i - 1 \<noteq> i" using i by simp_all
    have "sort as ! (i - 1) \<in> set as" "sort as ! i \<in> set as" using nth_mem [of "i - 1" "sort as"] nth_mem [of i "sort as"] i i' by simp_all
    moreover have "sort as ! (i - 1) \<noteq> sort as ! i" using inv(3) i i' by (simp add: nth_eq_iff_index_eq)
    moreover have "sort as ! (i - 1) \<le> sort as ! i" using i by (intro sorted_nth_mono) simp_all
    ultimately show ?thesis using used_block(2) [OF inv(1), of "sort as ! (i - 1)" "sort as ! i"] inv(2) by auto
  qed
  then show ?thesis by (simp add: s(3) list_all_iff)
qed

lemma accounting_test_passes:
  assumes aa: "alloc_ok aa" and t: "MemoryPool_InUseAccounting aa m = Inr r"
  shows r
proof -
  obtain p m1 a p2 m2 b p3 m3 where s: "MemoryPool_new aa 32 8 m = Inr (p, m1)" "pool_allocate aa p m1 = Inr (a, p2, m2)"
      "pool_allocate aa p2 m2 = Inr (b, p3, m3)"
      "r = (case pool_deallocate a p3 m3 of (p4, m4) \<Rightarrow> case pool_deallocate b p4 m4 of (p5, m5) \<Rightarrow>
        in_use p3 = 2 \<and> in_use p4 = 1 \<and> in_use p5 = 0 \<and> in_use (fst (pool_deallocate 0 p5 m5)) = 0)"
    using t by (fastforce simp: MemoryPool_InUseAccounting_def and_then_Inr Let_def case_prod_beta)
  obtain p4 m4 p5 m5 where d: "pool_deallocate a p3 m3 = (p4, m4)" "pool_deallocate b p4 m4 = (p5, m5)" by (metis prod.collapse)
  note N = new_pool(1,2) [OF aa s(1)]
  have 2: "pool_inv p2 m2" "used_blocks p2 m2 = {a}" using pool_allocate_inv [OF aa N(1) s(2)] N(2) by simp_all
  have 3: "pool_inv p3 m3" "used_blocks p3 m3 = {a, b}" "a \<noteq> b" using pool_allocate_inv [OF aa 2(1) s(3)] 2(2) by auto
  have 4: "pool_inv p4 m4" "used_blocks p4 m4 = {b}" using pool_inv_give [OF 3(1) _ d(1)] 3(2,3) by auto
  have 5: "pool_inv p5 m5" "used_blocks p5 m5 = {}" using pool_inv_give [OF 4(1) _ d(2)] 4(2) by auto
  show ?thesis using in_use_card [OF 3(1)] in_use_card [OF 4(1)] in_use_card [OF 5(1)] 3(2,3) 4(2) 5(2)
    by (simp add: s(4) d) (simp add: pool_deallocate_def)
qed

lemma thread_local_test_passes:
  assumes "tls_ok tls" "MemoryPool_ThreadLocalPoolIsStablePerSizeClass aa tls m = Inr r"
  shows r
proof -
  obtain a t1 m1 b t2 m2 c t3 m3 where s: "tlsPoolFor aa 64 tls m = Inr (a, t1, m1)" "tlsPoolFor aa 64 t1 m1 = Inr (b, t2, m2)"
      "tlsPoolFor aa 128 t2 m2 = Inr (c, t3, m3)" "r = (a = b \<and> a \<noteq> c)"
    using assms(2) by (fastforce simp: MemoryPool_ThreadLocalPoolIsStablePerSizeClass_def and_then_Inr split: prod.splits)
  have k: "first_index (\<lambda>c. 64 \<le> c) kClasses = Some 2" "first_index (\<lambda>c. 128 \<le> c) kClasses = Some 3"
    by (simp_all add: kClasses_def)
  note A = tlsPoolFor_small [OF assms(1) k(1) s(1), of m1]
  with s(2) have ba: "b = a" "t2 = t1" by auto
  with A tlsPoolFor_small [OF _ k(2), of t1 aa m2 c t3 m3] s(3) show ?thesis by (auto simp: s(4))
qed

end
