(* ===== verification/Test_Logger.thy ===== *)
theory Test_Logger
  imports Log_Start
begin

text \<open>
  The program's own unit tests of the logger (\<open>tests/test_logger.cpp\<close>) as definitions, as in \<open>Test_Http\<close>. A test
  is a function of what it cannot decide itself: the local time of each call, how many steps the log thread
  makes before it, the path under which the compiler saw the test's source, the logger (one object for all
  tests) and the disk. What \<open>vsnprintf\<close> makes of a format and its arguments is written out.
\<close>

section \<open>The tests\<close>

record log_moment =
  m_turns :: nat
  m_tm :: tm
  m_ms :: int

text \<open>The calls of the macros by the thread of the test, each at its moment.\<close>

fun run_log :: "string \<Rightarrow> (log_moment \<times> LogLevel \<times> int \<times> string) list \<Rightarrow> lsys \<Rightarrow> lsys" where
  "run_log file [] s = s"
| "run_log file ((m, lv, line, msg) # cs) s =
     (let s = thread_turns (m_turns m) s in
      run_log file cs (log_line (m_tm m) (m_ms m) lv file line msg s))"

definition setLevel :: "LogLevel \<Rightarrow> AsyncLogger \<Rightarrow> AsyncLogger" where
  "setLevel lv a = a\<lparr>level := lv\<rparr>"

text \<open>What the tests have in common: the file is removed, the level set, the logger started, used and stopped.\<close>

definition d_remove :: "string \<Rightarrow> disk \<Rightarrow> disk" where
  "d_remove fname d = d\<lparr>files := (files d)(fname := None)\<rparr>"

definition log_session ::
  "string \<Rightarrow> LogLevel \<Rightarrow> string \<Rightarrow> (log_moment \<times> LogLevel \<times> int \<times> string) list \<Rightarrow> AsyncLogger \<Rightarrow> disk \<Rightarrow> lsys" where
  "log_session fname lv file calls a d =
     (case log_start fname 20 (256 * 1024 * 1024) (setLevel lv a) (d_remove fname d) of
        (a, d) \<Rightarrow> run_log file calls (log_system a d))"

definition readFile :: "string \<Rightarrow> lsys \<Rightarrow> string" where
  "readFile fname s = content (dk s) fname"

definition countLines :: "string \<Rightarrow> nat" where
  "countLines s = length (filter (\<lambda>c. c = LF) s)"

definition AsyncLogger_EveryQueuedLineReachesDisk :: "(nat \<Rightarrow> log_moment) \<Rightarrow> string \<Rightarrow> AsyncLogger \<Rightarrow> disk \<Rightarrow> bool" where
  "AsyncLogger_EveryQueuedLineReachesDisk moment file a d =
     (let fname = ''/tmp/ws_logger_test.txt'';
          kLines = 5000;
          line = (\<lambda>i. (moment i, LOG_INFO, 43, ''line '' @ to_string i @ '' payload '' @ replicate 36 CHR ''x''));
          s = log_stop (log_session fname LOG_INFO file (map line [0..<kLines]) a d);
          content = readFile fname s
      in countLines content = kLines \<and> search ''line 0 '' content \<noteq> None \<and> search ''line 4999 '' content \<noteq> None \<and>
         log_bytes_written (lg s) > 0 \<and> enqueued_bytes (lg s) \<ge> log_bytes_written (lg s) \<and>
         take 1 (drop 4 content) = ''-'' \<and> search ''INFO'' content \<noteq> None \<and> search ''test_logger.cpp:'' content \<noteq> None)"

definition AsyncLogger_LevelFilterSuppressesLowerLevels :: "(nat \<Rightarrow> log_moment) \<Rightarrow> string \<Rightarrow> AsyncLogger \<Rightarrow> disk \<Rightarrow> bool" where
  "AsyncLogger_LevelFilterSuppressesLowerLevels moment file a d =
     (let fname = ''/tmp/ws_logger_level.txt'';
          s = log_session fname LOG_ERROR file
            [(moment 0, LOG_INFO, 70, ''this must not appear''),
             (moment 1, LOG_DEBUG, 71, ''this must not appear either''),
             (moment 2, LOG_ERROR, 72, ''this must appear'')] a d;
          s = log_stop (s\<lparr>lg := setLevel LOG_INFO (lg s)\<rparr>);
          content = readFile fname s
      in search ''this must not appear'' content = None \<and> search ''this must appear'' content \<noteq> None \<and>
         search ''ERROR'' content \<noteq> None)"

definition AsyncLogger_FormatsArgumentsAndSourceLocation :: "(nat \<Rightarrow> log_moment) \<Rightarrow> string \<Rightarrow> AsyncLogger \<Rightarrow> disk \<Rightarrow> bool" where
  "AsyncLogger_FormatsArgumentsAndSourceLocation moment file a d =
     (let fname = ''/tmp/ws_logger_format.txt'';
          s = log_stop (log_session fname LOG_INFO file
            [(moment 0, LOG_WARN, 92, ''client=10.0.0.7 port=8080 ratio=0.50'')] a d);
          content = readFile fname s
      in search ''client=10.0.0.7 port=8080 ratio=0.50'' content \<noteq> None \<and> search ''WARN'' content \<noteq> None \<and>
         search ''test_logger.cpp'' content \<noteq> None)"

definition AsyncLogger_LongLineIsTruncatedNotOverflowed :: "(nat \<Rightarrow> log_moment) \<Rightarrow> string \<Rightarrow> AsyncLogger \<Rightarrow> disk \<Rightarrow> bool" where
  "AsyncLogger_LongLineIsTruncatedNotOverflowed moment file a d =
     (let fname = ''/tmp/ws_logger_long.txt'';
          huge = replicate 20000 CHR ''z'';
          s = log_stop (log_session fname LOG_INFO file [(moment 0, LOG_INFO, 110, huge)] a d);
          content = readFile fname s
      in length content > 1000 \<and> search ''zzzz'' content \<noteq> None \<and> length content < length huge)"

section \<open>What a session leaves in the file\<close>

text \<open>The lines of the calls that the level lets through.\<close>

definition log_lines :: "string \<Rightarrow> LogLevel \<Rightarrow> (log_moment \<times> LogLevel \<times> int \<times> string) list \<Rightarrow> string list" where
  "log_lines file cur calls =
     map (\<lambda>(m, lv, line, msg). write_line (m_tm m) (m_ms m) lv file line msg) (filter (\<lambda>(m, lv, line, msg). cur \<le> lv) calls)"

lemma writeAll_level: "level (fst (writeAll x a d)) = level a"
  by (simp add: writeAll_def rollIfNeeded_def Let_def case_prod_beta)

lemma thread_turn_level: "thread_turn s = Some s' \<Longrightarrow> level (lg s') = level (lg s) \<and> inserted s' = inserted s \<and> checked s' = checked s"
  using writeAll_level [of "to_write (lg s)" "lg s" "dk s"] writeAll_level [of "current (lg s)" "lg s" "dk s"]
  by (auto simp: thread_turn_def swap_buffers_def flush_to_write_def flush_current_def split: tpc.splits if_splits prod.splits)

lemma thread_turns_level:
  "level (lg (thread_turns n s)) = level (lg s) \<and> inserted (thread_turns n s) = inserted s \<and> checked (thread_turns n s) = checked s"
  by (induction n arbitrary: s) (auto split: option.split dest: thread_turn_level)

lemma run_log_steps:
  assumes "lsys_init s0"
  shows "log_step\<^sup>*\<^sup>* s0 s \<Longrightarrow> (\<forall>q. checked s q = None) \<Longrightarrow> running (lg s) \<Longrightarrow>
    log_step\<^sup>*\<^sup>* s0 (run_log file calls s) \<and> running (lg (run_log file calls s)) \<and>
    inserted (run_log file calls s) = inserted s @ concat (log_lines file (level (lg s)) calls)"
proof (induction calls arbitrary: s)
  case (Cons c calls)
  obtain m lv line msg where c: "c = (m, lv, line, msg)" by (cases c)
  let ?s1 = "thread_turns (m_turns m) s" and ?x = "write_line (m_tm m) (m_ms m) lv file line msg"
  have 1: "level (lg ?s1) = level (lg s)" "inserted ?s1 = inserted s" "checked ?s1 = checked s" using thread_turns_level by blast+
  have reach: "log_step\<^sup>*\<^sup>* s0 ?s1" using Cons.prems(1) thread_turns_steps [of s "m_turns m"] by simp
  have "tpc s \<noteq> TJoined" using running_joined [OF Cons.prems(1) assms] Cons.prems(3) by simp
  moreover have keep: "thread_turn s = Some s' \<Longrightarrow> tpc s \<noteq> TJoined \<Longrightarrow> tpc s' \<noteq> TJoined" for s s'
    by (auto simp: thread_turn_def split: tpc.splits if_splits prod.splits)
  then have "tpc s \<noteq> TJoined \<Longrightarrow> tpc (thread_turns n s) \<noteq> TJoined" for n s
    by (induction n arbitrary: s) (auto split: option.split)
  ultimately have run: "running (lg ?s1)" using running_joined [OF reach assms] by blast
  show ?case
  proof (cases "level (lg s) \<le> lv")
    case False
    with Cons.IH [OF reach] Cons.prems(2) 1 run show ?thesis by (simp add: c log_line_def ws_log_def log_lines_def Let_def)
  next
    case True
    let ?s2 = "?s1\<lparr>lg := fst (log_append ?x (lg ?s1)), inserted := inserted ?s1 @ ?x\<rparr>"
    have "log_step\<^sup>*\<^sup>* ?s1 ?s2"
      using log_append_steps [of ?x ?s1 "fst (log_append ?x (lg ?s1))" "snd (log_append ?x (lg ?s1))" 0] 1(3) Cons.prems(2) run by simp
    then have "log_step\<^sup>*\<^sup>* s0 ?s2" using reach by simp
    moreover have "\<forall>q. checked ?s2 q = None" "running (lg ?s2)" "level (lg ?s2) = level (lg s)"
      using 1 Cons.prems(2) run by (simp_all add: log_append_def Let_def)
    ultimately show ?thesis using Cons.IH [of ?s2] True 1 run by (simp add: c log_line_def ws_log_def log_lines_def Let_def)
  qed
qed (simp add: log_lines_def)

text \<open>A session that stays below the roll limit.\<close>

lemma log_session_file:
  assumes "disk_ready fname (d_remove fname d)" "opens d \<noteq> []" "\<not> running a"
    and "length (concat (log_lines file lv calls)) \<le> 256 * 1024 * 1024"
  shows "readFile fname (log_stop (log_session fname lv file calls a d)) = concat (log_lines file lv calls) \<and>
    log_bytes_written (lg (log_stop (log_session fname lv file calls a d))) = log_bytes_written a + length (concat (log_lines file lv calls)) \<and>
    enqueued_bytes (lg (log_stop (log_session fname lv file calls a d))) = enqueued_bytes a + length (concat (log_lines file lv calls))"
proof -
  obtain a1 d1 where st: "log_start fname 20 (256 * 1024 * 1024) (setLevel lv a) (d_remove fname d) = (a1, d1)" by fastforce
  have "level a1 = lv" using st assms(3) by (auto simp: log_start_def setLevel_def Let_def split: prod.splits)
  then have a1: "a1 = (fst (log_start fname 20 (256 * 1024 * 1024) (setLevel lv a) (d_remove fname d)))\<lparr>level := lv\<rparr>"
      "d1 = snd (log_start fname 20 (256 * 1024 * 1024) (setLevel lv a) (d_remove fname d))"
    unfolding st by simp_all
  have pre: "opens (d_remove fname d) \<noteq> []" "\<not> running (setLevel lv a)" using assms(2,3) by (simp_all add: d_remove_def setLevel_def)
  note S = log_start_ok [OF assms(1) pre a1]
  let ?start = "log_system a1 d1"
  have s0: "lg ?start = a1" "dk ?start = d1" "checked ?start q = None" "inserted ?start = []" for q by (simp_all add: log_system_def)
  have "running a1" using S(1) by (simp add: lsys_init_def s0)
  with run_log_steps [OF S(1), of "log_system a1 d1" "file" calls] S(10)
  have R: "log_step\<^sup>*\<^sup>* ?start (run_log file calls ?start)" "running (lg (run_log file calls ?start))"
      "inserted (run_log file calls ?start) = concat (log_lines file lv calls)"
    by (simp_all add: s0)
  have "tpc (run_log file calls ?start) \<noteq> TJoined" using running_joined [OF R(1) S(1)] R(2) by simp
  moreover have "content d1 fname = []" using S(3) by (simp add: content_def d_remove_def)
  ultimately show ?thesis
    using log_totals_aux [OF S(1) _ _ R(1), of fname] S(2,6-9) R(3) assms(4) s0 st
    by (simp add: log_session_def readFile_def setLevel_def)
qed

section \<open>Lines\<close>

lemma sublist_skip: "c \<notin> set h \<Longrightarrow> sublist (c # p) (h @ t) \<longleftrightarrow> sublist (c # p) t"
  by (induction h) (auto simp: sublist_Cons_right)

lemma sublist_inside: "sublist p x \<Longrightarrow> sublist p (h @ x @ t)"
  by (simp add: sublist_append)

lemma sublist_concat: "x \<in> set xs \<Longrightarrow> sublist p x \<Longrightarrow> sublist p (concat xs)"
  by (induction xs) (auto simp: sublist_append)

text \<open>The date of a line: every field has its width, and there is no letter in it.\<close>

definition tm_ok :: "log_moment \<Rightarrow> bool" where
  "tm_ok m \<longleftrightarrow> 0 \<le> tm_year (m_tm m) + 1900 \<and> tm_year (m_tm m) + 1900 < 10000 \<and> 0 \<le> tm_mon (m_tm m) \<and> tm_mon (m_tm m) \<le> 11 \<and>
     1 \<le> tm_mday (m_tm m) \<and> tm_mday (m_tm m) \<le> 31 \<and> 0 \<le> tm_hour (m_tm m) \<and> tm_hour (m_tm m) \<le> 23 \<and>
     0 \<le> tm_min (m_tm m) \<and> tm_min (m_tm m) \<le> 59 \<and> 0 \<le> tm_sec (m_tm m) \<and> tm_sec (m_tm m) \<le> 60 \<and> 0 \<le> m_ms m \<and> m_ms m < 1000"

lemma pf_zeros_digits:
  assumes "0 \<le> i" "i < 10 ^ w" "0 < w"
  shows "length (pf_zeros w i) = w \<and> (\<forall>c \<in> set (pf_zeros w i). isdigit c)"
proof -
  obtain k where w: "w = Suc k" using assms(3) by (cases w) simp_all
  have "nat i < 10 ^ Suc k" using assms(1,2) by (simp add: nat_less_iff w)
  from length_to_string [OF this] assms(1) to_string_isdigit [of "nat i"] show ?thesis
    by (auto simp: pf_zeros_def int_to_string_def Let_def isdigit_def w)
qed

lemma date_ok:
  assumes "tm_ok m"
  shows "\<exists>ds. log_head (m_tm m) (m_ms m) lv = ds @ pf_left 5 (levelName lv) @ '' '' \<and> length ds = 24 \<and> ds ! 4 = CHR ''-'' \<and>
    (\<forall>c \<in> set ds. isdigit c \<or> c \<in> {CHR ''-'', CHR '' '', CHR '':'', CHR ''.''})"
proof -
  let ?t = "m_tm m"
  let ?y = "pf_zeros 4 (tm_year ?t + 1900)"
  define rest where "rest = pf_zeros 2 (tm_mon ?t + 1) @ ''-'' @ pf_zeros 2 (tm_mday ?t) @ '' '' @
    pf_zeros 2 (tm_hour ?t) @ '':'' @ pf_zeros 2 (tm_min ?t) @ '':'' @ pf_zeros 2 (tm_sec ?t) @ ''.'' @ pf_zeros 3 (m_ms m) @ '' ''"
  have y: "length ?y = 4" "\<forall>c \<in> set ?y. isdigit c" using assms pf_zeros_digits [of "tm_year ?t + 1900" 4] by (simp_all add: tm_ok_def)
  have "length rest = 19" "\<forall>c \<in> set rest. isdigit c \<or> c \<in> {CHR ''-'', CHR '' '', CHR '':'', CHR ''.''}"
    using assms pf_zeros_digits [of "tm_mon ?t + 1" 2] pf_zeros_digits [of "tm_mday ?t" 2] pf_zeros_digits [of "tm_hour ?t" 2]
      pf_zeros_digits [of "tm_min ?t" 2] pf_zeros_digits [of "tm_sec ?t" 2] pf_zeros_digits [of "m_ms m" 3]
    by (auto simp: rest_def tm_ok_def)
  with y show ?thesis
    by (intro exI [of _ "?y @ ''-'' @ rest"]) (auto simp: log_head_def rest_def nth_append)
qed

text \<open>A line of the tests, whose source is \<open>test_logger.cpp\<close>.\<close>

definition place :: "int \<Rightarrow> string" where
  "place line = ''test_logger.cpp:'' @ int_to_string line @ '' ''"

lemma place_length: "0 \<le> line \<Longrightarrow> line < 1000 \<Longrightarrow> length (place line) \<le> 20"
  using length_to_string [of "nat line" 2] by (simp add: place_def int_to_string_def)

lemma line_shape:
  assumes "tm_ok m" "log_base file = ''test_logger.cpp''" "0 \<le> line" "line < 1000"
  shows "\<exists>ds. length ds = 24 \<and> ds ! 4 = CHR ''-'' \<and> (\<forall>c \<in> set ds. isdigit c \<or> c \<in> {CHR ''-'', CHR '' '', CHR '':'', CHR ''.''}) \<and>
    write_line (m_tm m) (m_ms m) lv file line msg =
      (let text = ds @ pf_left 5 (levelName lv) @ '' '' @ place line @ msg in
       if length msg < 4000 then text @ [LF] else take 4095 (text @ [LF]))"
proof -
  obtain ds where d: "log_head (m_tm m) (m_ms m) lv = ds @ pf_left 5 (levelName lv) @ '' ''" "length ds = 24" "ds ! 4 = CHR ''-''"
      "\<forall>c \<in> set ds. isdigit c \<or> c \<in> {CHR ''-'', CHR '' '', CHR '':'', CHR ''.''}"
    using date_ok [OF assms(1), of lv] by blast
  have lv: "length (pf_left 5 (levelName lv)) = 5" by (cases lv) (simp_all add: pf_left_def)
  note pl = place_length [OF assms(3,4)]
  have "snprintf 80 (log_head (m_tm m) (m_ms m) lv) = ds @ pf_left 5 (levelName lv) @ '' ''"
    using d(1,2) lv by (simp add: snprintf_def)
  then have w: "write_line (m_tm m) (m_ms m) lv file line msg =
      (let text = ds @ pf_left 5 (levelName lv) @ '' '' @ place line @ msg in if length text < 4095 then text @ [LF] else take 4095 text)"
    unfolding write_line_eq assms(2) by (simp add: place_def)
  have "write_line (m_tm m) (m_ms m) lv file line msg =
      (let text = ds @ pf_left 5 (levelName lv) @ '' '' @ place line @ msg in
       if length msg < 4000 then text @ [LF] else take 4095 (text @ [LF]))"
    unfolding w Let_def using d(2) lv pl by auto
  with d show ?thesis by blast
qed

section \<open>The tests pass\<close>

text \<open>
  What the tests need of their surroundings: a disk that takes the log, a logger that is not running, local
  times with fields in their ranges, and more bytes enqueued than written so far.
\<close>

definition logger_test_ready :: "string \<Rightarrow> (nat \<Rightarrow> log_moment) \<Rightarrow> string \<Rightarrow> AsyncLogger \<Rightarrow> disk \<Rightarrow> bool" where
  "logger_test_ready fname moment file a d \<longleftrightarrow> disk_ready fname (d_remove fname d) \<and> opens d \<noteq> [] \<and> \<not> running a \<and>
     log_base file = ''test_logger.cpp'' \<and> (\<forall>i. tm_ok (moment i)) \<and> log_bytes_written a \<le> enqueued_bytes a"

lemma short_line:
  assumes "logger_test_ready fname moment file a d" "length msg < 4000" "0 \<le> line" "line < 1000"
  obtains ds where "length ds = 24" "ds ! 4 = CHR ''-''" "\<forall>c \<in> set ds. isdigit c \<or> c \<in> {CHR ''-'', CHR '' '', CHR '':'', CHR ''.''}"
    "write_line (m_tm (moment i)) (m_ms (moment i)) lv file line msg = ds @ pf_left 5 (levelName lv) @ '' '' @ place line @ msg @ [LF]"
  using line_shape [of "moment i" "file" line lv msg] assms by (auto simp: logger_test_ready_def)

lemma session_file:
  assumes "logger_test_ready fname moment file a d" "length (concat (log_lines file lv calls)) \<le> 256 * 1024 * 1024"
  shows "readFile fname (log_stop (log_session fname lv file calls a d)) = concat (log_lines file lv calls) \<and>
    log_bytes_written (lg (log_stop (log_session fname lv file calls a d))) = log_bytes_written a + length (concat (log_lines file lv calls)) \<and>
    enqueued_bytes (lg (log_stop (log_session fname lv file calls a d))) = enqueued_bytes a + length (concat (log_lines file lv calls))"
  by (rule log_session_file) (use assms in \<open>simp_all add: logger_test_ready_def\<close>)

lemma format_test_passes:
  assumes r: "logger_test_ready ''/tmp/ws_logger_format.txt'' moment file a d"
  shows "AsyncLogger_FormatsArgumentsAndSourceLocation moment file a d"
proof -
  let ?msg = "''client=10.0.0.7 port=8080 ratio=0.50''"
  obtain ds where l: "write_line (m_tm (moment 0)) (m_ms (moment 0)) LOG_WARN file 92 ?msg =
      ds @ pf_left 5 ''WARN'' @ '' '' @ place 92 @ ?msg @ [LF]" "length ds = 24"
    by (rule short_line [OF r, of ?msg 92 0 LOG_WARN]) simp_all
  have lines: "log_lines file LOG_INFO [(moment 0, LOG_WARN, 92, ?msg)] = [ds @ pf_left 5 ''WARN'' @ '' '' @ place 92 @ ?msg @ [LF]]"
    by (simp add: log_lines_def l(1) less_eq_LogLevel_def)
  have "readFile ''/tmp/ws_logger_format.txt'' (log_stop (log_session ''/tmp/ws_logger_format.txt'' LOG_INFO file [(moment 0, LOG_WARN, 92, ?msg)] a d)) =
      ds @ pf_left 5 ''WARN'' @ '' '' @ place 92 @ ?msg @ [LF]"
    using session_file [OF r, of LOG_INFO "[(moment 0, LOG_WARN, 92, ?msg)]"] place_length [of 92] l(2) unfolding lines
    by (simp add: pf_left_def)
  moreover have "sublist ?msg (ds @ pf_left 5 ''WARN'' @ '' '' @ place 92 @ ?msg @ [LF])"
      "sublist ''WARN'' (ds @ pf_left 5 ''WARN'' @ '' '' @ place 92 @ ?msg @ [LF])"
      "sublist ''test_logger.cpp'' (ds @ pf_left 5 ''WARN'' @ '' '' @ place 92 @ ?msg @ [LF])"
    by (simp_all only: sublist_append place_def pf_left_def) simp_all
  ultimately show ?thesis unfolding AsyncLogger_FormatsArgumentsAndSourceLocation_def Let_def search_sublist by simp
qed

lemma long_line_test_passes:
  assumes r: "logger_test_ready ''/tmp/ws_logger_long.txt'' moment file a d"
  shows "AsyncLogger_LongLineIsTruncatedNotOverflowed moment file a d"
proof -
  let ?huge = "replicate 20000 CHR ''z''" and ?f = "''/tmp/ws_logger_long.txt''"
  obtain ds where l: "length ds = 24" "write_line (m_tm (moment 0)) (m_ms (moment 0)) LOG_INFO file 110 ?huge =
      take 4095 ((ds @ pf_left 5 ''INFO'' @ '' '' @ place 110) @ ?huge @ [LF])"
    using line_shape [of "moment 0" "file" 110 LOG_INFO ?huge] r by (auto simp: logger_test_ready_def Let_def simp del: take_append)
  let ?h = "ds @ pf_left 5 ''INFO'' @ '' '' @ place 110"
  have h: "length ?h \<le> 50" using place_length [of 110] l(1) by (simp add: pf_left_def)
  have lines: "log_lines file LOG_INFO [(moment 0, LOG_INFO, 110, ?huge)] = [take 4095 (?h @ ?huge @ [LF])]"
    by (simp add: log_lines_def l(2))
  have len: "length (take 4095 (?h @ ?huge @ [LF])) = 4095" using h by simp
  have rd: "readFile ?f (log_stop (log_session ?f LOG_INFO file [(moment 0, LOG_INFO, 110, ?huge)] a d)) = take 4095 (?h @ ?huge @ [LF])"
    using session_file [OF r, of LOG_INFO "[(moment 0, LOG_INFO, 110, ?huge)]"] len unfolding lines by simp
  have "take 4095 (?h @ ?huge @ [LF]) = ?h @ ''zzzz'' @ replicate (4091 - length ?h) CHR ''z''"
  proof -
    have "take (4095 - length ?h) (?huge @ [LF]) = replicate (4 + (4091 - length ?h)) CHR ''z''" using h by (simp add: min_def)
    moreover have "replicate (4 + k) CHR ''z'' = ''zzzz'' @ replicate k CHR ''z''" for k by (simp add: numeral_eq_Suc)
    moreover have "take 4095 ?h = ?h" using h by simp
    ultimately show ?thesis unfolding take_append [of 4095 ?h] by simp
  qed
  then have "sublist ''zzzz'' (take 4095 (?h @ ?huge @ [LF]))" by (simp only: sublist_append) simp
  with rd len show ?thesis unfolding AsyncLogger_LongLineIsTruncatedNotOverflowed_def Let_def search_sublist
    by (simp del: take_append append_assoc)
qed

text \<open>The level is the callers' affair: the log thread and \<open>stop\<close> do not look at it.\<close>

lemma writeAll_setLevel: "writeAll x (setLevel lv a) d = (setLevel lv (fst (writeAll x a d)), snd (writeAll x a d))"
  by (simp add: writeAll_def rollIfNeeded_def setLevel_def Let_def case_prod_beta)

lemma flush_setLevel:
  "flush_to_write (setLevel lv a) d = (setLevel lv (fst (flush_to_write a d)), snd (flush_to_write a d))"
  "flush_current (setLevel lv a) d = (setLevel lv (fst (flush_current a d)), snd (flush_current a d))"
proof -
  have same: "to_write (setLevel lv a) = to_write a" "current (setLevel lv a) = current a" by (simp_all add: setLevel_def)
  show "flush_to_write (setLevel lv a) d = (setLevel lv (fst (flush_to_write a d)), snd (flush_to_write a d))"
    "flush_current (setLevel lv a) d = (setLevel lv (fst (flush_current a d)), snd (flush_current a d))"
    unfolding flush_to_write_def flush_current_def same writeAll_setLevel by (simp_all add: case_prod_beta setLevel_def)
qed

definition with_level :: "LogLevel \<Rightarrow> lsys \<Rightarrow> lsys" where
  "with_level lv s = s\<lparr>lg := setLevel lv (lg s)\<rparr>"

lemma thread_turn_setLevel: "thread_turn (with_level lv s) = map_option (with_level lv) (thread_turn s)"
proof -
  have same: "to_write (setLevel lv a) = to_write a" "current (setLevel lv a) = current a" "stop_requested (setLevel lv a) = stop_requested a" for a
    by (simp_all add: setLevel_def)
  have "swap_buffers (setLevel lv a) = setLevel lv (swap_buffers a)" for a by (simp add: swap_buffers_def setLevel_def)
  then show ?thesis by (cases "tpc s") (simp_all add: thread_turn_def with_level_def same flush_setLevel case_prod_beta)
qed

lemma thread_turns_setLevel: "thread_turns n (with_level lv s) = with_level lv (thread_turns n s)"
  by (induction n arbitrary: s) (auto simp: thread_turn_setLevel split: option.split)

lemma log_stop_level: "dk (log_stop (s\<lparr>lg := setLevel lv (lg s)\<rparr>)) = dk (log_stop s)"
proof -
  have r: "(with_level lv s)\<lparr>lg := (lg (with_level lv s))\<lparr>stop_requested := True\<rparr>\<rparr> = with_level lv (s\<lparr>lg := (lg s)\<lparr>stop_requested := True\<rparr>\<rparr>)" for s
    by (cases "lg s") (simp add: with_level_def setLevel_def)
  have joined: "stop_joined (setLevel lv a) d = (setLevel lv (fst (stop_joined a d)), snd (stop_joined a d))" for a d
  proof -
    have "(setLevel lv a)\<lparr>running := False\<rparr> = setLevel lv (a\<lparr>running := False\<rparr>)" "to_write (setLevel lv a) = to_write a"
        "log_fd (setLevel lv a) = log_fd a"
      "(setLevel lv a)\<lparr>log_fd := n\<rparr> = setLevel lv (a\<lparr>log_fd := n\<rparr>)" for a n
      by (simp_all add: setLevel_def)
    note same = this
    obtain a1 d1 where 1: "flush_current (a\<lparr>running := False\<rparr>) d = (a1, d1)" by fastforce
    obtain a2 d2 where 2: "flush_to_write a1 d1 = (a2, d2)" by fastforce
    show ?thesis by (cases "to_write a1 = []") (simp_all add: stop_joined_def Let_def same flush_setLevel 1 2)
  qed
  have "log_stop (with_level lv s) = with_level lv (log_stop s)"
  proof (cases "running (lg s)")
    case False
    then show ?thesis by (simp add: log_stop_def with_level_def setLevel_def)
  next
    case True
    then have "running (lg (with_level lv s))" by (simp add: with_level_def setLevel_def)
    with True show ?thesis unfolding log_stop_def r thread_turns_setLevel Let_def
      by (simp add: with_level_def joined case_prod_beta) (simp add: setLevel_def)
  qed
  then show ?thesis by (simp add: with_level_def)
qed

lemma level_test_passes:
  assumes r: "logger_test_ready ''/tmp/ws_logger_level.txt'' moment file a d"
  shows "AsyncLogger_LevelFilterSuppressesLowerLevels moment file a d"
proof -
  let ?f = "''/tmp/ws_logger_level.txt''"
  let ?calls = "[(moment 0, LOG_INFO, 70, ''this must not appear''), (moment 1, LOG_DEBUG, 71, ''this must not appear either''),
    (moment 2, LOG_ERROR, 72, ''this must appear'')]"
  let ?msg = "''this must appear''"
  obtain ds where l: "length ds = 24" "\<forall>c \<in> set ds. isdigit c \<or> c \<in> {CHR ''-'', CHR '' '', CHR '':'', CHR ''.''}"
      "write_line (m_tm (moment 2)) (m_ms (moment 2)) LOG_ERROR file 72 ?msg = ds @ pf_left 5 ''ERROR'' @ '' '' @ place 72 @ ?msg @ [LF]"
    by (rule short_line [OF r, of ?msg 72 2 LOG_ERROR]) simp_all
  let ?line = "(ds @ ''ERROR '') @ ''test_logger.cpp:72 this must appear'' @ [LF]"
  have "place 72 = ''test_logger.cpp:72 ''" by code_simp
  then have lines: "log_lines file LOG_ERROR ?calls = [?line]"
    by (simp add: log_lines_def less_eq_LogLevel_def l(3) pf_left_def)
  let ?s = "log_session ?f LOG_ERROR file ?calls a d"
  have "readFile ?f (log_stop ?s) = ?line"
    using session_file [OF r, of LOG_ERROR ?calls] l(1) unfolding lines by simp
  moreover have "readFile ?f (log_stop (?s\<lparr>lg := setLevel LOG_INFO (lg ?s)\<rparr>)) = readFile ?f (log_stop ?s)"
    by (simp add: readFile_def log_stop_level)
  moreover have "CHR ''t'' \<notin> set (ds @ ''ERROR '')" using l(2) by (auto simp: isdigit_def)
  then have "sublist ''this must not appear'' ?line = sublist ''this must not appear'' (''test_logger.cpp:72 this must appear'' @ [LF])"
    by (rule sublist_skip)
  moreover have "\<not> sublist ''this must not appear'' (''test_logger.cpp:72 this must appear'' @ [LF])" by code_simp
  moreover have "sublist ''this must appear'' (''test_logger.cpp:72 this must appear'' @ [LF])" by code_simp
  then have "sublist ''this must appear'' ?line" by (simp only: sublist_append [of _ "ds @ ''ERROR ''"] simp_thms)
  moreover have "sublist ''ERROR'' ?line" by (simp only: sublist_append) simp
  ultimately show ?thesis unfolding AsyncLogger_LevelFilterSuppressesLowerLevels_def Let_def by (simp add: search_sublist [symmetric])
qed

lemma countLines_append [simp]: "countLines (xs @ ys) = countLines xs + countLines ys"
  by (simp add: countLines_def)

lemma countLines_none: "LF \<notin> set xs \<Longrightarrow> countLines xs = 0"
  by (auto simp: countLines_def filter_empty_conv)

lemma count_lines:
  assumes "\<And>i. i < n \<Longrightarrow> countLines (f i) = 1 \<and> length (f i) \<le> b"
  shows "k \<le> n \<Longrightarrow> countLines (concat (map f [0..<k])) = k \<and> length (concat (map f [0..<k])) \<le> b * k"
proof (induction k)
  case (Suc k)
  then show ?case using assms [of k] by simp
qed (simp add: countLines_def)

lemma queue_test_passes:
  assumes r: "logger_test_ready ''/tmp/ws_logger_test.txt'' moment file a d"
  shows "AsyncLogger_EveryQueuedLineReachesDisk moment file a d"
proof -
  let ?f = "''/tmp/ws_logger_test.txt''"
  let ?msg = "\<lambda>i. ''line '' @ to_string i @ '' payload '' @ replicate 36 CHR ''x''"
  let ?calls = "map (\<lambda>i. (moment i, LOG_INFO, 43, ?msg i)) [0..<5000]"
  let ?line = "\<lambda>i. write_line (m_tm (moment i)) (m_ms (moment i)) LOG_INFO file 43 (?msg i)"
  have lines: "log_lines file LOG_INFO ?calls = map ?line [0..<5000]"
    by (simp add: log_lines_def comp_def filter_map)
  have msg: "length (?msg i) \<le> 60" if "i < 5000" for i using length_to_string [of i 3] that by simp
  have nolf: "LF \<notin> set (place 43)" "length (place 43) \<le> 20" using place_length [of 43] by (simp_all add: place_def) code_simp
  have shape: "\<exists>ds. ?line i = ds @ ''INFO '' @ '' '' @ place 43 @ ?msg i @ [LF] \<and> ds ! 4 = CHR ''-'' \<and> length ds = 24 \<and> LF \<notin> set ds"
    if i: "i < 5000" for i
  proof -
    obtain ds where "length ds = 24" "ds ! 4 = CHR ''-''" "\<forall>c \<in> set ds. isdigit c \<or> c \<in> {CHR ''-'', CHR '' '', CHR '':'', CHR ''.''}"
      "?line i = ds @ pf_left 5 (levelName LOG_INFO) @ '' '' @ place 43 @ ?msg i @ [LF]"
      by (rule short_line [OF r, of "?msg i" 43 i LOG_INFO]) (use msg [OF i] in simp_all)
    moreover have "pf_left 5 (levelName LOG_INFO) = ''INFO ''" by (simp add: pf_left_def)
    ultimately show ?thesis by (intro exI [of _ ds]) (auto simp: isdigit_def)
  qed
  have one: "countLines (?line i) = 1 \<and> length (?line i) \<le> 200" if i: "i < 5000" for i
  proof -
    obtain ds where ds: "?line i = ds @ ''INFO '' @ '' '' @ place 43 @ ?msg i @ [LF]" "length ds = 24" "LF \<notin> set ds"
      using shape [OF i] by blast
    have "LF \<notin> set (to_string i)" using to_string_isdigit [of i] by (auto simp: isdigit_def)
    then have "countLines (ds @ ''INFO '' @ '' '' @ place 43 @ ?msg i) = 0" using ds(3) nolf(1) by (intro countLines_none) simp
    then show ?thesis using ds(2) nolf(2) msg [OF i] unfolding ds(1) by (simp add: countLines_def)
  qed
  let ?all = "concat (map ?line [0..<5000])"
  have all: "countLines ?all = 5000" "length ?all \<le> 256 * 1024 * 1024" using count_lines [of 5000 ?line 200 5000, OF one] by simp_all
  have sub: "sublist p ?all" if "i < 5000" "sublist p (?line i)" for p i
    using that by (intro sublist_concat [of "?line i"]) auto
  have num: "to_string 0 = ''0''" "to_string 4999 = ''4999''" by code_simp+
  have fname: "sublist ''test_logger.cpp:'' (place 43)" by code_simp
  obtain ds where d: "?line 0 = ds @ ''INFO '' @ '' '' @ place 43 @ ?msg 0 @ [LF]" "ds ! 4 = CHR ''-''" "length ds = 24"
    using shape [of 0] by auto
  have "?msg 0 = ''line 0 '' @ ''payload '' @ replicate 36 CHR ''x''" unfolding num(1) by simp
  then have "sublist ''line 0 '' (?msg 0)" by (simp only: sublist_append simp_thms sublist_order.order_refl)
  from sublist_inside [OF this, of "ds @ ''INFO '' @ '' '' @ place 43" "[LF]"]
  have "sublist ''line 0 '' (?line 0)" by (simp only: d(1) append_assoc)
  moreover have "sublist ''INFO'' (?line 0)" unfolding d(1) by (simp only: sublist_append) simp
  moreover have "sublist ''test_logger.cpp:'' (?line 0)" using sublist_inside [OF fname, of "ds @ ''INFO '' @ '' ''" "?msg 0 @ [LF]"] by (simp only: d(1) append_assoc)
  ultimately have l0: "sublist ''line 0 '' ?all" "sublist ''INFO'' ?all" "sublist ''test_logger.cpp:'' ?all"
    using sub [of 0] by simp_all
  have "[0..<5000] = 0 # [Suc 0..<5000]" by (rule upt_conv_Cons) simp
  then have "?all = ?line 0 @ concat (map ?line [Suc 0..<5000])" by (simp only: list.map concat.simps)
  moreover have "take 1 (drop 4 (?line 0 @ x)) = ''-''" for x
    using d(2,3) unfolding d(1) by (simp add: take_Suc_conv_app_nth hd_drop_conv_nth)
  ultimately have dash: "take 1 (drop 4 ?all) = ''-''" by (simp only:)
  obtain ds where e: "?line 4999 = ds @ ''INFO '' @ '' '' @ place 43 @ ?msg 4999 @ [LF]" using shape [of 4999] by auto
  have "?msg 4999 = ''line 4999 '' @ ''payload '' @ replicate 36 CHR ''x''" unfolding num(2) by simp
  then have "sublist ''line 4999 '' (?msg 4999)" by (simp only: sublist_append simp_thms sublist_order.order_refl)
  from sublist_inside [OF this, of "ds @ ''INFO '' @ '' '' @ place 43" "[LF]"]
  have "sublist ''line 4999 '' (?line 4999)" by (simp only: e append_assoc)
  then have l4999: "sublist ''line 4999 '' ?all" using sub [of 4999] by simp
  define A where "A = ?all"
  note F = session_file [OF r, of LOG_INFO ?calls, unfolded lines, OF all(2), folded A_def]
  note L = all(1) [folded A_def] l0 [folded A_def] l4999 [folded A_def] dash [folded A_def]
  have "0 < length A" using L(1) length_filter_le [of "\<lambda>c. c = LF" A] by (auto simp: countLines_def)
  then show ?thesis unfolding AsyncLogger_EveryQueuedLineReachesDisk_def Let_def search_sublist
    using F r L by (simp add: logger_test_ready_def)
qed

end
