(* ===== verification/Spec2Isabelle.thy ===== *)
theory Spec2Isabelle
  imports Memory_Pool Program_Run Loop_Wakeup Idle_Props Delivery Test_Http Test_Core Test_Logger
begin

text \<open>
  A verification development for ws-server, an epoll-based HTTP/1.1 server in C++ (\<open>include/ws\<close>, \<open>src\<close>).

  \<^bold>\<open>The program.\<close> \<open>main\<close> reads the options, starts the asynchronous logger and the server. The server has
  a main event loop, which accepts connections, and optionally sub loops, one thread each, to which it
  deals the connections out in turn. An event loop waits on epoll with the time to its next timer as
  timeout, handles the events of its connections, runs the due timers and then the tasks that other
  threads queued for it; an eventfd wakes it. A connection drains its socket into an input buffer, feeds
  the parser, hands every complete request to the server's handler, serialises the response into the
  output buffer and writes. Idle connections are closed by a timer that looks at the last activity.

  \<^bold>\<open>The theories\<close>, each importing those it uses:
    \<^item> \<open>WS_Prelude\<close>: machine types, the parts of the C and C++ libraries that the server uses, ordered maps,
      generic lemmas, and the locale \<open>inv_system\<close> (state machines with an invariant).
    \<^item> \<open>Sys\<close>: the operating system as an argument: scripts for \<open>readv\<close>, \<open>write\<close> and \<open>epoll_wait\<close>, the
      steady clock, the interest list of epoll, the eventfd counter, \<open>snprintf\<close>.
    \<^item> \<open>Buffer\<close> (\<open>buffer.cpp\<close>): the vector with its two indices; the operations implement a byte queue
      (locale \<open>byte_buffer\<close>).
    \<^item> \<open>Http\<close> (\<open>http.cpp\<close>): requests, responses, serialisation.
    \<^item> \<open>Http_Parser\<close>, \<open>Http_Parser_Props\<close> (\<open>http_parser.cpp\<close>): the parser on buffers, the same parser on byte
      lists, their equality, independence of segmentation, the round trip with a renderer, limits.
    \<^item> \<open>Timer\<close> (\<open>timer.cpp\<close>): the timer heap on the promise of a priority queue (locale \<open>min_queue\<close>), which
      leaves the order of equal deadlines open: the script \<open>ties\<close> decides it; lazy cancellation refines eager
      removal; expiry and its termination; the timeout.
    \<^item> \<open>Memory_Pool\<close> (\<open>memory_pool.cpp\<close>): chunks, free lists inside the blocks, thread-local size classes
      (locale \<open>block_allocator\<close>); no other component of the program uses the pool.
    \<^item> \<open>Epoller\<close> (\<open>epoller.cpp\<close>, locale \<open>interest_set\<close>); \<open>Loop_State\<close> (\<open>stats.h\<close>, the members of
      \<open>event_loop.h\<close>).
    \<^item> \<open>Connection\<close>, \<open>Connection_Props\<close> (\<open>connection.cpp\<close>): every member function as a function of the
      connection and its environment; the contract \<open>conn_step\<close> that all of them satisfy (locale
      \<open>conn_action\<close>); the stream of responses.
    \<^item> \<open>Event_Loop\<close> (\<open>event_loop.cpp\<close>): one turn of the loop and its invariant. The locale \<open>loop_client\<close> is
      what a loop asks of its acceptor and of the tasks it runs; in it, every turn returns and keeps the
      invariant. \<open>Idle_Timers\<close>: the correspondence of connections and timers, which every operation of a
      connection keeps (locale \<open>timed_action\<close>, an extension of \<open>conn_action\<close>); \<open>Idle_Props\<close>: what
      expiring the timers does to idle connections. \<open>Delivery\<close>: how output leaves by way of EPOLLOUT events.
    \<^item> \<open>Loop_Wakeup\<close>: the loop's task queue and its \<open>quit_\<close> with any number of other threads, as a step relation.
    \<^item> \<open>Server_Handler\<close> (\<open>server.cpp\<close>): routing, static files, statistics. \<open>Server\<close> (\<open>server.cpp\<close>): accepting,
      distributing, attaching, starting, stopping, and schedules of turns of all loops; it interprets
      \<open>loop_client\<close> for the main loop, for the sub loops and for the single reactor. \<open>Server_Props\<close>: what this
      gives for the server. \<open>Shutdown\<close>: from the call of \<open>stop\<close>, by any thread, while any loops are in the middle
      of a turn, to the destructors, with the account of all descriptors.
    \<^item> \<open>Logger\<close> (\<open>logger.cpp\<close>): lines, the double buffer as a step relation, files and rotation; \<open>Logger_Run\<close>: the
      log thread on its own, the way of the log into the files, \<open>stop\<close> as a whole; \<open>Log_Start\<close>: the logger that
      \<open>start\<close> leaves, the log on standard output, and the byte counters.
    \<^item> \<open>Main_Program\<close> (\<open>main.cpp\<close>): options, output and set-up; \<open>Program_Run\<close>: the program from its start to its
      exit, where \<open>start\<close> logs what the server has counted before \<open>main\<close> stops the logger.
    \<^item> \<open>Test_Http\<close>, \<open>Test_Core\<close>, \<open>Test_Logger\<close> (\<open>tests\<close>): the program's own unit tests, run on the model; the model
      passes them.
    \<^item> This theory: a request's way through loop, connection, parser and handler.

  \<^bold>\<open>How state and operations correspond.\<close> A class is a record with the members' names (a suffix or prefix
  where a name is taken), a member function a function that returns the updated record; several objects
  that a function touches are passed and returned together (\<open>env\<close> is the loop, the counters and the part of
  the system the loop's thread sees). An object shared through \<open>shared_ptr\<close> is a position in the store of
  its loop, and goes when neither the loop's table nor the running code refers to it. Errors are values of
  sum and option types. Counters are 64-bit words and wrap; sizes of objects in memory, the timer ids and
  the logger's byte counters are natural numbers. Times are integers in nanoseconds.

  \<^bold>\<open>What the theorems show.\<close> C1, C2, C4: the parts together, from the bytes that a client
  sends to the last byte of the answers, for any portions in which the socket takes the output (C4: all at once). C3: the program from its
  options to its return. C5, C6, C17, C24: the whole server runs every schedule of turns and stays consistent,
  with an exact account of descriptors, timers and active connections; C13: the same account to the end of the
  server. C7, C9, C11, C32, C33: responses are whole and in order whatever the socket does, a connection closes
  once, pending output is watched, the idle timer; C16: idle connections are closed. C8, C10, C28, C29, C36,
  C37: the parser. C12, C25, C35: no task is lost, reordered or, while the loop runs, left waiting. C18, C34, C38: timers. C19, C22,
  C30, C31: the handler. C20: the pool. C21: the buffer. C14, C15, C26, C27, C39: the logger. C23: the
  connection limit. C40: the start of the program. Other facts are lemmas of their theories: the timeout handed
  to epoll (\<open>nextTimeoutMs_exact\<close>), the distribution of connections (\<open>round_robin\<close>),
  the log thread (\<open>log_thread_catches_up\<close>), the unit tests.

  \<^bold>\<open>Bounds and fuel.\<close> Loops of the code are total functions with termination proofs, with two exceptions:
  \<open>expire_loop\<close> is a partial function because callbacks might keep adding due timers (C38 gives the
  condition under which it returns, and \<open>loop_client\<close> discharges it for the idle timers), and the endless
  loop of an event loop is cut into turns, \<open>loop_turns\<close>, for every number of them. The loops over system
  calls end because the scripts are finite: a call is interrupted only finitely often. \<open>out_events\<close> delivers at
  most a given number of events; C1 and C2 say how many are enough. \<open>log_stop\<close> lets the log thread make five steps before
  it is joined; \<open>log_thread_catches_up\<close> shows that it has then ended.

  \<^bold>\<open>What is asked of the surroundings.\<close> The theorems on the log's files (C3, C14, C15, C26) are about a disk
  that takes every write, in pieces or after \<open>EINTR\<close>, and on which the names of rotated files are new; what
  happens otherwise is \<open>same_second_rotation_loses\<close>. C20 asks that the size of a chunk fits \<open>size_t\<close>;
  \<open>oversized_pool_overruns\<close> is a pool where it does not. C1 and C2 are about events of sockets alone: the timers of
  the loop are not run between them, and the idle timer closes a connection with output pending like any other (C33).

  \<^bold>\<open>The operating system.\<close> The scripts of a socket's input and output belong to its descriptor number, and go on when the number
  is closed and handed out again; a script that ended with the end of the stream stays there. A new descriptor is
  the lowest number not in use by the loops, without counting the log file's.

  \<^bold>\<open>History.\<close> \<open>closed_fds\<close> and \<open>granted\<close> record every descriptor that has been closed and that \<open>accept4\<close> has handed
  out, \<open>wire\<close> what has been sent, \<open>inserted\<close> and \<open>given\<close> the log; the code does not read them.

  \<^bold>\<open>Concurrency.\<close> Turns of different loops are interleaved in every order, each as one step; the queue
  between threads and the logger's double buffer are modelled at the granularity of single atomic actions.
  The relaxed atomics are counters whose order does not matter.

  \<^bold>\<open>Not modelled.\<close> Socket options, \<open>fsync\<close>, the text of log messages at their call sites (which go to the
  logger as arbitrary lines), but for the last one of \<open>start\<close>; absolute and relative names of files, once
  resolved, are not distinguished (\<open>within\<close>); \<open>abort\<close> when epoll or eventfd cannot be created; memory exhaustion outside the pool. \<open>getopt_long\<close>, \<open>inet_ntop\<close>, \<open>localtime_r\<close>
  and \<open>vsnprintf\<close> are arguments. Of the unit tests, the one that runs a \<open>std::list\<close> on the
  pool's allocator; the deployment files and the web pages. What is left of \<open>src\<close> and \<open>include/ws\<close> is comments,
  declarations of functions whose definitions are modelled, and the single instance of the logger.
\<close>

section \<open>Requests served end to end\<close>

text \<open>The answer to a request other than \<open>/stats\<close> does not depend on counters or timers.\<close>

definition serve :: "Options \<Rightarrow> filesystem \<Rightarrow> HttpRequest \<Rightarrow> HttpResponse" where
  "serve cfg fs r = final (req_method r = ''HEAD'') (route cfg fs (snapshot 0 [] ServerCounters_new) r HttpResponse_new)"

lemma serve_handler:
  "req_path r \<noteq> ''/stats'' \<Longrightarrow> Server_handleRequest cfg fs ts e r HttpResponse_new = serve cfg fs r"
  by (simp add: handler_final serve_def route_def)

lemma serve_keeps: "\<not> close_connection (serve cfg fs r)"
  unfolding serve_def
  by (rule final_headers [OF route_route_ok, of cfg fs "snapshot 0 [] ServerCounters_new" r])
    (cases "req_method r = ''HEAD''"; auto)

text \<open>
  C4: the server's parts together. When pipelined keep-alive requests for anything but \<open>/stats\<close> arrive on
  an idle connection of one of its loops, cut into segments in any way, and the socket takes every write in
  full (\<open>txs = []\<close>: no short write, no \<open>EAGAIN\<close>, no error; C1 and C2 are about sockets that do less), one read event makes the loop
  put exactly the serialised answers of the server's routing on the wire, in the order of the requests,
  and the loop and the connection stay consistent and open for more.
\<close>

theorem requests_served:
  assumes "loop_inv (objs, e)" "obj objs i = Some c" "c_fd c \<noteq> wakeup_fd (loop e)" "c_fd c \<noteq> acceptor_fd (loop e)"
    and "parser c = HttpParser_new" "\<not> close_after_write c" "contents (inbuf c) = []" "contents (outbuf c) = []"
    and "rxs (sys e) (c_fd c) = map Rx segs" "concat segs = concat (map render rs)" "txs (sys e) (c_fd c) = []"
    and "\<forall>r \<in> set rs. renderable r \<and> keepAlive r \<and> req_path r \<noteq> ''/stats''"
  shows "\<exists>c' e'. dispatch (Server_handleRequest cfg fs ts) acceptor (c_fd c, EPOLLIN) (x, (objs, e)) = (x, (objs[i := Some c'], e')) \<and>
    loop_inv (objs[i := Some c'], e') \<and> \<not> is_closed c' \<and>
    wire (sys e') (c_fd c) = wire (sys e) (c_fd c) @ concat (map (toString \<circ> serve cfg fs) rs) \<and>
    requests (counters e') = requests (counters e) + of_nat (length rs)"
proof -
  note D = loop_invD [OF assms(1,2)]
  let ?h = "Server_handleRequest cfg fs ts"
  obtain c' e' where r: "handleRead ?h c e = (c', e')" by fastforce
  have all: "\<forall>r \<in> set rs. renderable r \<and> reply_keeps (serve cfg fs) r \<and> (\<forall>e. ?h e r HttpResponse_new = serve cfg fs r)"
    using assms(12) by (simp add: reply_keeps_def serve_keeps serve_handler)
  note P = read_pipeline [OF D(1,4) assms(5-8) assms(9,10) all assms(11) r]
  have bits: "EPOLLIN AND (EPOLLHUP OR EPOLLERR) = 0" "EPOLLIN AND (EPOLLIN OR EPOLLRDHUP) \<noteq> 0" "EPOLLIN AND EPOLLOUT = 0"
    by code_simp+
  have ce: "connEvent ?h EPOLLIN c e = (c', e')" using r bits by (simp add: connEvent_def)
  note ev = dispatch_conn [OF assms(1-4) ce]
  show ?thesis using P ev(1) [of acceptor x] ev(2) by (intro exI [of _ c'] exI [of _ e']) simp
qed

theorem requests_served_witness:
  "let segs = [take 10 (render sample_post), drop 10 (render sample_post)]
   in \<exists>c' e'. dispatch (Server_handleRequest Options_new no_files []) id (5, EPOLLIN)
        ((), (replicate 7 None @ [Some sample_conn], sample_env (map Rx segs) [])) =
        ((), ((replicate 7 None @ [Some sample_conn])[7 := Some c'], e')) \<and>
      wire (sys e') 5 = toString (serve Options_new no_files sample_post) \<and> requests (counters e') = 1"
proof -
  let ?segs = "[take 10 (render sample_post), drop 10 (render sample_post)]"
  have o: "obj (replicate 7 None @ [Some sample_conn]) 7 = Some sample_conn" by (simp add: obj_def nth_append)
  have fds: "c_fd sample_conn \<noteq> wakeup_fd (loop (sample_env (map Rx ?segs) []))" "c_fd sample_conn \<noteq> acceptor_fd (loop (sample_env (map Rx ?segs) []))"
    by (simp_all add: sample_env_def)
  have segs: "concat ?segs = concat (map render [sample_post])" by simp
  have ka: "keepAlive sample_post \<and> req_path sample_post \<noteq> ''/stats''" by code_simp
  then have all: "\<forall>r \<in> set [sample_post]. renderable r \<and> keepAlive r \<and> req_path r \<noteq> ''/stats''"
    using renderable_sample_post by simp
  from requests_served [OF sample_loop o fds _ _ _ _ _ segs _ all, of Options_new no_files "[]" id "()"] show ?thesis
    unfolding Let_def by auto
qed

text \<open>
  C1: every request for anything but \<open>/stats\<close> is answered in full, in whatever portions the socket takes the answers.
  On an idle connection of a loop bytes arrive, cut into segments in any way, well-formed requests or
  not, of which none asks for \<open>/stats\<close> (that answer depends on the counters; C2 covers it), and the socket
  may take the output in any portions and stall any number of times, as long as it does not fail, and no timer of the
  loop expires meanwhile (the idle timer, which only input puts off, closes even a connection whose output
  is pending). Then one read event, followed by the EPOLLOUT events that the connection asks for, puts on the wire exactly the
  responses that the input calls for, and leaves the connection closed and forgotten if the last of them
  closes it, and otherwise idle, open and watching for input only. As many events are enough as there are bytes
  of responses and turns on which the socket takes none.
\<close>

theorem requests_answered_in_full:
  fixes e :: "'task env"
  assumes "loop_inv (objs, e)" "obj objs i = Some c" "c_fd c \<noteq> wakeup_fd (loop e)" "c_fd c \<noteq> acceptor_fd (loop e)"
    and "\<not> close_after_write c" "contents (outbuf c) = []" "\<not> writing c"
    and "rxs (sys e) (c_fd c) = map Rx segs" "xs = contents (inbuf c) @ concat segs"
    and "\<forall>r \<in> set (asked (serve cfg fs) (parser c) xs). req_path r \<noteq> ''/stats''"
    and "list_all (gentle False) (txs (sys e) (c_fd c))"
    and "length (concat (replies (serve cfg fs) (parser c) xs)) + stalls (txs (sys e) (c_fd c)) \<le> k"
  shows "\<exists>s'. out_events (Server_handleRequest cfg fs ts) acceptor k (c_fd c)
        (dispatch (Server_handleRequest cfg fs ts) acceptor (c_fd c, EPOLLIN) (x, (objs, e))) = (x, s') \<and>
    wire (sys (snd s')) (c_fd c) = wire (sys e) (c_fd c) @ concat (replies (serve cfg fs) (parser c) xs) \<and>
    settled (closes (serve cfg fs) (parser c) xs) (c_fd c) i s'"
proof -
  have agree: "\<forall>r \<in> set (asked (serve cfg fs) (parser c) xs). \<forall>e :: 'task env. Server_handleRequest cfg fs ts e r HttpResponse_new = serve cfg fs r"
    using assms(10) by (simp add: serve_handler)
  obtain outs cl where a: "answers (Server_handleRequest cfg fs ts :: 'task handler) (requests (counters e)) (parser c) xs outs cl"
      "\<forall>k \<ge> length (concat outs) + stalls (txs (sys e) (c_fd c)).
        \<exists>s'. out_events (Server_handleRequest cfg fs ts) acceptor k (c_fd c)
            (dispatch (Server_handleRequest cfg fs ts) acceptor (c_fd c, EPOLLIN) (x, (objs, e))) = (x, s') \<and>
          wire (sys (snd s')) (c_fd c) = wire (sys e) (c_fd c) @ concat outs \<and> settled cl (c_fd c) i s'"
    using answered_in_full [OF assms(1-8,11), where handler = "Server_handleRequest cfg fs ts" and acceptor = acceptor and x = x]
    unfolding assms(9) by blast
  with answers_determined [OF a(1) agree] assms(12) show ?thesis by simp
qed

text \<open>A client that sends a request and then nonsense, and takes the answers in small portions.\<close>

theorem requests_answered_in_full_witness:
  "\<exists>k objs' e'. out_events (Server_handleRequest Options_new no_files []) id k 5
        (dispatch (Server_handleRequest Options_new no_files []) id (5, EPOLLIN)
          ((), (replicate 7 None @ [Some sample_conn],
            sample_env (map Rx [render sample_post, ''non'', ''sense'' @ CRLF]) [TxAccept 7, TxErr EAGAIN, TxAccept 1]))) =
        ((), (objs', e')) \<and>
     wire (sys e') 5 = toString (serve Options_new no_files sample_post) @ bad_request \<and> obj objs' 7 = None \<and> connections (loop e') 5 = None"
proof -
  let ?segs = "[render sample_post, ''non'', ''sense'' @ CRLF]" and ?tx = "[TxAccept 7, TxErr EAGAIN, TxAccept 1]" and ?h = "serve Options_new no_files"
  have o: "obj (replicate 7 None @ [Some sample_conn]) 7 = Some sample_conn" by (simp add: obj_def nth_append)
  have bad: "fst (aparse HttpParser_new (''nonsense'' @ CRLF)) = ERROR" by code_simp
  have ka: "reply_keeps ?h sample_post" "req_path sample_post \<noteq> ''/stats''"
    using serve_keeps by (simp add: reply_keeps_def, code_simp) code_simp
  have ok: "aparse HttpParser_new (render sample_post @ ''nonsense'' @ CRLF) =
      (OK, \<lparr>pstate = COMPLETE, request = sample_post, content_length = length (req_body sample_post)\<rparr>, ''nonsense'' @ CRLF)"
    by (rule aparse_render [OF renderable_sample_post])
  have "replies ?h HttpParser_new (''nonsense'' @ CRLF) = [bad_request]" "closes ?h HttpParser_new (''nonsense'' @ CRLF)"
      "asked ?h HttpParser_new (''nonsense'' @ CRLF) = []"
    using bad by (simp_all add: replies.simps closes.simps asked.simps case_prod_beta)
  then have r: "replies ?h HttpParser_new (render sample_post @ ''nonsense'' @ CRLF) = [toString (?h sample_post), bad_request]"
      "closes ?h HttpParser_new (render sample_post @ ''nonsense'' @ CRLF)"
      "asked ?h HttpParser_new (render sample_post @ ''nonsense'' @ CRLF) = [sample_post]"
    using ok ka(1) by (simp_all add: replies.simps [of _ _ "render sample_post @ _"] closes.simps [of _ _ "render sample_post @ _"]
        asked.simps [of _ _ "render sample_post @ _"] reply_text_def)
  have segs: "render sample_post @ ''nonsense'' @ CRLF = contents (inbuf sample_conn) @ concat ?segs" by simp
  have "\<not> writing sample_conn" "list_all (gentle False) ?tx" by (simp_all add: sample_conn_def)
  with requests_answered_in_full [OF sample_loop [of "map Rx ?segs" ?tx] o sample_fds _ _ _ _ segs, where
      cfg = Options_new and fs = no_files and ts = "[]" and acceptor = id and x = "()"] r ka(2) show ?thesis
    by (fastforce simp: settled_def)
qed

text \<open>
  C2: the server's parts together, without a condition on the requests. Whatever bytes arrive on a connection with
  no output pending, and in whatever portions the socket takes the output, as long as it does not fail and no timer of
  the loop expires meanwhile, the wire gets a list of whole answers that
  the server's handler gives to the requests in their order, each asked for once, in an environment in which
  it has been counted together with those before it; \<open>/stats\<close> reports that count. When the answers are out the
  connection has closed if the last of them closes it, and is idle otherwise.
\<close>

theorem every_request_answered:
  fixes e :: "'task env"
  assumes "loop_inv (objs, e)" "obj objs i = Some c" "c_fd c \<noteq> wakeup_fd (loop e)" "c_fd c \<noteq> acceptor_fd (loop e)"
    and "\<not> close_after_write c" "contents (outbuf c) = []" "\<not> writing c"
    and "rxs (sys e) (c_fd c) = map Rx segs" "list_all (gentle False) (txs (sys e) (c_fd c))"
  shows "\<exists>outs cl. answers (Server_handleRequest cfg fs ts :: 'task handler) (requests (counters e)) (parser c) (contents (inbuf c) @ concat segs) outs cl \<and>
    (\<forall>k \<ge> length (concat outs) + stalls (txs (sys e) (c_fd c)).
      \<exists>s'. out_events (Server_handleRequest cfg fs ts) acceptor k (c_fd c)
          (dispatch (Server_handleRequest cfg fs ts) acceptor (c_fd c, EPOLLIN) (x, (objs, e))) = (x, s') \<and>
        wire (sys (snd s')) (c_fd c) = wire (sys e) (c_fd c) @ concat outs \<and> settled cl (c_fd c) i s')"
  using answered_in_full [OF assms, where handler = "Server_handleRequest cfg fs ts :: 'task handler" and acceptor = acceptor and x = x] .

text \<open>A client that asks for the statistics.\<close>

theorem every_request_answered_witness:
  "\<exists>outs cl k objs' e'. answers (Server_handleRequest Options_new no_files [] :: unit handler) 0 HttpParser_new (''GET /stats HTTP/1.1'' @ CRLF @ CRLF) outs cl \<and>
     out_events (Server_handleRequest Options_new no_files []) id k 5
        (dispatch (Server_handleRequest Options_new no_files []) id (5, EPOLLIN)
          ((), (replicate 7 None @ [Some sample_conn], sample_env (map Rx [''GET /stats HTTP/1.1'', CRLF @ CRLF]) [TxErr EAGAIN]))) =
        ((), (objs', e')) \<and> wire (sys e') 5 = concat outs"
proof -
  have o: "obj (replicate 7 None @ [Some sample_conn]) 7 = Some sample_conn" by (simp add: obj_def nth_append)
  have "\<not> writing sample_conn" by (simp add: sample_conn_def)
  with every_request_answered [OF sample_loop [of "map Rx [''GET /stats HTTP/1.1'', CRLF @ CRLF]" "[TxErr EAGAIN]"] o sample_fds,
      of "[''GET /stats HTTP/1.1'', CRLF @ CRLF]" Options_new no_files "[]" id "()"]
  show ?thesis by (fastforce simp: settled_def)
qed

end
